(* ===== verification/Prelude.thy ===== *)
theory Prelude
  imports Main "HOL-Library.Word"
begin

text \<open>
  The prelude of the development: the machine integers of the Rust sources, the shape of
  a thread's main loop, the value of a computation that may panic, and the contract that
  every event loop of the program shares.
\<close>

section \<open>Machine integers, results, panics\<close>

type_synonym u8 = "8 word"
type_synonym u16 = "16 word"
type_synonym u32 = "32 word"
type_synonym u64 = "64 word"

text \<open>Facts about encoders and decoders, and facts about the standard library functions.\<close>

named_theorems codec \<open>a decoder undoes an encoder\<close>
named_theorems rust_std \<open>evaluation of the modelled standard library\<close>

text \<open>
  A call that may panic (\<open>unwrap\<close>, \<open>expect\<close>) has the value \<open>Panic\<close> when it does.
  A Rust \<open>Result<T, E>\<close> is the sum \<open>E + T\<close>: \<open>Inl\<close> is \<open>Err\<close> and \<open>Inr\<close> is \<open>Ok\<close>.
\<close>

datatype 'a outcome = Panic | Value 'a

text \<open>How a thread whose result carries no information ended.\<close>

datatype thread_end = Returned | Panicked

definition and_then :: "'e + 'a \<Rightarrow> ('a \<Rightarrow> 'e + 'b) \<Rightarrow> 'e + 'b" where
  "and_then r f = (case r of Inl e \<Rightarrow> Inl e | Inr x \<Rightarrow> f x)"

definition map_err :: "('e \<Rightarrow> 'f) \<Rightarrow> 'e + 'a \<Rightarrow> 'f + 'a" where
  "map_err f r = (case r of Inl e \<Rightarrow> Inl (f e) | Inr x \<Rightarrow> Inr x)"

lemma and_then_simps [simp]:
  "and_then (Inl e) f = Inl e"
  "and_then (Inr x) f = f x"
  by (simp_all add: and_then_def)

lemma map_err_simps [simp]:
  "map_err f (Inl e) = Inl (f e)"
  "map_err f (Inr x) = Inr x"
  by (simp_all add: map_err_def)

lemma and_then_eq_Inr: "and_then r f = Inr y \<longleftrightarrow> (\<exists>x. r = Inr x \<and> f x = Inr y)"
  by (cases r) auto

lemma map_err_eq_Inr [simp]: "map_err f r = Inr y \<longleftrightarrow> r = Inr y"
  by (cases r) auto

section \<open>Loops driven by events\<close>

text \<open>
  Each long-running thread of the program is a \<open>loop { .. }\<close> around one blocking call.
  One iteration is a function of the loop's state and of what the blocking call returned;
  it either goes on with a new state or leaves the loop. A run of the loop is its step
  folded over the list of those outcomes: \<open>Continue\<close> means the loop is still running
  when the list ends, \<open>Break\<close> that it has left the loop.
\<close>

datatype ('s, 'r) control = Continue 's | Break 'r

fun run_loop :: "('s \<Rightarrow> 'e \<Rightarrow> ('s, 'r) control) \<Rightarrow> 's \<Rightarrow> 'e list \<Rightarrow> ('s, 'r) control" where
  "run_loop f s [] = Continue s"
| "run_loop f s (e # es) =
     (case f s e of Continue s' \<Rightarrow> run_loop f s' es | Break r \<Rightarrow> Break r)"

lemma run_loop_append:
  "run_loop f s (es @ fs) =
     (case run_loop f s es of Continue s' \<Rightarrow> run_loop f s' fs | Break r \<Rightarrow> Break r)"
  by (induction es arbitrary: s) (auto split: control.splits)

text \<open>
  The contract of an event loop: an invariant of the running loop, and what it leaves
  behind when it ends. It is stated once; every loop of the program interprets it.
\<close>

locale event_loop =
  fixes step :: "'s \<Rightarrow> 'e \<Rightarrow> ('s, 'r) control"
    and ok :: "'e \<Rightarrow> bool"
    and inv :: "'s \<Rightarrow> bool"
    and post :: "'r \<Rightarrow> bool"
  assumes step_continue: "inv s \<Longrightarrow> ok e \<Longrightarrow> step s e = Continue s' \<Longrightarrow> inv s'"
    and step_break: "inv s \<Longrightarrow> ok e \<Longrightarrow> step s e = Break r \<Longrightarrow> post r"
begin

lemma run_continue:
  "inv s \<Longrightarrow> list_all ok es \<Longrightarrow> run_loop step s es = Continue s' \<Longrightarrow> inv s'"
proof (induction es arbitrary: s)
  case Nil
  then show ?case by simp
next
  case (Cons e es)
  then show ?case
    by (cases "step s e") (auto dest: step_continue)
qed

lemma run_break:
  "inv s \<Longrightarrow> list_all ok es \<Longrightarrow> run_loop step s es = Break r \<Longrightarrow> post r"
proof (induction es arbitrary: s)
  case Nil
  then show ?case by simp
next
  case (Cons e es)
  then show ?case
    by (cases "step s e") (auto dest: step_continue step_break)
qed

end

text \<open>
  A loop that only leaves on some outcomes keeps running on every list of the others.
\<close>

lemma run_loop_continues:
  assumes "\<And>s e. I s \<Longrightarrow> ok e \<Longrightarrow> \<exists>s'. step s e = Continue s' \<and> I s'"
    and "I s" and "list_all ok es"
  shows "\<exists>s'. run_loop step s es = Continue s' \<and> I s'"
  using assms(2,3)
proof (induction es arbitrary: s)
  case Nil
  then show ?case by simp
next
  case (Cons e es)
  then obtain s' where "step s e = Continue s'" "I s'"
    using assms(1) [of s e] by auto
  with Cons show ?case by simp
qed

section \<open>Words and maps\<close>

lemma unat_word_of_nat_small:
  "n < 2 ^ LENGTH('a) \<Longrightarrow> unat (word_of_nat n :: 'a::len word) = n"
  by (simp add: unat_of_nat)

lemma word_of_nat_unat_id [simp]: "word_of_nat (unat w) = w"
  by simp

end
