(* ===== verification/RustStd.thy ===== *)
theory RustStd
  imports Prelude
begin

text \<open>
  The part of Rust's standard library that the sources use: UTF-8 strings, splitting and
  joining, decimal printing and parsing of unsigned integers, big-endian bytes, IPv4
  addresses, lines and whitespace. A \<open>str\<close> is the list of its bytes, written as
  characters (an Isabelle \<open>char\<close> is one byte), so that \<open>len()\<close> is \<open>length\<close>;
  \<open>as_bytes\<close> and \<open>from_utf8\<close> convert to and from \<open>u8\<close> lists. All the delimiters the
  program uses are ASCII, so splitting the bytes is splitting the text.
\<close>

section \<open>Bytes and UTF-8\<close>

definition byte_of_char :: "char \<Rightarrow> u8" where
  "byte_of_char c = word_of_nat (of_char c)"

definition char_of_byte :: "u8 \<Rightarrow> char" where
  "char_of_byte b = char_of (unat b)"

definition as_bytes :: "string \<Rightarrow> u8 list" where
  "as_bytes s = map byte_of_char s"

definition str_of_bytes :: "u8 list \<Rightarrow> string" where
  "str_of_bytes bs = map char_of_byte bs"

lemma of_char_less: "(of_char c :: nat) < 256"
  using of_char_mod_256 [of c, where 'a = nat] by (metis mod_less_divisor zero_less_numeral)

lemma char_of_byte_of_char [simp]: "char_of_byte (byte_of_char c) = c"
  by (simp add: char_of_byte_def byte_of_char_def unat_word_of_nat_small of_char_less)

lemma str_of_as_bytes [simp, codec]: "str_of_bytes (as_bytes s) = s"
  by (induction s) (simp_all add: str_of_bytes_def as_bytes_def)

lemma length_as_bytes [simp]: "length (as_bytes s) = length s"
  by (simp add: as_bytes_def)

lemma as_bytes_append: "as_bytes (s @ t) = as_bytes s @ as_bytes t"
  by (simp add: as_bytes_def)

text \<open>
  \<open>core::str::from_utf8\<close>: the first character of a byte sequence is either well formed,
  with a width, or an error: \<open>Some n\<close> for a bad sequence of \<open>n\<close> bytes, \<open>None\<close> for one
  that the end of the input cuts short. The second byte's range depends on the first, as
  in Unicode's table of well-formed sequences.
\<close>

datatype utf8_char = Utf8Width nat | Utf8Bad "nat option"

definition cont_byte :: "nat \<Rightarrow> bool" where
  "cont_byte b \<longleftrightarrow> 128 \<le> b \<and> b \<le> 191"

definition utf8_second3 :: "nat \<Rightarrow> nat \<Rightarrow> bool" where
  "utf8_second3 b c \<longleftrightarrow>
     (if b = 224 then 160 \<le> c \<and> c \<le> 191
      else if b = 237 then 128 \<le> c \<and> c \<le> 159
      else cont_byte c)"

definition utf8_second4 :: "nat \<Rightarrow> nat \<Rightarrow> bool" where
  "utf8_second4 b c \<longleftrightarrow>
     (if b = 240 then 144 \<le> c \<and> c \<le> 191
      else if b = 244 then 128 \<le> c \<and> c \<le> 143
      else cont_byte c)"

fun utf8_rest :: "nat \<Rightarrow> nat \<Rightarrow> nat list \<Rightarrow> utf8_char" where
  "utf8_rest k 0 bs = Utf8Width k"
| "utf8_rest k (Suc n) [] = Utf8Bad None"
| "utf8_rest k (Suc n) (b # bs) =
     (if cont_byte b then utf8_rest (Suc k) n bs else Utf8Bad (Some k))"

fun utf8_first :: "nat list \<Rightarrow> utf8_char" where
  "utf8_first [] = Utf8Bad None"
| "utf8_first (b # bs) =
     (if b < 128 then Utf8Width 1
      else if 194 \<le> b \<and> b \<le> 223 then utf8_rest 1 1 bs
      else if 224 \<le> b \<and> b \<le> 239 then
        (case bs of [] \<Rightarrow> Utf8Bad None
         | c # cs \<Rightarrow> if utf8_second3 b c then utf8_rest 2 1 cs else Utf8Bad (Some 1))
      else if 240 \<le> b \<and> b \<le> 244 then
        (case bs of [] \<Rightarrow> Utf8Bad None
         | c # cs \<Rightarrow> if utf8_second4 b c then utf8_rest 2 2 cs else Utf8Bad (Some 1))
      else Utf8Bad (Some 1))"

text \<open>\<open>Utf8Error\<close>: the length of the valid prefix and the length of the bad sequence.\<close>

datatype utf8_error = Utf8ErrorAt (valid_up_to: nat) (error_len: "nat option")

lemma utf8_rest_width: "utf8_rest k n bs = Utf8Width w \<Longrightarrow> w = k + n \<and> n \<le> length bs"
  by (induction k n bs rule: utf8_rest.induct) (auto split: if_splits)

lemma utf8_first_width:
  assumes "utf8_first bs = Utf8Width w"
  shows "0 < w \<and> w \<le> length bs"
  using assms
  by (cases bs) (auto dest!: utf8_rest_width split: if_splits list.splits)

function utf8_run :: "nat \<Rightarrow> nat list \<Rightarrow> utf8_error option" where
  "utf8_run i bs =
     (if bs = [] then None
      else case utf8_first bs of
        Utf8Width w \<Rightarrow> utf8_run (i + w) (drop w bs)
      | Utf8Bad l \<Rightarrow> Some (Utf8ErrorAt i l))"
  by pat_completeness auto
termination
  by (relation "measure (\<lambda>(i, bs). length bs)") (auto dest: utf8_first_width)

declare utf8_run.simps [simp del]

definition utf8_check :: "u8 list \<Rightarrow> utf8_error option" where
  "utf8_check bs = utf8_run 0 (map unat bs)"

definition from_utf8 :: "u8 list \<Rightarrow> utf8_error + string" where
  "from_utf8 bs = (case utf8_check bs of Some e \<Rightarrow> Inl e | None \<Rightarrow> Inr (str_of_bytes bs))"

text \<open>The strings of the program are valid UTF-8: the invariant of Rust's \<open>String\<close>.\<close>

definition valid_str :: "string \<Rightarrow> bool" where
  "valid_str s \<longleftrightarrow> utf8_check (as_bytes s) = None"

lemma from_utf8_as_bytes [codec]: "valid_str s \<Longrightarrow> from_utf8 (as_bytes s) = Inr s"
  by (simp add: from_utf8_def valid_str_def)

lemma utf8_rest_append: "utf8_rest k n bs = Utf8Width w \<Longrightarrow> utf8_rest k n (bs @ cs) = Utf8Width w"
  by (induction k n bs rule: utf8_rest.induct) (auto split: if_splits)

lemma utf8_first_append:
  "utf8_first bs = Utf8Width w \<Longrightarrow> utf8_first (bs @ cs) = Utf8Width w"
  by (cases bs) (auto simp: utf8_rest_append split: if_splits list.splits)

lemma utf8_run_append:
  "utf8_run i bs = None \<Longrightarrow> utf8_run i (bs @ cs) = utf8_run (i + length bs) cs"
proof (induction i bs rule: utf8_run.induct)
  case (1 i bs)
  show ?case
  proof (cases "bs = []")
    case True
    then show ?thesis by simp
  next
    case False
    with "1.prems" obtain w where w: "utf8_first bs = Utf8Width w"
        and r: "utf8_run (i + w) (drop w bs) = None"
      by (auto simp: utf8_run.simps [of i bs] split: utf8_char.splits)
    from w have "w \<le> length bs" by (simp add: utf8_first_width)
    with w r False "1.IH" [OF False w] show ?thesis
      by (simp add: utf8_run.simps [of i "bs @ cs"] utf8_first_append)
  qed
qed

lemma utf8_run_shift: "utf8_run i bs = None \<Longrightarrow> utf8_run j bs = None"
proof (induction i bs arbitrary: j rule: utf8_run.induct)
  case (1 i bs)
  then show ?case
    by (auto simp: utf8_run.simps [of i bs] utf8_run.simps [of j bs] split: utf8_char.splits if_splits)
qed

lemma valid_str_append: "valid_str s \<Longrightarrow> valid_str t \<Longrightarrow> valid_str (s @ t)"
  by (auto simp: valid_str_def utf8_check_def as_bytes_append utf8_run_append intro: utf8_run_shift)

lemma valid_str_Nil [simp]: "valid_str []"
  by (simp add: valid_str_def utf8_check_def as_bytes_def utf8_run.simps)

definition is_ascii :: "char \<Rightarrow> bool" where
  "is_ascii c \<longleftrightarrow> (of_char c :: nat) < 128"

lemma unat_byte_of_char: "unat (byte_of_char c) = of_char c"
  by (simp add: byte_of_char_def unat_word_of_nat_small of_char_less)

lemma valid_str_single: "is_ascii c \<Longrightarrow> valid_str [c]"
  by (simp add: valid_str_def utf8_check_def as_bytes_def utf8_run.simps unat_byte_of_char is_ascii_def)

lemma valid_str_ascii: "list_all is_ascii s \<Longrightarrow> valid_str s"
proof (induction s)
  case Nil
  show ?case by simp
next
  case (Cons c s)
  then have "valid_str ([c] @ s)"
    by (intro valid_str_append valid_str_single) simp_all
  then show ?case by simp
qed

text \<open>An ASCII character ends the character before it, so a valid text splits there into valid ones.\<close>

lemma utf8_rest_ascii:
  "utf8_rest k n (a @ c # b) = Utf8Width w \<Longrightarrow> c < 128 \<Longrightarrow> utf8_rest k n a = Utf8Width w"
proof (induction k n a rule: utf8_rest.induct)
  case (2 k n)
  then show ?case by (simp add: cont_byte_def)
qed (auto split: if_splits)

lemma utf8_first_ascii:
  assumes "utf8_first (a @ c # b) = Utf8Width w" "c < 128" "a \<noteq> []"
  shows "utf8_first a = Utf8Width w"
proof (cases a)
  case (Cons x xs)
  note rest = utf8_rest_ascii [OF _ assms(2)]
  have second: "\<not> utf8_second3 x c" "\<not> utf8_second4 x c"
    using assms(2) by (auto simp: utf8_second3_def utf8_second4_def cont_byte_def)
  show ?thesis
    using assms(1) second unfolding Cons
    by (cases xs) (use assms(2) in \<open>auto split: if_splits dest: rest simp: cont_byte_def\<close>)
qed (use assms in simp)

lemma utf8_run_ascii:
  assumes "utf8_run i (a @ c # b) = None" "c < 128"
  shows "utf8_run i a = None \<and> utf8_run (i + length a) (c # b) = None"
  using assms(1)
proof (induction i a rule: utf8_run.induct)
  case (1 i a)
  show ?case
  proof (cases "a = []")
    case True
    with "1.prems" show ?thesis by (simp add: utf8_run.simps [of i "[]"])
  next
    case False
    obtain w where w: "utf8_first (a @ c # b) = Utf8Width w" and r: "utf8_run (i + w) (drop w (a @ c # b)) = None"
      using "1.prems" by (auto simp: utf8_run.simps [of i "a @ c # b"] split: utf8_char.splits)
    have first: "utf8_first a = Utf8Width w" using utf8_first_ascii [OF w assms(2) False] .
    then have "w \<le> length a" using utf8_first_width by blast
    with r have "utf8_run (i + w) (drop w a @ c # b) = None" by simp
    from "1.IH" [OF False first this] \<open>w \<le> length a\<close> False first show ?thesis
      by (simp add: utf8_run.simps [of i a])
  qed
qed

lemma valid_str_cut:
  assumes "valid_str (a @ c # b)" "is_ascii c"
  shows "valid_str a" "valid_str b"
proof -
  have c: "unat (byte_of_char c) < 128" using assms(2) by (simp add: unat_byte_of_char is_ascii_def)
  have "utf8_run 0 (map unat (as_bytes a) @ unat (byte_of_char c) # map unat (as_bytes b)) = None"
    using assms(1) by (simp add: valid_str_def utf8_check_def as_bytes_def)
  from utf8_run_ascii [OF this c]
  have "utf8_run 0 (map unat (as_bytes a)) = None"
    and "utf8_run (0 + length (map unat (as_bytes a))) (unat (byte_of_char c) # map unat (as_bytes b)) = None"
    by simp_all
  with c utf8_run_shift show "valid_str a" "valid_str b"
    by (auto simp: valid_str_def utf8_check_def utf8_run.simps [of _ "_ # _"])
qed

lemma byte_of_char_of_byte [simp]: "byte_of_char (char_of_byte b) = b"
proof -
  have "unat b < 256" using unsigned_less [of b] by simp
  then show ?thesis by (simp add: byte_of_char_def char_of_byte_def)
qed

lemma valid_from_utf8: "from_utf8 bs = Inr s \<Longrightarrow> valid_str s"
proof -
  assume "from_utf8 bs = Inr s"
  then have "utf8_check bs = None" "s = str_of_bytes bs" by (auto simp: from_utf8_def split: option.splits)
  moreover have "as_bytes (str_of_bytes bs) = bs"
    by (simp add: as_bytes_def str_of_bytes_def comp_def)
  ultimately show ?thesis by (simp add: valid_str_def)
qed

section \<open>Splitting and joining\<close>

text \<open>\<open>str::split(c)\<close> collected into a vector: always at least one piece.\<close>

fun split_on :: "char \<Rightarrow> string \<Rightarrow> string list" where
  "split_on c [] = [[]]"
| "split_on c (x # xs) =
     (if x = c then [] # split_on c xs
      else case split_on c xs of [] \<Rightarrow> [[x]] | p # ps \<Rightarrow> (x # p) # ps)"

text \<open>\<open>str::splitn(2, c)\<close>: cut at the first \<open>c\<close> only.\<close>

fun splitn2 :: "char \<Rightarrow> string \<Rightarrow> string list" where
  "splitn2 c [] = [[]]"
| "splitn2 c (x # xs) =
     (if x = c then [[], xs]
      else case splitn2 c xs of [] \<Rightarrow> [[x]] | p # ps \<Rightarrow> (x # p) # ps)"

text \<open>\<open>[String]::join(sep)\<close>.\<close>

fun join_with :: "string \<Rightarrow> string list \<Rightarrow> string" where
  "join_with sep [] = []"
| "join_with sep [p] = p"
| "join_with sep (p # q # ps) = p @ sep @ join_with sep (q # ps)"

lemma split_on_not_Nil [simp]: "split_on c s \<noteq> []"
  by (induction s) (auto split: list.splits)

lemma split_on_no_sep: "c \<notin> set s \<Longrightarrow> split_on c s = [s]"
  by (induction s) auto

lemma split_on_append: "c \<notin> set p \<Longrightarrow> split_on c (p @ c # s) = p # split_on c s"
  by (induction p) (auto split: list.splits)

lemma split_on_join:
  "ps \<noteq> [] \<Longrightarrow> (\<forall>p \<in> set ps. c \<notin> set p) \<Longrightarrow> split_on c (join_with [c] ps) = ps"
  by (induction "[c]" ps rule: join_with.induct) (auto simp: split_on_no_sep split_on_append)

lemma join_split_on: "join_with [c] (split_on c s) = s"
proof (induction s)
  case Nil
  show ?case by simp
next
  case (Cons x s)
  obtain p ps where ps: "split_on c s = p # ps"
    by (cases "split_on c s") auto
  with Cons show ?case
    by (cases ps) auto
qed

lemma split_on_pieces: "p \<in> set (split_on c s) \<Longrightarrow> c \<notin> set p"
  by (induction s arbitrary: p) (auto split: list.splits if_splits)

lemma splitn2_no_sep: "c \<notin> set s \<Longrightarrow> splitn2 c s = [s]"
  by (induction s) auto

lemma splitn2_append: "c \<notin> set p \<Longrightarrow> splitn2 c (p @ c # s) = [p, s]"
  by (induction p) (auto split: list.splits)

lemma valid_split_on: "valid_str s \<Longrightarrow> is_ascii c \<Longrightarrow> p \<in> set (split_on c s) \<Longrightarrow> valid_str p"
proof (induction "length s" arbitrary: s rule: less_induct)
  case less
  show ?case
  proof (cases "c \<in> set s")
    case True
    then obtain a b where s: "s = a @ c # b" "c \<notin> set a" using split_list_first by fastforce
    note cut = valid_str_cut [OF less.prems(1) [unfolded s(1)] less.prems(2)]
    have "p = a \<or> p \<in> set (split_on c b)" using less.prems(3) s by (simp add: split_on_append)
    with less.hyps [OF _ cut(2) less.prems(2)] cut(1) s(1) show ?thesis by auto
  next
    case False
    with less.prems show ?thesis by (simp add: split_on_no_sep)
  qed
qed

lemma valid_splitn2: "valid_str s \<Longrightarrow> is_ascii c \<Longrightarrow> p \<in> set (splitn2 c s) \<Longrightarrow> valid_str p"
proof (cases "c \<in> set s")
  case True
  assume valid: "valid_str s" "is_ascii c" "p \<in> set (splitn2 c s)"
  from True obtain a b where s: "s = a @ c # b" "c \<notin> set a" using split_list_first by fastforce
  with valid valid_str_cut [of a c b] show "valid_str p" by (auto simp: splitn2_append)
qed (simp add: splitn2_no_sep)

lemma join_with_set: "set (join_with sep ps) \<subseteq> set sep \<union> \<Union> (set ` set ps)"
  by (induction sep ps rule: join_with.induct) auto

lemma valid_str_join:
  "valid_str sep \<Longrightarrow> (\<forall>p \<in> set ps. valid_str p) \<Longrightarrow> valid_str (join_with sep ps)"
  by (induction sep ps rule: join_with.induct) (auto intro: valid_str_append)

section \<open>Decimal numbers\<close>

definition digit_char :: "nat \<Rightarrow> char" where
  "digit_char d = char_of (48 + d)"

definition is_digit :: "char \<Rightarrow> bool" where
  "is_digit c \<longleftrightarrow> 48 \<le> (of_char c :: nat) \<and> (of_char c :: nat) \<le> 57"

definition digit_val :: "char \<Rightarrow> nat" where
  "digit_val c = of_char c - 48"

text \<open>\<open>Display\<close> of an unsigned integer.\<close>

fun show_nat :: "nat \<Rightarrow> string" where
  "show_nat n = (if n < 10 then [digit_char n] else show_nat (n div 10) @ [digit_char (n mod 10)])"

declare show_nat.simps [simp del]

text \<open>
  \<open>FromStr\<close> of an unsigned integer below \<open>bound\<close>: an optional \<open>+\<close>, then at least one
  digit; at each character a bad digit is reported before an overflow.
\<close>

datatype int_error = IntEmpty | IntInvalidDigit | IntPosOverflow

fun parse_digits :: "nat \<Rightarrow> nat \<Rightarrow> string \<Rightarrow> int_error + nat" where
  "parse_digits bound acc [] = Inr acc"
| "parse_digits bound acc (c # cs) =
     (if \<not> is_digit c then Inl IntInvalidDigit
      else if acc * 10 + digit_val c < bound then parse_digits bound (acc * 10 + digit_val c) cs
      else Inl IntPosOverflow)"

definition parse_nat :: "nat \<Rightarrow> string \<Rightarrow> int_error + nat" where
  "parse_nat bound s =
     (case s of
        [] \<Rightarrow> Inl IntEmpty
      | c # cs \<Rightarrow>
          if cs = [] \<and> (c = CHR ''+'' \<or> c = CHR ''-'') then Inl IntInvalidDigit
          else parse_digits bound 0 (if c = CHR ''+'' then cs else s))"

definition parse_word :: "string \<Rightarrow> int_error + 'a::len word" where
  "parse_word s = and_then (parse_nat (2 ^ LENGTH('a)) s) (\<lambda>n. Inr (word_of_nat n))"

definition show_word :: "'a::len word \<Rightarrow> string" where
  "show_word w = show_nat (unat w)"

lemma of_digit_char: "d < 10 \<Longrightarrow> of_char (digit_char d) = 48 + d"
  by (simp add: digit_char_def)

lemma digit_char_facts [simp]:
  "d < 10 \<Longrightarrow> is_digit (digit_char d)"
  "d < 10 \<Longrightarrow> digit_val (digit_char d) = d"
  by (simp_all add: is_digit_def digit_val_def of_digit_char)

lemma show_nat_digits: "list_all is_digit (show_nat n)"
  by (induction n rule: show_nat.induct) (subst show_nat.simps, simp)

lemma show_nat_not_Nil [simp]: "show_nat n \<noteq> []"
  by (subst show_nat.simps) simp

lemma is_digit_ascii: "is_digit c \<Longrightarrow> is_ascii c"
  by (simp add: is_digit_def is_ascii_def)

lemma is_digit_neq:
  "is_digit c \<Longrightarrow> c \<noteq> CHR ''+'' \<and> c \<noteq> CHR ''|'' \<and> c \<noteq> CHR ''.'' \<and> c \<noteq> CHR ''-''"
  by (auto simp: is_digit_def)

lemma show_nat_free:
  "CHR ''|'' \<notin> set (show_nat n)" "CHR ''.'' \<notin> set (show_nat n)"
  using show_nat_digits [of n] by (auto simp: list_all_iff dest: is_digit_neq)

lemma valid_show_nat: "valid_str (show_nat n)"
  using show_nat_digits [of n] by (intro valid_str_ascii) (auto simp: list_all_iff is_digit_ascii)

lemma parse_digits_append:
  "parse_digits b acc (xs @ ys) = and_then (parse_digits b acc xs) (\<lambda>a. parse_digits b a ys)"
  by (induction xs arbitrary: acc) auto

lemma parse_digits_show: "n < b \<Longrightarrow> parse_digits b 0 (show_nat n) = Inr n"
proof (induction n rule: show_nat.induct)
  case (1 n)
  show ?case
  proof (cases "n < 10")
    case True
    with "1.prems" show ?thesis by (subst show_nat.simps) simp
  next
    case False
    with "1.prems" have "parse_digits b 0 (show_nat (n div 10)) = Inr (n div 10)"
      by (intro "1.IH") auto
    moreover have "n div 10 * 10 + n mod 10 = n" by simp
    ultimately show ?thesis
      using False "1.prems" by (subst show_nat.simps) (simp add: parse_digits_append)
  qed
qed

lemma parse_show_nat [codec]: "n < b \<Longrightarrow> parse_nat b (show_nat n) = Inr n"
proof -
  assume n: "n < b"
  obtain c cs where c: "show_nat n = c # cs" by (cases "show_nat n") auto
  with show_nat_digits [of n] have "is_digit c" by simp
  then have "c \<noteq> CHR ''+'' \<and> c \<noteq> CHR ''-''" using is_digit_neq by blast
  with c n parse_digits_show [OF n] show ?thesis by (simp add: parse_nat_def)
qed

lemma parse_show_word [codec]: "parse_word (show_word (w :: 'a::len word)) = Inr w"
  by (simp add: parse_word_def show_word_def parse_show_nat)

lemma parse_digits_bound: "parse_digits b acc s = Inr n \<Longrightarrow> acc < b \<Longrightarrow> n < b"
  by (induction b acc s rule: parse_digits.induct) (auto split: if_splits)

section \<open>IPv4 addresses\<close>

datatype ipv4 = Ipv4 u8 u8 u8 u8

fun show_ipv4 :: "ipv4 \<Rightarrow> string" where
  "show_ipv4 (Ipv4 a b c d) =
     join_with ''.'' [show_word a, show_word b, show_word c, show_word d]"

text \<open>
  \<open>Ipv4Addr::from_str\<close>: four decimal octets of at most three digits, without a leading
  zero unless the octet is a single digit, separated by dots.
\<close>

datatype addr_parse_error = AddrParseError

definition parse_octet :: "string \<Rightarrow> u8 option" where
  "parse_octet s =
     (if s = [] \<or> length s > 3 \<or> (length s > 1 \<and> hd s = CHR ''0'') then None
      else case parse_digits 256 0 s of Inl _ \<Rightarrow> None | Inr n \<Rightarrow> Some (word_of_nat n))"

definition ipv4_from_str :: "string \<Rightarrow> addr_parse_error + ipv4" where
  "ipv4_from_str s =
     (case map parse_octet (split_on CHR ''.'' s) of
        [Some a, Some b, Some c, Some d] \<Rightarrow> Inr (Ipv4 a b c d)
      | _ \<Rightarrow> Inl AddrParseError)"

lemma show_nat_small:
  "n < 256 \<Longrightarrow> length (show_nat n) \<le> 3 \<and> (length (show_nat n) > 1 \<longrightarrow> hd (show_nat n) \<noteq> CHR ''0'')"
proof -
  assume n: "n < 256"
  consider "n < 10" | "10 \<le> n" "n < 100" | "100 \<le> n" by linarith
  then show ?thesis
  proof cases
    case 1
    then show ?thesis by (simp add: show_nat.simps [of n])
  next
    case 2
    then have d: "n div 10 < 10" "n div 10 \<noteq> 0" by auto
    then have "digit_char (n div 10) \<noteq> CHR ''0''"
      using of_digit_char [of "n div 10"] by auto
    with 2 d show ?thesis by (simp add: show_nat.simps [of n] show_nat.simps [of "n div 10"])
  next
    case 3
    with n have d: "n div 10 div 10 < 10" "n div 10 div 10 \<noteq> 0" "\<not> n div 10 < 10" by auto
    then have "digit_char (n div 10 div 10) \<noteq> CHR ''0''"
      using of_digit_char [of "n div 10 div 10"] by auto
    with 3 d show ?thesis
      by (simp add: show_nat.simps [of n] show_nat.simps [of "n div 10"]
          show_nat.simps [of "n div 10 div 10"])
  qed
qed

lemma unat_u8_less: "unat (w :: u8) < 256"
proof -
  have "unat w < 2 ^ LENGTH(8)" by (rule unsigned_less)
  then show ?thesis by simp
qed

lemma parse_octet_show [codec]: "parse_octet (show_word w) = Some w"
  using show_nat_small [OF unat_u8_less, of w] unat_u8_less [of w]
  by (auto simp: parse_octet_def show_word_def parse_digits_show)

lemma ipv4_from_show [codec]: "ipv4_from_str (show_ipv4 a) = Inr a"
proof (cases a)
  case (Ipv4 p q r s)
  have "split_on CHR ''.'' (show_ipv4 a) = [show_word p, show_word q, show_word r, show_word s]"
    unfolding Ipv4 show_ipv4.simps by (rule split_on_join) (auto simp: show_word_def show_nat_free)
  then show ?thesis
    by (simp add: ipv4_from_str_def parse_octet_show Ipv4)
qed

lemma show_ipv4_free: "CHR ''|'' \<notin> set (show_ipv4 a)"
  by (cases a) (auto simp: show_word_def show_nat_free)

lemma valid_show_ipv4: "valid_str (show_ipv4 a)"
proof (cases a)
  case (Ipv4 p q r s)
  have "valid_str ''.''" by (rule valid_str_single) (simp add: is_ascii_def)
  then show ?thesis
    unfolding Ipv4 show_ipv4.simps by (rule valid_str_join) (auto simp: show_word_def valid_show_nat)
qed

section \<open>Case-insensitive comparison, whitespace, lines\<close>

definition ascii_lower :: "char \<Rightarrow> nat" where
  "ascii_lower c = (let n = of_char c in if 65 \<le> n \<and> n \<le> 90 then n + 32 else n)"

definition eq_ignore_ascii_case :: "string \<Rightarrow> string \<Rightarrow> bool" where
  "eq_ignore_ascii_case s t \<longleftrightarrow> map ascii_lower s = map ascii_lower t"

lemma eq_ignore_ascii_case_refl [simp]: "eq_ignore_ascii_case s s"
  by (simp add: eq_ignore_ascii_case_def)

text \<open>
  \<open>str::trim\<close> removes characters with Unicode's \<open>White_Space\<close> property: six ASCII ones
  and the sequences of two and three bytes listed here.
\<close>

definition is_ws_seq :: "nat list \<Rightarrow> bool" where
  "is_ws_seq bs \<longleftrightarrow>
     (case bs of
        [a] \<Rightarrow> (9 \<le> a \<and> a \<le> 13) \<or> a = 32
      | [a, b] \<Rightarrow> a = 194 \<and> (b = 133 \<or> b = 160)
      | [a, b, c] \<Rightarrow>
          (a = 225 \<and> b = 154 \<and> c = 128)
          \<or> (a = 226 \<and> b = 128 \<and> ((128 \<le> c \<and> c \<le> 138) \<or> c = 168 \<or> c = 169 \<or> c = 175))
          \<or> (a = 226 \<and> b = 129 \<and> c = 159)
          \<or> (a = 227 \<and> b = 128 \<and> c = 128)
      | _ \<Rightarrow> False)"

definition ws_start :: "string \<Rightarrow> nat" where
  "ws_start s =
     (if is_ws_seq (map of_char (take 1 s)) then 1
      else if is_ws_seq (map of_char (take 2 s)) then 2
      else if is_ws_seq (map of_char (take 3 s)) then 3
      else 0)"

definition ws_end :: "string \<Rightarrow> nat" where
  "ws_end s =
     (if is_ws_seq (map of_char (drop (length s - 1) s)) then 1
      else if is_ws_seq (map of_char (drop (length s - 2) s)) then 2
      else if is_ws_seq (map of_char (drop (length s - 3) s)) then 3
      else 0)"

lemma is_ws_seq_Nil [simp]: "\<not> is_ws_seq []"
  by (simp add: is_ws_seq_def)

function trim_start :: "string \<Rightarrow> string" where
  "trim_start s = (if s = [] \<or> ws_start s = 0 then s else trim_start (drop (ws_start s) s))"
  by pat_completeness auto
termination
  by (relation "measure length") auto

function trim_end :: "string \<Rightarrow> string" where
  "trim_end s = (if s = [] \<or> ws_end s = 0 then s else trim_end (take (length s - ws_end s) s))"
  by pat_completeness auto
termination
  by (relation "measure length") auto

declare trim_start.simps [simp del] trim_end.simps [simp del]

definition trim :: "string \<Rightarrow> string" where
  "trim s = trim_end (trim_start s)"

lemma trim_start_clean: "trim_start s = [] \<or> ws_start (trim_start s) = 0"
  by (induction s rule: trim_start.induct) (subst (2) trim_start.simps, subst trim_start.simps, auto)

text \<open>Printable ASCII without the space has nothing to trim.\<close>

definition graphic :: "char \<Rightarrow> bool" where
  "graphic c \<longleftrightarrow> (33::nat) \<le> of_char c \<and> of_char c < (127::nat)"

lemma graphic_not_ws: "\<forall>c \<in> set s. graphic c \<Longrightarrow> \<not> is_ws_seq (map of_char s)"
  by (auto simp: is_ws_seq_def graphic_def split: list.splits)

lemma trim_graphic: "\<forall>c \<in> set s. graphic c \<Longrightarrow> trim s = s"
proof -
  assume g: "\<forall>c \<in> set s. graphic c"
  have "\<not> is_ws_seq (map of_char (take n s))" "\<not> is_ws_seq (map of_char (drop n s))" for n
    using g by (intro graphic_not_ws, meson in_set_takeD in_set_dropD)+
  then have "ws_start s = 0" "ws_end s = 0" by (simp_all only: ws_start_def ws_end_def if_False)
  then show ?thesis by (simp add: trim_def trim_start.simps trim_end.simps)
qed

text \<open>
  Lines: the complete ones, without their newline, and what follows the last newline. A
  carriage return before the newline is dropped; one at the end of an unterminated last
  line is kept.
\<close>

fun raw_lines :: "'a \<Rightarrow> 'a list \<Rightarrow> 'a list list \<times> 'a list" where
  "raw_lines nl [] = ([], [])"
| "raw_lines nl (x # xs) =
     (case raw_lines nl xs of (ls, r) \<Rightarrow>
        if x = nl then ([] # ls, r)
        else case ls of [] \<Rightarrow> ([], x # r) | l # ls' \<Rightarrow> ((x # l) # ls', r))"

definition strip_cr :: "'a \<Rightarrow> 'a list \<Rightarrow> 'a list" where
  "strip_cr cr l = (if l \<noteq> [] \<and> last l = cr then butlast l else l)"

definition newline :: char where
  "newline = char_of (10 :: nat)"

definition carriage_return :: char where
  "carriage_return = char_of (13 :: nat)"

definition str_lines :: "string \<Rightarrow> string list" where
  "str_lines s =
     (case raw_lines newline s of (ls, r) \<Rightarrow>
        map (strip_cr carriage_return) ls @ (if r = [] then [] else [r]))"

lemma raw_lines_join:
  "raw_lines nl xs = (ls, r) \<Longrightarrow> xs = concat (map (\<lambda>l. l @ [nl]) ls) @ r"
  by (induction xs arbitrary: ls r) (auto split: prod.splits if_splits list.splits)

section \<open>I/O errors, buffered lines, integers on the wire\<close>

text \<open>\<open>std::io::Error\<close>: its kind, the raw OS error code, and the text it displays.\<close>

datatype io_error_kind = UnexpectedEof | TimedOut | WouldBlock | InvalidData | OtherKind

datatype io_error =
  IoError (io_kind: io_error_kind) (raw_os_error: "int option") (io_display: string)

definition invalid_utf8_error :: io_error where
  "invalid_utf8_error = IoError InvalidData None ''stream did not contain valid UTF-8''"

text \<open>
  \<open>BufRead::lines\<close> collected into a \<open>Result\<close>: the first failure wins. A file is what can
  be read of it and the I/O error, if any, that reading on from there returns.
\<close>

definition buf_line :: "u8 list \<Rightarrow> io_error + string" where
  "buf_line l =
     (if utf8_check (l @ [10]) = None then Inr (str_of_bytes (strip_cr 13 l))
      else Inl invalid_utf8_error)"

fun collect_results :: "('e + 'a) list \<Rightarrow> 'e + 'a list" where
  "collect_results [] = Inr []"
| "collect_results (Inl e # rs) = Inl e"
| "collect_results (Inr x # rs) = and_then (collect_results rs) (\<lambda>xs. Inr (x # xs))"

definition buf_lines :: "u8 list \<Rightarrow> io_error option \<Rightarrow> (io_error + string) list" where
  "buf_lines bs rest =
     (case raw_lines 10 bs of (ls, r) \<Rightarrow>
        map buf_line ls
        @ (case rest of
             Some e \<Rightarrow> [Inl e]
           | None \<Rightarrow> if r = [] then []
                     else if utf8_check r = None then [Inr (str_of_bytes r)]
                     else [Inl invalid_utf8_error]))"

definition to_be_bytes :: "u32 \<Rightarrow> u8 list" where
  "to_be_bytes w =
     (let n = unat w in
      [word_of_nat (n div 2 ^ 24), word_of_nat (n div 2 ^ 16), word_of_nat (n div 2 ^ 8),
       word_of_nat n])"

definition from_be_bytes :: "u8 list \<Rightarrow> u32" where
  "from_be_bytes bs = word_of_nat (foldl (\<lambda>acc b. acc * 256 + unat b) 0 bs)"

lemma length_to_be_bytes [simp]: "length (to_be_bytes w) = 4"
  by (simp add: to_be_bytes_def Let_def)

lemma from_to_be_bytes [codec]: "from_be_bytes (to_be_bytes w) = w"
proof -
  define n where "n = unat w"
  have "n < 2 ^ LENGTH(32)" unfolding n_def by (rule unsigned_less)
  then have top: "n div 16777216 mod 256 = n div 16777216" by auto
  have chain: "n div 16777216 = n div 65536 div 256" "n div 65536 = n div 256 div 256"
    by (simp_all flip: div_mult2_eq)
  have "((n div 16777216 * 256 + n div 65536 mod 256) * 256 + n div 256 mod 256) * 256
      + n mod 256 = n"
    unfolding chain by (simp only: div_mult_mod_eq)
  then show ?thesis
    unfolding from_be_bytes_def to_be_bytes_def n_def [symmetric] Let_def
    by (simp add: unat_of_nat take_bit_eq_mod top) (simp add: n_def)
qed

definition saturating_sub :: "u64 \<Rightarrow> u64 \<Rightarrow> u64" where
  "saturating_sub a b = (if a \<le> b then 0 else a - b)"

lemma unat_saturating_sub: "unat (saturating_sub a b) = unat a - unat b"
  by (auto simp: saturating_sub_def word_le_nat_alt unat_sub_if_size)

section \<open>The clock and sockets\<close>

text \<open>
  \<open>SystemTime::now().duration_since(UNIX_EPOCH).unwrap().as_millis() as u64\<close>, with the
  clock as nanoseconds since the epoch: the \<open>unwrap\<close> panics on a clock before the epoch,
  the cast keeps the low 64 bits.
\<close>

definition unix_millis :: "int \<Rightarrow> u64 outcome" where
  "unix_millis now = (if now < 0 then Panic else Value (word_of_int (now div 1000000)))"

text \<open>
  IPv4 socket addresses, the datagrams passed to \<open>send_to\<close>, and the guard of both receive
  loops: the error is that of a read timeout.
\<close>

type_synonym socket_addr = "ipv4 \<times> u16"
type_synonym sent_datagrams = "(socket_addr \<times> u8 list) list"

definition is_timeout :: "io_error \<Rightarrow> bool" where
  "is_timeout e \<longleftrightarrow> io_kind e = TimedOut \<or> io_kind e = WouldBlock \<or> raw_os_error e = Some 35"

end
