(* ===== verification/Errors.thy ===== *)
theory Errors
  imports RustStd
begin

text \<open>
  The error types of \<open>server/src/errors.rs\<close> and \<open>client/src/errors.rs\<close>, with the messages
  their \<open>Display\<close> implementations print. The text of an error of the \<open>strum\<close> crate is a
  parameter, \<open>strum_display\<close>.
\<close>

section \<open>Error values\<close>

datatype strum_error = StrumVariantNotFound

datatype generator_error =
    GenIo io_error
  | TickerNotExists string

datatype parse_command_err =
    VariantNotFound strum_error
  | NotEnoughArguments
  | InvalidIpAddress addr_parse_error
  | InvalidPort
  | Utf8Error utf8_error
  | MsgToBig
  | UnknownCommand
  | ParseIo io_error

datatype processor_error =
    ProcIo io_error
  | ParseErr parse_command_err
  | GenErr generator_error
  | UnexpectedCommand

datatype worker_error =
    WorkerIo io_error
  | WorkerParseErr parse_command_err

section \<open>Messages\<close>

fun display_generator_error :: "generator_error \<Rightarrow> string" where
  "display_generator_error (GenIo e) = ''I/O error: '' @ io_display e"
| "display_generator_error (TickerNotExists t) = ''Ticker does not exist: '' @ t"

fun display_parse_command_err :: "(strum_error \<Rightarrow> string) \<Rightarrow> parse_command_err \<Rightarrow> string" where
  "display_parse_command_err strum_display (VariantNotFound e) =
     ''VariantNotFound: '' @ strum_display e"
| "display_parse_command_err strum_display NotEnoughArguments = ''Not enough arguments''"
| "display_parse_command_err strum_display (InvalidIpAddress e) =
     ''Invalid IP address: invalid IPv4 address syntax''"
| "display_parse_command_err strum_display InvalidPort = ''Invalid port number''"
| "display_parse_command_err strum_display (Utf8Error e) = ''Invalid encoding''"
| "display_parse_command_err strum_display MsgToBig = ''Message too big''"
| "display_parse_command_err strum_display UnknownCommand = ''Unknown command''"
| "display_parse_command_err strum_display (ParseIo e) = ''I/O error: '' @ io_display e"

fun display_processor_error :: "(strum_error \<Rightarrow> string) \<Rightarrow> processor_error \<Rightarrow> string" where
  "display_processor_error strum_display (ProcIo e) = ''I/O error: '' @ io_display e"
| "display_processor_error strum_display (ParseErr e) =
     ''Parsing error: '' @ display_parse_command_err strum_display e"
| "display_processor_error strum_display (GenErr e) =
     ''Generator error: '' @ display_generator_error e"
| "display_processor_error strum_display UnexpectedCommand = ''Unexpected command''"

fun display_worker_error :: "(strum_error \<Rightarrow> string) \<Rightarrow> worker_error \<Rightarrow> string" where
  "display_worker_error strum_display (WorkerIo e) = ''I/O error: '' @ io_display e"
| "display_worker_error strum_display (WorkerParseErr e) =
     ''Parsing error: '' @ display_parse_command_err strum_display e"

end
