(* ===== verification/Float64.thy ===== *)
theory Float64
  imports Prelude
begin

text \<open>
  Rust's \<open>f64\<close>: IEEE 754 binary64 values as their 64 bits, with the operations that the
  price walk of the quote generator uses. Every finite value is an integer multiple of
  \<open>2^-1074\<close>, so values are compared and combined as integers in that unit, and a result
  is the exact one rounded to nearest, ties to even. A NaN is always the canonical quiet
  one: the sign and payload that Rust leaves open are fixed here.
\<close>

section \<open>Representation\<close>

datatype f64 = F64 (f64_bits: u64)

definition inf_bits :: nat where
  "inf_bits = 2047 * 2 ^ 52"

definition sign_bit :: nat where
  "sign_bit = 2 ^ 63"

text \<open>The number of units in \<open>1.0\<close>.\<close>

definition f64_scale :: nat where
  "f64_scale = 2 ^ 1074"

definition f64_of :: "bool \<Rightarrow> nat \<Rightarrow> f64" where
  "f64_of neg k = F64 (word_of_nat (if neg then sign_bit + k else k))"

definition is_negative :: "f64 \<Rightarrow> bool" where
  "is_negative x \<longleftrightarrow> sign_bit \<le> unat (f64_bits x)"

definition mag_bits :: "f64 \<Rightarrow> nat" where
  "mag_bits x = unat (f64_bits x) mod sign_bit"

definition is_nan :: "f64 \<Rightarrow> bool" where
  "is_nan x \<longleftrightarrow> inf_bits < mag_bits x"

definition is_infinite :: "f64 \<Rightarrow> bool" where
  "is_infinite x \<longleftrightarrow> mag_bits x = inf_bits"

definition is_finite :: "f64 \<Rightarrow> bool" where
  "is_finite x \<longleftrightarrow> mag_bits x < inf_bits"

definition f64_nan :: f64 where
  "f64_nan = f64_of False (inf_bits + 2 ^ 51)"

text \<open>
  \<open>mag k\<close> is the magnitude with bits \<open>k\<close>, in those units: the fraction itself for
  a subnormal, the fraction with its hidden bit shifted by the exponent otherwise.
\<close>

definition mag :: "nat \<Rightarrow> nat" where
  "mag k =
     (if k div 2 ^ 52 = 0 then k else (2 ^ 52 + k mod 2 ^ 52) * 2 ^ (k div 2 ^ 52 - 1))"

definition f64_key :: "f64 \<Rightarrow> int" where
  "f64_key x = (if is_negative x then - int (mag (mag_bits x)) else int (mag (mag_bits x)))"

section \<open>Rounding\<close>

fun bitlen :: "nat \<Rightarrow> nat" where
  "bitlen n = (if n = 0 then 0 else Suc (bitlen (n div 2)))"

declare bitlen.simps [simp del]

definition round_div :: "nat \<Rightarrow> nat \<Rightarrow> nat" where
  "round_div n d =
     (let q = n div d; r = n mod d in
      if 2 * r < d \<or> (2 * r = d \<and> even q) then q else Suc q)"

definition round_mag :: "nat \<Rightarrow> nat \<Rightarrow> nat" where
  "round_mag n d =
     (let s = bitlen (n div d) - 53 in
      min inf_bits (s * 2 ^ 52 + round_div n (d * 2 ^ s)))"

lemma bitlen_le: "bitlen n \<le> b \<longleftrightarrow> n < 2 ^ b"
proof (induction n arbitrary: b rule: bitlen.induct)
  case (1 n)
  show ?case
  proof (cases "n = 0")
    case True
    then show ?thesis by (simp add: bitlen.simps)
  next
    case False
    show ?thesis
    proof (cases b)
      case 0
      with False show ?thesis by (simp add: bitlen.simps [of n])
    next
      case (Suc b')
      have "bitlen n \<le> b \<longleftrightarrow> bitlen (n div 2) \<le> b'"
        using False Suc by (simp add: bitlen.simps [of n])
      also have "\<dots> \<longleftrightarrow> n div 2 < 2 ^ b'" using False by (rule "1.IH")
      also have "\<dots> \<longleftrightarrow> n < 2 ^ b" unfolding Suc by auto
      finally show ?thesis .
    qed
  qed
qed

lemma bitlen_mono: "m \<le> n \<Longrightarrow> bitlen m \<le> bitlen n"
  using bitlen_le [of n "bitlen n"] by (simp add: bitlen_le)

lemma round_div_bounds:
  assumes "0 < d"
  shows "2 * round_div n d * d \<le> 2 * n + d" and "2 * n \<le> 2 * round_div n d * d + d"
    and "2 * round_div n d * d = 2 * n + d \<Longrightarrow> even (round_div n d)"
    and "2 * n = 2 * round_div n d * d + d \<Longrightarrow> even (round_div n d)"
proof -
  define q r m where "q = n div d" and "r = n mod d" and "m = round_div n d"
  have n: "n = q * d + r" and r: "r < d"
    using assms by (simp_all add: q_def r_def)
  have m: "m = (if 2 * r < d \<or> (2 * r = d \<and> even q) then q else Suc q)"
    by (simp add: m_def round_div_def q_def r_def Let_def)
  show "2 * round_div n d * d \<le> 2 * n + d" "2 * n \<le> 2 * round_div n d * d + d"
    unfolding m_def [symmetric] using r by (auto simp: m n algebra_simps)
  show "2 * round_div n d * d = 2 * n + d \<Longrightarrow> even (round_div n d)"
    "2 * n = 2 * round_div n d * d + d \<Longrightarrow> even (round_div n d)"
    unfolding m_def [symmetric] using r by (auto simp: m n algebra_simps split: if_splits)
qed

lemma round_div_mono:
  assumes d: "0 < d" "0 < d'" and le: "n * d' \<le> n' * d"
  shows "round_div n d \<le> round_div n' d'"
proof (rule ccontr)
  define a b where "a = round_div n d" and "b = round_div n' d'"
  assume "\<not> round_div n d \<le> round_div n' d'"
  then have ab: "Suc b \<le> a" by (simp add: a_def b_def)
  have A: "2 * a * d \<le> 2 * n + d" and B: "2 * n' \<le> 2 * b * d' + d'"
    unfolding a_def b_def using round_div_bounds d by blast+
  have 1: "2 * a * d * d' \<le> (2 * n + d) * d'" using A by simp
  have 2: "(2 * n + d) * d' \<le> (2 * n' + d') * d" using le by (simp add: algebra_simps)
  have 3: "(2 * n' + d') * d \<le> (2 * b * d' + 2 * d') * d" using B by simp
  have 4: "(2 * b * d' + 2 * d') * d = 2 * Suc b * d * d'" by (simp add: algebra_simps)
  from 1 2 3 4 have "2 * a * d * d' \<le> 2 * Suc b * d * d'" by linarith
  then have "2 * a \<le> 2 * Suc b" using d by (metis mult_le_cancel2)
  with ab have eq: "a = Suc b" by simp
  have "2 * a * d * d' = (2 * n + d) * d'" and "(2 * n' + d') * d = (2 * b * d' + 2 * d') * d"
    using 1 2 3 4 unfolding eq by linarith+
  with d have "2 * a * d = 2 * n + d" and "2 * n' = 2 * b * d' + d'" by auto
  then have "even a" and "even b"
    unfolding a_def b_def using round_div_bounds d by blast+
  with eq show False by simp
qed

lemma round_div_exact: "0 < d \<Longrightarrow> round_div (q * d) d = q"
  by (simp add: round_div_def)

lemma round_div_ge: "0 < d \<Longrightarrow> q * d \<le> n \<Longrightarrow> q \<le> round_div n d"
  using round_div_mono [of d d "q * d" n] by (simp add: round_div_exact)

lemma round_div_le: "0 < d \<Longrightarrow> n \<le> q * d \<Longrightarrow> round_div n d \<le> q"
  using round_div_mono [of d d n "q * d"] by (simp add: round_div_exact)

text \<open>The significand that \<open>round_mag\<close> adds to the shifted exponent lies in \<open>[2^52, 2^53]\<close>.\<close>

lemma round_mag_significand:
  assumes d: "0 < d" and s: "s = bitlen (n div d) - 53"
  shows "round_div n (d * 2 ^ s) \<le> 2 ^ 53"
    and "0 < s \<Longrightarrow> 2 ^ 52 \<le> round_div n (d * 2 ^ s)"
proof -
  have pos: "0 < d * 2 ^ s" using d by simp
  have "bitlen (n div d) \<le> 53 + s" using s by simp
  then have "n div d < 2 ^ (53 + s)" by (simp only: bitlen_le)
  then have "n < 2 ^ 53 * (d * 2 ^ s)"
    using d by (simp add: less_mult_imp_div_less div_less_iff_less_mult power_add mult.commute mult.left_commute)
  then show "round_div n (d * 2 ^ s) \<le> 2 ^ 53"
    using round_div_le [OF pos] by simp
  assume "0 < s"
  then have "\<not> bitlen (n div d) \<le> 52 + s" using s by simp
  then have "2 ^ (52 + s) \<le> n div d" by (simp only: bitlen_le not_less)
  then have "2 ^ (52 + s) * d \<le> n" using d by (simp add: less_eq_div_iff_mult_less_eq)
  then have "2 ^ 52 * (d * 2 ^ s) \<le> n" by (simp add: power_add mult.commute mult.left_commute)
  then show "2 ^ 52 \<le> round_div n (d * 2 ^ s)"
    by (rule round_div_ge [OF pos])
qed

lemma round_mag_mono:
  assumes d: "0 < d" "0 < d'" and le: "n * d' \<le> n' * d"
  shows "round_mag n d \<le> round_mag n' d'"
proof -
  define s s' where "s = bitlen (n div d) - 53" and "s' = bitlen (n' div d') - 53"
  have "n div d * d' \<le> n'"
  proof -
    have "n div d * d * d' \<le> n * d'" by (rule mult_right_mono) simp_all
    also note le
    finally have "(n div d * d') * d \<le> n' * d" by (simp only: ac_simps)
    with d show ?thesis by (metis mult_le_cancel2)
  qed
  then have "n div d \<le> n' div d'" using d by (simp add: less_eq_div_iff_mult_less_eq)
  then have ss: "s \<le> s'" unfolding s_def s'_def by (intro diff_le_mono bitlen_mono)
  have "s * 2 ^ 52 + round_div n (d * 2 ^ s) \<le> s' * 2 ^ 52 + round_div n' (d' * 2 ^ s')"
  proof (cases "s = s'")
    case True
    have "round_div n (d * 2 ^ s) \<le> round_div n' (d' * 2 ^ s)"
      using d le by (intro round_div_mono) simp_all
    with True show ?thesis by simp
  next
    case False
    with ss have lt: "s + 1 \<le> s'" by simp
    have 1: "round_div n (d * 2 ^ s) \<le> 2 ^ 53" using d(1) s_def by (rule round_mag_significand)
    have 2: "2 ^ 52 \<le> round_div n' (d' * 2 ^ s')"
      using d(2) s'_def lt by (intro round_mag_significand) simp_all
    have "(s + 1) * 2 ^ 52 \<le> s' * 2 ^ 52" using lt by (rule mult_right_mono) simp
    with 1 2 show ?thesis by simp
  qed
  then show ?thesis
    by (auto simp: round_mag_def s_def s'_def Let_def)
qed

lemma round_mag_exact:
  assumes c: "0 < c" and k: "k \<le> inf_bits"
  shows "round_mag (mag k * c) c = k"
proof (cases "k div 2 ^ 52 = 0")
  case True
  then have "k < 2 ^ 53" by (simp add: div_eq_0_iff)
  then have "bitlen k \<le> 53" by (simp only: bitlen_le)
  with True c k show ?thesis
    by (simp add: round_mag_def mag_def round_div_exact)
next
  case False
  define e m where "e = k div 2 ^ 52 - 1" and "m = 2 ^ 52 + k mod 2 ^ 52"
  have mag: "mag k = m * 2 ^ e" using False by (simp add: mag_def e_def m_def)
  have m: "2 ^ 52 \<le> m" "m < 2 ^ 53" by (simp_all add: m_def)
  have "bitlen (mag k) = 53 + e"
  proof (rule antisym)
    show "bitlen (mag k) \<le> 53 + e"
      using m(2) by (simp add: bitlen_le mag power_add)
    have "2 ^ (52 + e) \<le> mag k"
      using m(1) by (simp add: mag power_add)
    then have "\<not> bitlen (mag k) \<le> 52 + e" by (simp add: bitlen_le)
    then show "53 + e \<le> bitlen (mag k)" by simp
  qed
  moreover have "round_div (mag k * c) (c * 2 ^ e) = m"
    using c round_div_exact [of "c * 2 ^ e" m] by (simp add: mag mult.commute mult.left_commute)
  moreover have "e * 2 ^ 52 + m = k"
  proof -
    have "e * 2 ^ 52 + 2 ^ 52 = k div 2 ^ 52 * 2 ^ 52"
      using False unfolding e_def by (cases "k div 2 ^ 52") simp_all
    then show ?thesis unfolding m_def using div_mult_mod_eq [of k "2 ^ 52"] by linarith
  qed
  ultimately show ?thesis using c k by (simp add: round_mag_def)
qed

lemma round_mag_le_inf [simp]: "round_mag n d \<le> inf_bits"
  by (simp add: round_mag_def Let_def)

lemma mag_le_iff:
  assumes "k \<le> inf_bits" "l \<le> inf_bits"
  shows "mag k \<le> mag l \<longleftrightarrow> k \<le> l"
proof
  assume "mag k \<le> mag l"
  then have "round_mag (mag k * 1) 1 \<le> round_mag (mag l * 1) 1"
    by (intro round_mag_mono) simp_all
  with assms show "k \<le> l" by (simp only: round_mag_exact zero_less_one)
next
  assume kl: "k \<le> l"
  show "mag k \<le> mag l"
  proof (rule ccontr)
    assume gt: "\<not> mag k \<le> mag l"
    then have "round_mag (mag l * 1) 1 \<le> round_mag (mag k * 1) 1"
      by (intro round_mag_mono) simp_all
    with assms have "l \<le> k" by (simp only: round_mag_exact zero_less_one)
    with kl gt show False by simp
  qed
qed

section \<open>Operations\<close>

instantiation f64 :: "{zero, one, uminus, plus, minus, times, ord}"
begin

definition zero_f64 :: f64 where
  "zero_f64 = f64_of False 0"

definition one_f64 :: f64 where
  "one_f64 = F64 0x3FF0000000000000"

definition uminus_f64 :: "f64 \<Rightarrow> f64" where
  "uminus_f64 a = f64_of (\<not> is_negative a) (mag_bits a)"

definition plus_f64 :: "f64 \<Rightarrow> f64 \<Rightarrow> f64" where
  "plus_f64 a b =
     (if is_nan a \<or> is_nan b then f64_nan
      else if is_infinite a then
        (if is_infinite b \<and> is_negative a \<noteq> is_negative b then f64_nan else a)
      else if is_infinite b then b
      else let v = f64_key a + f64_key b in
        if v = 0 then f64_of (is_negative a \<and> is_negative b) 0
        else f64_of (v < 0) (round_mag (nat \<bar>v\<bar>) 1))"

definition minus_f64 :: "f64 \<Rightarrow> f64 \<Rightarrow> f64" where
  "minus_f64 a b = a + - b"

definition times_f64 :: "f64 \<Rightarrow> f64 \<Rightarrow> f64" where
  "times_f64 a b =
     (let neg = is_negative a \<noteq> is_negative b in
      if is_nan a \<or> is_nan b then f64_nan
      else if (is_infinite a \<and> mag_bits b = 0) \<or> (mag_bits a = 0 \<and> is_infinite b) then f64_nan
      else if is_infinite a \<or> is_infinite b then f64_of neg inf_bits
      else f64_of neg (round_mag (mag (mag_bits a) * mag (mag_bits b)) f64_scale))"

definition less_eq_f64 :: "f64 \<Rightarrow> f64 \<Rightarrow> bool" where
  "less_eq_f64 a b \<longleftrightarrow> \<not> is_nan a \<and> \<not> is_nan b \<and> f64_key a \<le> f64_key b"

definition less_f64 :: "f64 \<Rightarrow> f64 \<Rightarrow> bool" where
  "less_f64 a b \<longleftrightarrow> \<not> is_nan a \<and> \<not> is_nan b \<and> f64_key a < f64_key b"

instance ..

end

text \<open>\<open>f64::max\<close>: a NaN argument is ignored.\<close>

definition f64_max :: "f64 \<Rightarrow> f64 \<Rightarrow> f64" where
  "f64_max a b =
     (if is_nan a then b else if is_nan b then a else if f64_key a < f64_key b then b else a)"

text \<open>The value of the decimal literal \<open>p / q\<close>: the nearest \<open>f64\<close>.\<close>

definition f64_lit :: "nat \<Rightarrow> nat \<Rightarrow> f64" where
  "f64_lit p q = f64_of False (round_mag (p * f64_scale) q)"

lemma inf_bits_less: "inf_bits < sign_bit"
  by (simp add: inf_bits_def sign_bit_def)

lemma sign_bit_pos [simp]: "0 < sign_bit"
  by (simp add: sign_bit_def)

lemma f64_of_facts [simp]:
  assumes "k < sign_bit"
  shows "mag_bits (f64_of neg k) = k" and "is_negative (f64_of neg k) = neg"
proof -
  have "(if neg then sign_bit + k else k) < 2 ^ LENGTH(64)"
    using assms by (simp add: sign_bit_def)
  then have "unat (f64_bits (f64_of neg k)) = (if neg then sign_bit + k else k)"
    by (simp only: f64_of_def f64.sel unat_word_of_nat_small)
  with assms show "mag_bits (f64_of neg k) = k" "is_negative (f64_of neg k) = neg"
    by (simp_all add: mag_bits_def is_negative_def)
qed

lemma mag_bits_less: "mag_bits x < sign_bit"
  by (simp add: mag_bits_def sign_bit_def)

lemma f64_of_bits: "f64_of (is_negative x) (mag_bits x) = x"
proof (cases x)
  case (F64 w)
  have "unat w < 2 ^ LENGTH(64)" by (rule unsigned_less)
  then have "unat w < sign_bit + sign_bit" by (simp add: sign_bit_def)
  then have "(if sign_bit \<le> unat w then sign_bit + unat w mod sign_bit else unat w mod sign_bit) = unat w"
    by (auto simp: mod_if)
  then show ?thesis
    by (simp add: f64_of_def F64 is_negative_def mag_bits_def)
qed

lemma round_mag_less [simp]: "round_mag n d < sign_bit"
  using round_mag_le_inf inf_bits_less by (rule le_less_trans)

text \<open>
  The signed rounding of an integer number of units, as a key: it is monotone, and it does
  not move a value that is already a float.
\<close>

definition key_round :: "int \<Rightarrow> int" where
  "key_round v = sgn v * int (mag (round_mag (nat \<bar>v\<bar>) 1))"

lemma mag_0 [simp]: "mag 0 = 0"
  by (simp add: mag_def)

lemma round_mag_0: "round_mag 0 d = 0"
  by (cases "d = 0") (simp_all add: round_mag_def round_div_def bitlen.simps)

lemma key_round_mono: "v \<le> w \<Longrightarrow> key_round v \<le> key_round w"
proof -
  assume vw: "v \<le> w"
  have m: "m \<le> n \<Longrightarrow> mag (round_mag m 1) \<le> mag (round_mag n 1)" for m n
    using round_mag_mono [of 1 1 m n] by (simp add: mag_le_iff round_mag_le_inf)
  consider "0 < v" | "v \<le> 0" "0 \<le> w" | "w < 0" by linarith
  then show ?thesis
  proof cases
    case 1
    with vw m [of "nat v" "nat w"] show ?thesis by (simp add: key_round_def)
  next
    case 2
    have "key_round v \<le> 0" "0 \<le> key_round w"
      using 2 by (auto simp: key_round_def sgn_if)
    then show ?thesis by simp
  next
    case 3
    with vw m [of "nat (- w)" "nat (- v)"] show ?thesis by (simp add: key_round_def)
  qed
qed

lemma key_plus:
  assumes "is_finite a" "is_finite b"
  shows "\<not> is_nan (a + b)" and "f64_key (a + b) = key_round (f64_key a + f64_key b)"
proof -
  have fin: "\<not> is_nan a" "\<not> is_nan b" "\<not> is_infinite a" "\<not> is_infinite b"
    using assms by (auto simp: is_finite_def is_nan_def is_infinite_def)
  show "\<not> is_nan (a + b)"
    using fin round_mag_le_inf
    by (auto simp: plus_f64_def Let_def is_nan_def round_mag_less not_less)
  show "f64_key (a + b) = key_round (f64_key a + f64_key b)"
    using fin
    by (auto simp: plus_f64_def Let_def f64_key_def [of "f64_of _ _"] round_mag_less key_round_def)
qed

lemma key_times:
  assumes "is_finite a" "is_finite b"
  shows "\<not> is_nan (a * b)" and
    "mag_bits (a * b) = round_mag (mag (mag_bits a) * mag (mag_bits b)) f64_scale" and
    "is_negative (a * b) = (is_negative a \<noteq> is_negative b)"
proof -
  have fin: "\<not> is_nan a" "\<not> is_nan b" "\<not> is_infinite a" "\<not> is_infinite b"
    using assms by (auto simp: is_finite_def is_nan_def is_infinite_def)
  have eq: "a * b = f64_of (is_negative a \<noteq> is_negative b)
      (round_mag (mag (mag_bits a) * mag (mag_bits b)) f64_scale)"
    using fin by (simp add: times_f64_def Let_def)
  show "\<not> is_nan (a * b)"
    unfolding is_nan_def eq using round_mag_le_inf by (simp add: round_mag_less not_less)
  show "mag_bits (a * b) = round_mag (mag (mag_bits a) * mag (mag_bits b)) f64_scale"
    "is_negative (a * b) = (is_negative a \<noteq> is_negative b)"
    unfolding eq by (simp_all add: round_mag_less)
qed

section \<open>Order of results\<close>

lemma f64_key_nonneg: "\<not> is_negative a \<Longrightarrow> f64_key a = int (mag (mag_bits a))"
  by (simp add: f64_key_def)

lemma finite_not_nan: "is_finite a \<Longrightarrow> \<not> is_nan a"
  by (simp add: is_finite_def is_nan_def)

lemma mag_inf_le: "mag_bits a \<le> inf_bits \<Longrightarrow> mag (mag_bits a) \<le> mag inf_bits"
  by (simp add: mag_le_iff)

text \<open>Addition and multiplication of finite values are monotone, rounding included.\<close>

lemma plus_mono:
  assumes "is_finite a" "is_finite b" "is_finite c" "b \<le> c"
  shows "a + b \<le> a + c"
  using assms key_round_mono [of "f64_key a + f64_key b" "f64_key a + f64_key c"]
  by (simp add: less_eq_f64_def key_plus)

lemma times_mono:
  assumes "is_finite a" "is_finite b" "is_finite c" "\<not> is_negative a" "\<not> is_negative b" "b \<le> c"
  shows "a * b \<le> a * c"
proof -
  have bc: "f64_key b \<le> f64_key c" using assms(6) by (simp add: less_eq_f64_def)
  have keyb: "f64_key b = int (mag (mag_bits b))" using assms(5) by (rule f64_key_nonneg)
  have fin: "mag_bits b \<le> inf_bits" "mag_bits c \<le> inf_bits"
    using assms by (simp_all add: is_finite_def)
  show ?thesis
  proof (cases "is_negative c")
    case True
    with bc keyb have "mag (mag_bits b) = 0" "mag (mag_bits c) = 0"
      by (auto simp: f64_key_def)
    with assms show ?thesis
      by (simp add: less_eq_f64_def key_times f64_key_def round_mag_0)
  next
    case False
    with bc keyb have "mag (mag_bits b) \<le> mag (mag_bits c)"
      by (simp add: f64_key_nonneg)
    then have "round_mag (mag (mag_bits a) * mag (mag_bits b)) f64_scale
        \<le> round_mag (mag (mag_bits a) * mag (mag_bits c)) f64_scale"
      by (intro round_mag_mono) (simp_all add: f64_scale_def)
    with assms False show ?thesis
      by (simp add: less_eq_f64_def key_times f64_key_def mag_le_iff)
  qed
qed

lemma f64_max_ge: "\<not> is_nan b \<Longrightarrow> b \<le> f64_max a b"
  by (auto simp: f64_max_def less_eq_f64_def)

lemma f64_max_ge_left: "\<not> is_nan a \<Longrightarrow> a \<le> f64_max a b"
  by (auto simp: f64_max_def less_eq_f64_def)

lemma f64_max_le: "a \<le> c \<Longrightarrow> b \<le> c \<Longrightarrow> f64_max a b \<le> c"
  by (auto simp: f64_max_def less_eq_f64_def)

lemma f64_le_trans: "a \<le> b \<Longrightarrow> b \<le> c \<Longrightarrow> a \<le> (c :: f64)"
  by (auto simp: less_eq_f64_def)

lemma bitlen_eqI: "n < 2 ^ b \<Longrightarrow> 2 ^ b \<le> 2 * n \<Longrightarrow> bitlen n = b"
proof (rule antisym)
  assume n: "n < 2 ^ b" "2 ^ b \<le> 2 * n"
  then show "bitlen n \<le> b" by (simp add: bitlen_le)
  show "b \<le> bitlen n"
  proof (cases b)
    case (Suc b')
    with n(2) have "\<not> bitlen n \<le> b'" by (simp add: bitlen_le)
    with Suc show ?thesis by simp
  qed simp
qed

section \<open>Evaluating literals\<close>

text \<open>A rounding is checked with multiplications only, given the exponent and significand.\<close>

lemma round_mag_eqI:
  assumes d: "0 < d" and lo: "2 ^ (52 + s) * d \<le> n" and hi: "n < 2 ^ (53 + s) * d"
    and m: "2 * n < (2 * m + 1) * (d * 2 ^ s)" "2 * m * (d * 2 ^ s) < 2 * n + d * 2 ^ s"
    and k: "k = s * 2 ^ 52 + m" "k \<le> inf_bits"
  shows "round_mag n d = k"
proof -
  have "bitlen (n div d) = 53 + s"
  proof (rule antisym)
    show "bitlen (n div d) \<le> 53 + s"
      using d hi by (simp add: bitlen_le div_less_iff_less_mult)
    have "\<not> bitlen (n div d) \<le> 52 + s"
      using d lo by (simp add: bitlen_le less_eq_div_iff_mult_less_eq not_less)
    then show "53 + s \<le> bitlen (n div d)" by simp
  qed
  moreover have "round_div n (d * 2 ^ s) = m"
  proof -
    have pos: "0 < d * 2 ^ s" using d by simp
    define r where "r = round_div n (d * 2 ^ s)"
    have r: "2 * r * (d * 2 ^ s) \<le> 2 * n + d * 2 ^ s" "2 * n \<le> 2 * r * (d * 2 ^ s) + d * 2 ^ s"
      using round_div_bounds [OF pos, of n] by (simp_all add: r_def)
    from r(1) m(1) have "2 * r * (d * 2 ^ s) < (2 * m + 2) * (d * 2 ^ s)" by (simp add: algebra_simps)
    then have "r \<le> m" by (simp only: mult_less_cancel2) simp
    moreover from r(2) m(2) have "2 * m * (d * 2 ^ s) < (2 * r + 2) * (d * 2 ^ s)" by (simp add: algebra_simps)
    then have "m \<le> r" by (simp only: mult_less_cancel2) simp
    ultimately show ?thesis by (simp add: r_def)
  qed
  ultimately show ?thesis using k by (simp add: round_mag_def)
qed

lemma f64_between_finite:
  assumes "a \<le> x" "x \<le> b" "is_finite a" "is_finite b"
  shows "is_finite x"
proof -
  have nan: "mag_bits x \<le> inf_bits"
    using assms(1) by (simp add: less_eq_f64_def is_nan_def)
  have key: "f64_key a \<le> f64_key x" "f64_key x \<le> f64_key b"
    using assms by (simp_all add: less_eq_f64_def)
  then have "mag (mag_bits x) \<le> max (mag (mag_bits a)) (mag (mag_bits b))"
    by (auto simp: f64_key_def split: if_splits)
  then have "mag (mag_bits x) \<le> mag (mag_bits a) \<or> mag (mag_bits x) \<le> mag (mag_bits b)"
    by (simp add: le_max_iff_disj)
  with nan assms(3,4) show ?thesis
    by (auto simp: is_finite_def mag_le_iff)
qed

lemma f64_key_pos: "0 < f64_key a \<Longrightarrow> \<not> is_negative a"
  by (auto simp: f64_key_def)

lemma uminus_facts [simp]:
  "mag_bits (- a) = mag_bits a" "is_negative (- a) = (\<not> is_negative a)" for a :: f64
  by (simp_all add: uminus_f64_def mag_bits_less)

lemma uminus_finite [simp]: "is_finite (- a) = is_finite a" for a :: f64
  by (simp add: is_finite_def)

lemma uminus_key [simp]: "f64_key (- a) = - f64_key a" for a :: f64
  by (simp add: f64_key_def)

lemma plus_finite:
  assumes "is_finite a" "is_finite b" "f64_key a + f64_key b \<noteq> 0"
  shows "a + b = f64_of (f64_key a + f64_key b < 0) (round_mag (nat \<bar>f64_key a + f64_key b\<bar>) 1)"
  using assms by (simp add: plus_f64_def Let_def is_finite_def is_nan_def is_infinite_def)

lemma F64_facts:
  "unat w < sign_bit \<Longrightarrow> mag_bits (F64 w) = unat w"
  "unat w < sign_bit \<Longrightarrow> \<not> is_negative (F64 w)"
  by (simp_all add: mag_bits_def is_negative_def sign_bit_def)

lemma f64_one: "is_finite 1" "\<not> is_negative 1" "mag_bits 1 = 0x3FF0000000000000" "mag (mag_bits 1) = f64_scale"
  by (simp_all add: is_finite_def F64_facts sign_bit_def inf_bits_def one_f64_def mag_def f64_scale_def)

lemma times_one: "is_finite a \<Longrightarrow> a * 1 = a" for a :: f64
proof -
  assume a: "is_finite a"
  have "round_mag (mag (mag_bits a) * f64_scale) f64_scale = mag_bits a"
    using a by (intro round_mag_exact) (simp_all add: f64_scale_def is_finite_def)
  with a have "a * 1 = f64_of (is_negative a) (mag_bits a)"
    using f64_one key_times [OF a f64_one(1)] f64_of_bits [of "a * 1"] by simp
  then show ?thesis by (simp add: f64_of_bits)
qed

lemma f64_lit_eqI:
  "round_mag (p * f64_scale) q = k \<Longrightarrow> f64_lit p q = F64 (word_of_nat k)"
  by (simp add: f64_lit_def f64_of_def)

lemma plus_pos:
  assumes "is_finite a" "is_finite b" "f64_key a + f64_key b = int k" "0 < k"
  shows "a + b = f64_of False (round_mag k 1)"
  using plus_finite [OF assms(1,2)] assms(3,4) by simp

end
