(* ===== verification/F64Text.thy ===== *)
theory F64Text
  imports RustStd Float64
begin

text \<open>
  The decimal text of an \<open>f64\<close>: \<open>Display\<close>, which prints the shortest digits that read
  back as the value, without an exponent, and \<open>FromStr\<close>, which rounds a decimal number
  correctly. A finite value is an integer multiple of \<open>10 ^ -1074\<close>, so both work on
  natural numbers in that unit.
\<close>

section \<open>Printing\<close>

text \<open>
  \<open>dec_bits a\<close> are the bits of the value nearest to \<open>a\<close> units. \<open>nearest_digits k a j\<close>
  looks at the two multiples of \<open>10 ^ j\<close> around \<open>a\<close>, the exact value of the bits \<open>k\<close>, and
  takes the one that reads back as \<open>k\<close>, the nearer one if both do (the upper one in the
  middle); \<open>shortest_digits\<close> takes the highest \<open>j\<close> that has one.
\<close>

definition dec_places :: nat where
  "dec_places = 1074"

definition dec_scale :: nat where
  "dec_scale = 5 ^ dec_places"

definition dec_bits :: "nat \<Rightarrow> nat" where
  "dec_bits a = round_mag a dec_scale"

definition nearest_digits :: "nat \<Rightarrow> nat \<Rightarrow> nat \<Rightarrow> nat option" where
  "nearest_digits k a j =
     (let lo = a div 10 ^ j; hi = Suc lo;
          down = (dec_bits (lo * 10 ^ j) = k); up = (dec_bits (hi * 10 ^ j) = k) in
      if down \<and> up then Some (if 2 * (a mod 10 ^ j) < 10 ^ j then lo else hi)
      else if down then Some lo
      else if up then Some hi
      else None)"

fun shortest_from :: "nat \<Rightarrow> nat \<Rightarrow> nat \<Rightarrow> nat \<times> nat" where
  "shortest_from k a 0 = (a, 0)"
| "shortest_from k a (Suc j) =
     (case nearest_digits k a (Suc j) of Some d \<Rightarrow> (d, Suc j) | None \<Rightarrow> shortest_from k a j)"

definition shortest_digits :: "nat \<Rightarrow> nat \<times> nat" where
  "shortest_digits k = (let a = mag k * dec_scale in shortest_from k a (length (show_nat a)))"

text \<open>The digits \<open>s\<close> times \<open>10 ^ j\<close> units, written out with a decimal point where needed.\<close>

definition show_digits :: "string \<Rightarrow> nat \<Rightarrow> string" where
  "show_digits s j =
     (if dec_places \<le> j then s @ replicate (j - dec_places) (CHR ''0'')
      else if dec_places - j < length s then
        take (length s - (dec_places - j)) s @ ''.'' @ drop (length s - (dec_places - j)) s
      else ''0.'' @ replicate (dec_places - j - length s) (CHR ''0'') @ s)"

definition display_f64 :: "f64 \<Rightarrow> string" where
  "display_f64 x =
     (if is_nan x then ''NaN''
      else (if is_negative x then ''-'' else '''')
        @ (if is_infinite x then ''inf''
           else if mag_bits x = 0 then ''0''
           else case shortest_digits (mag_bits x) of (d, j) \<Rightarrow> show_digits (show_nat d) j))"

section \<open>Parsing\<close>

text \<open>
  A sign, then \<open>nan\<close>, \<open>inf\<close> or \<open>infinity\<close> in any case, or digits with at most one point and
  an optional exponent. Digits of an exponent are dropped once it has passed 65535.
\<close>

definition digits_value :: "string \<Rightarrow> nat" where
  "digits_value s = foldl (\<lambda>n c. 10 * n + digit_val c) 0 s"

definition exponent_value :: "string \<Rightarrow> nat" where
  "exponent_value s = foldl (\<lambda>n c. if n < 65536 then 10 * n + digit_val c else n) 0 s"

definition parse_exponent :: "string \<Rightarrow> int option" where
  "parse_exponent s =
     (case s of
        [] \<Rightarrow> Some 0
      | c # cs \<Rightarrow>
          if c = CHR ''e'' \<or> c = CHR ''E'' then
            let negative = (cs \<noteq> [] \<and> hd cs = CHR ''-'');
                ds = (if cs \<noteq> [] \<and> (hd cs = CHR ''-'' \<or> hd cs = CHR ''+'') then tl cs else cs) in
            if ds = [] \<or> \<not> list_all is_digit ds then None
            else Some (if negative then - int (exponent_value ds) else int (exponent_value ds))
          else None)"

definition parse_number :: "string \<Rightarrow> (nat \<times> int) option" where
  "parse_number s =
     (let whole = takeWhile is_digit s;
          rest = dropWhile is_digit s;
          dot = (rest \<noteq> [] \<and> hd rest = CHR ''.'');
          frac = (if dot then takeWhile is_digit (tl rest) else []);
          rest' = (if dot then dropWhile is_digit (tl rest) else rest) in
      if whole @ frac = [] then None
      else map_option (\<lambda>e. (digits_value (whole @ frac), e - int (length frac))) (parse_exponent rest'))"

definition decimal_bits :: "nat \<Rightarrow> int \<Rightarrow> nat" where
  "decimal_bits m e =
     (if 0 \<le> e then round_mag (m * 10 ^ nat e * f64_scale) 1
      else round_mag (m * f64_scale) (10 ^ nat (- e)))"

definition parse_inf_nan :: "bool \<Rightarrow> string \<Rightarrow> f64 option" where
  "parse_inf_nan neg s =
     (if eq_ignore_ascii_case s ''nan'' then Some f64_nan
      else if eq_ignore_ascii_case s ''inf'' \<or> eq_ignore_ascii_case s ''infinity''
      then Some (f64_of neg inf_bits)
      else None)"

definition parse_f64 :: "string \<Rightarrow> f64 option" where
  "parse_f64 s =
     (case s of
        [] \<Rightarrow> None
      | c # cs \<Rightarrow>
          let neg = (c = CHR ''-'');
              r = (if c = CHR ''-'' \<or> c = CHR ''+'' then cs else s) in
          if r = [] then None
          else
            (case parse_number r of
               Some (m, e) \<Rightarrow> Some (f64_of neg (decimal_bits m e))
             | None \<Rightarrow> parse_inf_nan neg r))"

section \<open>What is printed reads back\<close>

lemma dec_scale_pos [simp]: "0 < dec_scale"
  by (simp add: dec_scale_def)

lemma dec_bits_mono: "a \<le> b \<Longrightarrow> dec_bits a \<le> dec_bits b"
  by (simp add: dec_bits_def round_mag_mono)

lemma dec_bits_exact: "k \<le> inf_bits \<Longrightarrow> dec_bits (mag k * dec_scale) = k"
  by (simp add: dec_bits_def round_mag_exact)

lemma round_mag_cong: "0 < d \<Longrightarrow> 0 < d' \<Longrightarrow> n * d' = n' * d \<Longrightarrow> round_mag n d = round_mag n' d'"
  by (intro antisym round_mag_mono) simp_all

lemma nearest_digits_rounds: "nearest_digits k a j = Some d \<Longrightarrow> dec_bits (d * 10 ^ j) = k"
  by (auto simp: nearest_digits_def Let_def split: if_splits)

text \<open>A multiple of \<open>10 ^ j\<close> that reads back is beyond one of the two candidates.\<close>

lemma multiple_candidate:
  assumes "dec_bits (c * 10 ^ j) = k" "dec_bits a = k"
  obtains (down) "c * 10 ^ j \<le> a div 10 ^ j * 10 ^ j" "dec_bits (a div 10 ^ j * 10 ^ j) = k"
  | (up) "Suc (a div 10 ^ j) * 10 ^ j \<le> c * 10 ^ j" "dec_bits (Suc (a div 10 ^ j) * 10 ^ j) = k"
proof -
  let ?lo = "a div 10 ^ j"
  have lo: "?lo * 10 ^ j \<le> a" and hi: "a \<le> Suc ?lo * 10 ^ j"
    by (simp_all add: dividend_less_times_div less_imp_le mult.commute)
  consider "c \<le> ?lo" | "Suc ?lo \<le> c" by linarith
  then show thesis
  proof cases
    case 1
    then have le: "c * 10 ^ j \<le> ?lo * 10 ^ j" by simp
    from dec_bits_mono [OF this] dec_bits_mono [OF lo] have "dec_bits (?lo * 10 ^ j) = k" using assms by simp
    with le show thesis by (rule down)
  next
    case 2
    then have le: "Suc ?lo * 10 ^ j \<le> c * 10 ^ j" by (rule mult_right_mono) simp
    from dec_bits_mono [OF this] dec_bits_mono [OF hi] have "dec_bits (Suc ?lo * 10 ^ j) = k" using assms by simp
    with le show thesis by (rule up)
  qed
qed

lemma nearest_digits_none:
  assumes "nearest_digits k a j = None" "dec_bits a = k"
  shows "dec_bits (c * 10 ^ j) \<noteq> k"
proof
  assume "dec_bits (c * 10 ^ j) = k"
  then show False
    by (cases rule: multiple_candidate [OF _ assms(2)])
       (use assms(1) in \<open>auto simp: nearest_digits_def Let_def split: if_splits\<close>)
qed

text \<open>How far two numbers are apart.\<close>

definition gap :: "nat \<Rightarrow> nat \<Rightarrow> nat" where
  "gap a b = (a - b) + (b - a)"

lemma nearest_digits_nearest:
  assumes "nearest_digits k a j = Some d" "dec_bits a = k" "dec_bits (c * 10 ^ j) = k"
  shows "gap a (d * 10 ^ j) \<le> gap a (c * 10 ^ j)"
proof -
  define lo hi r where "lo = a div 10 ^ j * 10 ^ j" and "hi = Suc (a div 10 ^ j) * 10 ^ j" and "r = a mod 10 ^ j"
  have a: "a = lo + r" "hi = lo + 10 ^ j" "r < 10 ^ j" using div_mult_mod_eq [of a "10 ^ j"]
    by (simp_all add: lo_def hi_def r_def)
  have d: "d * 10 ^ j = (if dec_bits lo = k \<and> dec_bits hi = k then if 2 * r < 10 ^ j then lo else hi
      else if dec_bits lo = k then lo else hi)"
    using assms(1) unfolding nearest_digits_def Let_def lo_def hi_def r_def by (auto split: if_splits)
  show ?thesis
  proof (cases rule: multiple_candidate [OF assms(3,2)])
    case 1
    then have "c * 10 ^ j \<le> lo" "dec_bits lo = k" by (simp_all add: lo_def)
    with a d show ?thesis by (auto simp: gap_def split: if_splits)
  next
    case 2
    then have "hi \<le> c * 10 ^ j" "dec_bits hi = k" by (simp_all add: hi_def)
    with a d show ?thesis by (auto simp: gap_def split: if_splits)
  qed
qed

lemma shortest_from_rounds:
  "dec_bits a = k \<Longrightarrow> shortest_from k a n = (d, j) \<Longrightarrow> dec_bits (d * 10 ^ j) = k"
  by (induction n) (auto split: option.splits dest: nearest_digits_rounds)

lemma shortest_from_coarsest:
  assumes "dec_bits a = k" "shortest_from k a n = (d, j)" "j < i" "i \<le> n"
  shows "dec_bits (c * 10 ^ i) \<noteq> k"
  using assms
proof (induction n)
  case (Suc n)
  then have none: "nearest_digits k a (Suc n) = None" and rest: "shortest_from k a n = (d, j)"
    by (auto split: option.splits)
  show ?case
  proof (cases "i = Suc n")
    case True
    then show ?thesis using nearest_digits_none [OF none Suc.prems(1)] by blast
  next
    case False
    with Suc.prems(4) have "i \<le> n" by simp
    with Suc.IH [OF Suc.prems(1) rest Suc.prems(3)] show ?thesis .
  qed
qed simp

lemma foldl_digits:
  "foldl (\<lambda>n c. 10 * n + digit_val c) m t = m * 10 ^ length t + digits_value t"
proof (induction t arbitrary: m)
  case Nil
  show ?case by (simp add: digits_value_def)
next
  case (Cons c t)
  have "digits_value (c # t) = digit_val c * 10 ^ length t + digits_value t"
    using Cons.IH [of "digit_val c"] by (simp only: digits_value_def foldl_Cons mult_0_right add_0)
  with Cons.IH [of "10 * m + digit_val c"] show ?case
    by (simp only: foldl_Cons list.size power_Suc add_mult_distrib) simp
qed

lemma digits_value_append: "digits_value (s @ t) = digits_value s * 10 ^ length t + digits_value t"
  by (simp only: digits_value_def [of "s @ t"] foldl_append foldl_digits [of _ t] digits_value_def [of s])

lemma digits_value_zeros: "digits_value (replicate n (CHR ''0'')) = 0"
  by (induction n) (simp_all add: digits_value_def digit_val_def)

lemma digits_value_show: "digits_value (show_nat n) = n"
proof (induction n rule: show_nat.induct)
  case (1 n)
  have single: "digits_value [digit_char d] = d" if "d < 10" for d
    using that by (simp add: digits_value_def)
  show ?case
  proof (cases "n < 10")
    case True
    then show ?thesis by (subst show_nat.simps) (simp add: single)
  next
    case False
    with 1 show ?thesis
      by (subst show_nat.simps) (simp add: digits_value_append single)
  qed
qed

lemma parse_exponent_Nil [simp]: "parse_exponent [] = Some 0"
  by (simp add: parse_exponent_def)

lemma all_digits:
  assumes "list_all is_digit s"
  shows "takeWhile is_digit s = s" "dropWhile is_digit s = []"
    "takeWhile is_digit (s @ CHR ''.'' # t) = s" "dropWhile is_digit (s @ CHR ''.'' # t) = CHR ''.'' # t"
proof -
  have dot: "\<not> is_digit (CHR ''.'')" by (simp add: is_digit_def)
  show "takeWhile is_digit s = s" "dropWhile is_digit s = []"
    using assms by (auto simp: list_all_iff takeWhile_eq_all_conv)
  show "takeWhile is_digit (s @ CHR ''.'' # t) = s" "dropWhile is_digit (s @ CHR ''.'' # t) = CHR ''.'' # t"
    using assms dot by (auto simp: list_all_iff)
qed

lemma parse_number_whole:
  "list_all is_digit s \<Longrightarrow> s \<noteq> [] \<Longrightarrow> parse_number s = Some (digits_value s, 0)"
  by (simp add: parse_number_def all_digits Let_def)

lemma parse_number_frac:
  "list_all is_digit s \<Longrightarrow> list_all is_digit t \<Longrightarrow> s @ t \<noteq> [] \<Longrightarrow>
   parse_number (s @ ''.'' @ t) = Some (digits_value (s @ t), - int (length t))"
  by (simp add: parse_number_def all_digits Let_def)

lemma scales: "f64_scale * dec_scale = 10 ^ dec_places"
proof -
  have "(2::nat) ^ n * 5 ^ n = 10 ^ n" for n by (simp add: power_mult_distrib [symmetric])
  then show ?thesis by (simp only: f64_scale_def dec_scale_def dec_places_def)
qed

lemma zero_digits: "list_all is_digit (replicate n (CHR ''0''))"
  by (simp add: list_all_iff is_digit_def)

lemma decimal_bits_small:
  assumes "j < dec_places"
  shows "decimal_bits v (- int (dec_places - j)) = dec_bits (v * 10 ^ j)"
proof -
  have "10 ^ j * 10 ^ (dec_places - j) = f64_scale * dec_scale"
    using assms by (simp only: power_add [symmetric] scales) simp
  then have "v * f64_scale * dec_scale = v * 10 ^ j * 10 ^ (dec_places - j)" by (simp only: mult.assoc)
  then have "round_mag (v * f64_scale) (10 ^ (dec_places - j)) = round_mag (v * 10 ^ j) dec_scale"
    by (intro round_mag_cong) simp_all
  with assms show ?thesis by (simp add: decimal_bits_def dec_bits_def del: of_nat_diff)
qed

lemma decimal_bits_large:
  assumes "dec_places \<le> j"
  shows "decimal_bits (v * 10 ^ (j - dec_places)) 0 = dec_bits (v * 10 ^ j)"
proof -
  have "10 ^ (j - dec_places) * (f64_scale * dec_scale) = 10 ^ j"
    using assms by (simp only: power_add [symmetric] scales) simp
  then have "v * 10 ^ (j - dec_places) * f64_scale * dec_scale = v * 10 ^ j * 1"
    by (simp only: mult.assoc mult_1_right)
  then have "round_mag (v * 10 ^ (j - dec_places) * f64_scale) 1 = round_mag (v * 10 ^ j) dec_scale"
    by (intro round_mag_cong) simp_all
  then show ?thesis by (simp add: decimal_bits_def dec_bits_def)
qed

lemma show_digits_parse:
  assumes "list_all is_digit s" "s \<noteq> []"
  shows "\<exists>m e. parse_number (show_digits s j) = Some (m, e)
    \<and> decimal_bits m e = dec_bits (digits_value s * 10 ^ j)"
proof -
  consider "dec_places \<le> j" | "j < dec_places" "dec_places - j < length s"
    | "j < dec_places" "length s \<le> dec_places - j" by linarith
  then show ?thesis
  proof cases
    case 1
    have "parse_number (show_digits s j) = Some (digits_value s * 10 ^ (j - dec_places), 0)"
      using 1 assms zero_digits
      by (simp add: show_digits_def parse_number_whole digits_value_append digits_value_zeros)
    with decimal_bits_large [OF 1] show ?thesis by blast
  next
    case 2
    let ?n = "length s - (dec_places - j)"
    have "list_all is_digit (take ?n s)" "list_all is_digit (drop ?n s)"
      using assms(1) by (auto simp: list_all_iff dest: in_set_takeD in_set_dropD)
    from parse_number_frac [OF this]
    have "parse_number (show_digits s j) = Some (digits_value s, - int (dec_places - j))"
      using 2 assms(2) by (simp add: show_digits_def)
    with decimal_bits_small [OF 2(1)] show ?thesis by blast
  next
    case 3
    let ?z = "replicate (dec_places - j - length s) (CHR ''0'')"
    have "list_all is_digit ''0''" "list_all is_digit (?z @ s)"
      using assms(1) zero_digits by (simp_all add: is_digit_def)
    from parse_number_frac [OF this]
    have "parse_number (''0'' @ ''.'' @ ?z @ s) = Some (digits_value (''0'' @ ?z @ s), - int (dec_places - j))"
      using 3 by simp
    moreover have "digits_value (''0'' @ ?z @ s) = digits_value s"
      using digits_value_zeros [of "Suc (dec_places - j - length s)"] digits_value_append [of "''0'' @ ?z" s]
      by simp
    moreover have "show_digits s j = ''0'' @ ''.'' @ ?z @ s" using 3 by (simp add: show_digits_def)
    ultimately show ?thesis using decimal_bits_small [OF 3(1)] by metis
  qed
qed

lemma show_digits_first:
  assumes "list_all is_digit s" "s \<noteq> []"
  shows "show_digits s j \<noteq> []" "is_digit (hd (show_digits s j))"
proof -
  have "is_digit (CHR ''0'')" by (simp add: is_digit_def)
  moreover obtain c cs where "s = c # cs" "is_digit c" using assms by (cases s) auto
  ultimately show "show_digits s j \<noteq> []" "is_digit (hd (show_digits s j))"
    by (auto simp: show_digits_def take_Cons')
qed

lemma shortest_digits_rounds:
  "k \<le> inf_bits \<Longrightarrow> shortest_digits k = (d, j) \<Longrightarrow> dec_bits (d * 10 ^ j) = k"
  unfolding shortest_digits_def Let_def by (rule shortest_from_rounds [OF dec_bits_exact])

text \<open>A sign and then the digits, or the name of a special value.\<close>

lemma parse_f64_signed:
  assumes "c \<noteq> CHR ''-''" "c \<noteq> CHR ''+''"
  shows "parse_f64 ((if neg then ''-'' else '''') @ c # cs) =
    (case parse_number (c # cs) of Some (m, e) \<Rightarrow> Some (f64_of neg (decimal_bits m e))
     | None \<Rightarrow> parse_inf_nan neg (c # cs))"
  using assms by (auto simp: parse_f64_def split: option.splits)

lemma parse_number_word: "\<not> is_digit c \<Longrightarrow> c \<noteq> CHR ''.'' \<Longrightarrow> parse_number (c # cs) = None"
  by (simp add: parse_number_def Let_def)

lemma parse_display_f64:
  assumes "is_nan x \<Longrightarrow> x = f64_nan"
  shows "parse_f64 (display_f64 x) = Some x"
proof -
  consider "is_nan x" | "is_infinite x" | "mag_bits x = 0" "is_finite x" | "mag_bits x \<noteq> 0" "is_finite x"
    using linorder_less_linear [of "mag_bits x" inf_bits]
    by (cases "mag_bits x = 0") (auto simp: is_nan_def is_infinite_def is_finite_def)
  then show ?thesis
  proof cases
    case 1
    have "parse_f64 ''NaN'' = parse_inf_nan False ''NaN''"
      using parse_f64_signed [of "CHR ''N''" False "''aN''"] parse_number_word [of "CHR ''N''" "''aN''"]
      by (simp add: is_digit_def)
    also have "\<dots> = Some f64_nan"
      by (simp add: parse_inf_nan_def eq_ignore_ascii_case_def ascii_lower_def)
    finally show ?thesis using 1 assms by (simp add: display_f64_def)
  next
    case 2
    have "\<not> is_nan x" using 2 by (simp add: is_nan_def is_infinite_def)
    then have "display_f64 x = (if is_negative x then ''-'' else '''') @ ''inf''"
      using 2 by (simp add: display_f64_def)
    then have "parse_f64 (display_f64 x) = parse_inf_nan (is_negative x) ''inf''"
      using parse_f64_signed [of "CHR ''i''" "is_negative x" "''nf''"] parse_number_word [of "CHR ''i''" "''nf''"]
      by (simp add: is_digit_def)
    also have "\<dots> = Some (f64_of (is_negative x) inf_bits)"
      by (simp add: parse_inf_nan_def eq_ignore_ascii_case_def ascii_lower_def)
    finally show ?thesis using 2 f64_of_bits [of x] by (simp add: is_infinite_def)
  next
    case 3
    then have "display_f64 x = (if is_negative x then ''-'' else '''') @ ''0''"
      by (simp add: display_f64_def is_nan_def is_infinite_def is_finite_def)
    moreover have "parse_number ''0'' = Some (0, 0)"
      using parse_number_whole [of "''0''"] digits_value_zeros [of 1] by (simp add: is_digit_def)
    ultimately have "parse_f64 (display_f64 x) = Some (f64_of (is_negative x) 0)"
      using parse_f64_signed [of "CHR ''0''" "is_negative x" "[]"]
      by (simp add: decimal_bits_def round_mag_0)
    then show ?thesis using 3 f64_of_bits [of x] by simp
  next
    case 4
    obtain d j where dj: "shortest_digits (mag_bits x) = (d, j)" by (cases "shortest_digits (mag_bits x)") auto
    have k: "mag_bits x \<le> inf_bits" using 4(2) by (simp add: is_finite_def)
    note digits = show_nat_digits [of d] show_nat_not_Nil [of d]
    obtain m e where m: "parse_number (show_digits (show_nat d) j) = Some (m, e)" "decimal_bits m e = mag_bits x"
      using show_digits_parse [OF digits, of j] shortest_digits_rounds [OF k dj] by (auto simp: digits_value_show)
    obtain c cs where c: "show_digits (show_nat d) j = c # cs" "is_digit c"
      using show_digits_first [OF digits, of j] by (cases "show_digits (show_nat d) j") auto
    then have "c \<noteq> CHR ''-''" "c \<noteq> CHR ''+''" using is_digit_neq by blast+
    note parse = parse_f64_signed [OF this, of "is_negative x" cs]
    have "display_f64 x = (if is_negative x then ''-'' else '''') @ c # cs"
      using 4 dj c(1) by (simp add: display_f64_def is_nan_def is_infinite_def is_finite_def)
    then have "parse_f64 (display_f64 x) = Some (f64_of (is_negative x) (mag_bits x))"
      using parse m by (simp add: c(1))
    then show ?thesis by (simp only: f64_of_bits)
  qed
qed

lemma shortest_from_nearest:
  assumes "dec_bits a = k" "shortest_from k a n = (d, j)" "dec_bits (c * 10 ^ j) = k"
  shows "gap a (d * 10 ^ j) \<le> gap a (c * 10 ^ j)"
  using assms(1,2)
proof (induction n)
  case 0
  then show ?case by (auto simp: gap_def)
next
  case (Suc n)
  then show ?case
    using nearest_digits_nearest [OF _ _ assms(3)] by (cases "nearest_digits k a (Suc n)") auto
qed

lemma shortest_from_top:
  assumes "shortest_from k a n = (d, n)" "a < 10 ^ n" "k \<noteq> 0" "dec_bits a = k"
  shows "d = 1"
proof -
  have zero: "dec_bits 0 = 0" by (simp add: dec_bits_def round_mag_0)
  have lower: "shortest_from k a m = (e, i) \<Longrightarrow> i \<le> m" for m e i
    by (induction m) (auto split: option.splits)
  show ?thesis
  proof (cases n)
    case 0
    with assms zero show ?thesis by simp
  next
    case (Suc m)
    have "nearest_digits k a n = Some d"
      using assms(1) lower [of m d n] Suc by (auto split: option.splits)
    with assms(2,3) zero show ?thesis by (auto simp: nearest_digits_def Let_def split: if_splits)
  qed
qed

lemma show_nat_bound: "n < 10 ^ length (show_nat n)"
proof (induction n rule: show_nat.induct)
  case (1 n)
  show ?case
  proof (cases "n < 10")
    case False
    then have "n div 10 < 10 ^ length (show_nat (n div 10))" by (rule 1)
    then have "n < 10 ^ Suc (length (show_nat (n div 10)))" by (simp add: div_less_iff_less_mult)
    with False show ?thesis by (subst show_nat.simps) simp
  qed (subst show_nat.simps, simp)
qed

text \<open>
  The digits printed are as few as possible: no multiple of a higher power of ten reads back
  as the value, unless it is printed as a single 1; and of the numbers with as many digits
  none that reads back is nearer.
\<close>

lemma shortest_digits_fewest:
  assumes "k \<noteq> 0" "k \<le> inf_bits" "shortest_digits k = (d, j)" "j < i"
  shows "d = 1 \<or> dec_bits (c * 10 ^ i) \<noteq> k"
proof -
  define a n where "a = mag k * dec_scale" and "n = length (show_nat a)"
  have a: "dec_bits a = k" "shortest_from k a n = (d, j)"
    using assms(2,3) by (simp_all add: a_def n_def dec_bits_exact shortest_digits_def Let_def)
  show ?thesis
  proof (cases "i \<le> n")
    case True
    with shortest_from_coarsest [OF a assms(4)] show ?thesis by blast
  next
    case False
    show ?thesis
    proof (cases "j = n")
      case True
      with shortest_from_top [OF _ show_nat_bound assms(1) a(1)] a(2) show ?thesis by (simp add: n_def)
    next
      case False
      have "j \<le> n" using a(2) by (induction n) (auto split: option.splits)
      with False have "j < n" by simp
      have "c * 10 ^ i = c * 10 ^ (i - n) * 10 ^ n"
        using \<open>\<not> i \<le> n\<close> by (simp add: mult.assoc power_add [symmetric])
      with shortest_from_coarsest [OF a \<open>j < n\<close> order_refl] show ?thesis by metis
    qed
  qed
qed

lemma shortest_digits_nearest:
  assumes "k \<le> inf_bits" "shortest_digits k = (d, j)" "dec_bits (c * 10 ^ j) = k"
  shows "gap (mag k * dec_scale) (d * 10 ^ j) \<le> gap (mag k * dec_scale) (c * 10 ^ j)"
  using shortest_from_nearest [OF dec_bits_exact [OF assms(1)] _ assms(3)] assms(2)
  by (simp add: shortest_digits_def Let_def)

text \<open>To know the digits it is enough to look at two powers of ten.\<close>

lemma shortest_digitsI:
  assumes "k \<le> inf_bits" "a = mag k * dec_scale" "10 ^ j \<le> a"
    and "nearest_digits k a j = Some d" "nearest_digits k a (Suc j) = None"
  shows "shortest_digits k = (d, j)"
proof -
  have a: "dec_bits a = k" using assms(1,2) by (simp add: dec_bits_exact)
  have none: "nearest_digits k a i = None" if "Suc j \<le> i" for i
  proof (rule ccontr)
    assume "nearest_digits k a i \<noteq> None"
    then obtain c where "dec_bits (c * 10 ^ i) = k" using nearest_digits_rounds by blast
    moreover have "c * 10 ^ i = c * 10 ^ (i - Suc j) * 10 ^ Suc j"
      using that by (simp only: mult.assoc power_add [symmetric]) simp
    ultimately show False using nearest_digits_none [OF assms(5) a] by metis
  qed
  have "shortest_from k a n = (d, j)" if "j \<le> n" for n
    using that
  proof (induction n)
    case 0
    with assms(4) a show ?case by (auto simp: nearest_digits_def Let_def split: if_splits)
  next
    case (Suc n)
    show ?case
    proof (cases "j = Suc n")
      case True
      with assms(4) show ?thesis by simp
    next
      case False
      with Suc none [of "Suc n"] show ?thesis by simp
    qed
  qed
  moreover have "j \<le> length (show_nat a)"
  proof -
    have "(10::nat) ^ j < 10 ^ length (show_nat a)" using assms(3) show_nat_bound by (rule le_less_trans)
    then show ?thesis by simp
  qed
  ultimately show ?thesis by (simp add: shortest_digits_def assms(2) Let_def)
qed

text \<open>
  A value that is exactly \<open>d\<close> times \<open>10 ^ - p\<close> prints as \<open>d\<close> when the two shorter numbers
  around it are beyond the neighbouring floats.
\<close>

lemma exact_digits:
  assumes k: "0 < k" "k < inf_bits" and p: "0 < p" "p \<le> dec_places" and d: "0 < d"
    and exact: "d * f64_scale = mag k * 10 ^ p"
    and below: "d div 10 * 10 * f64_scale \<le> mag (k - 1) * 10 ^ p"
    and above: "mag (k + 1) * 10 ^ p \<le> Suc (d div 10) * 10 * f64_scale"
  shows "shortest_digits k = (d, dec_places - p)"
proof -
  define j a where "j = dec_places - p" and "a = mag k * dec_scale"
  have pos: "0 < f64_scale" by (simp add: f64_scale_def)
  have ten: "10 ^ p * 10 ^ j = f64_scale * dec_scale"
    using p by (simp only: scales j_def power_add [symmetric]) simp
  have cancel: "x * 10 ^ j * f64_scale = x * f64_scale * 10 ^ j"
    "y * dec_scale * f64_scale = y * 10 ^ p * 10 ^ j" for x y :: nat
    using ten by (simp_all add: ac_simps)
  have "a * f64_scale = d * 10 ^ j * f64_scale"
    unfolding a_def cancel using exact by simp
  then have a: "a = d * 10 ^ j" using pos by simp
  define lo hi where "lo = d div 10" and "hi = Suc (d div 10)"
  have "lo * 10 ^ Suc j * f64_scale \<le> mag (k - 1) * dec_scale * f64_scale"
    using mult_right_mono [OF below [folded lo_def], of "10 ^ j"] unfolding cancel by (simp add: ac_simps)
  then have "dec_bits (lo * 10 ^ Suc j) \<le> dec_bits (mag (k - 1) * dec_scale)"
    using pos by (intro dec_bits_mono) simp
  moreover have "mag (k + 1) * dec_scale * f64_scale \<le> hi * 10 ^ Suc j * f64_scale"
    using mult_right_mono [OF above [folded hi_def], of "10 ^ j"] unfolding cancel by (simp add: ac_simps)
  then have "dec_bits (mag (k + 1) * dec_scale) \<le> dec_bits (hi * 10 ^ Suc j)"
    using pos by (intro dec_bits_mono) simp
  ultimately have out: "dec_bits (lo * 10 ^ Suc j) \<noteq> k" "dec_bits (hi * 10 ^ Suc j) \<noteq> k"
    using k by (simp_all only: dec_bits_exact [of "k - 1"] dec_bits_exact [of "k + 1"])
  have "a div 10 ^ Suc j = d div 10"
    unfolding a power_Suc2 by (subst div_mult2_eq) simp
  with out have none: "nearest_digits k a (Suc j) = None" by (simp add: nearest_digits_def Let_def lo_def hi_def)
  have "dec_bits a = k" unfolding a_def using k by (simp add: dec_bits_exact)
  then have some: "nearest_digits k a j = Some d"
    unfolding a nearest_digits_def Let_def by simp
  have "10 ^ j \<le> a" using d by (simp add: a)
  from shortest_digitsI [OF _ a_def this some none] k show ?thesis by (simp add: j_def)
qed

end
