(* ===== verification/Types.thy ===== *)
theory Types
  imports Errors F64Text
begin

text \<open>
  \<open>server/src/types.rs\<close>: the messages of the protocol and their text format. The binary
  format of UDP messages is that of the \<open>bincode\<close> crate; its two functions are arguments
  of the definitions that use them.
\<close>

section \<open>Data\<close>

record stock_quote =
  q_ticker :: string
  q_price :: f64
  q_volume :: u32
  q_timestamp :: u64

datatype udp_message =
    Quote stock_quote
  | Ping u64
  | Pong u64

datatype commands = Stream

datatype protocol = Udp

record subscribe_command =
  sc_cmd :: commands
  sc_protocol :: protocol
  sc_ip :: ipv4
  sc_port :: u16
  sc_tickers :: "string list"

datatype tcp_message =
    Ack
  | Cmd subscribe_command
  | Err string

section \<open>Binary format\<close>

text \<open>
  \<open>bincode::serialize\<close> and \<open>bincode::deserialize\<close>, at the two types the program uses
  them for. \<open>'b\<close> is the crate's error type. The program relies on the documented fact that
  what \<open>serialize\<close> returns, \<open>deserialize\<close> reads back: \<open>bincode_ok\<close>.
\<close>

record 'b bincode =
  serialize_quote :: "stock_quote \<Rightarrow> 'b + u8 list"
  deserialize_quote :: "u8 list \<Rightarrow> 'b + stock_quote"
  serialize_udp :: "udp_message \<Rightarrow> 'b + u8 list"
  deserialize_udp :: "u8 list \<Rightarrow> 'b + udp_message"

definition quote_to_bytes :: "'b bincode \<Rightarrow> stock_quote \<Rightarrow> 'b + u8 list" where
  "quote_to_bytes bc q = and_then (serialize_quote bc q) Inr"

definition quote_from_bytes :: "'b bincode \<Rightarrow> u8 list \<Rightarrow> 'b + stock_quote" where
  "quote_from_bytes bc bs = deserialize_quote bc bs"

definition udp_to_bytes :: "'b bincode \<Rightarrow> udp_message \<Rightarrow> 'b + u8 list" where
  "udp_to_bytes bc m = and_then (serialize_udp bc m) Inr"

definition udp_from_bytes :: "'b bincode \<Rightarrow> u8 list \<Rightarrow> 'b + udp_message" where
  "udp_from_bytes bc bs = deserialize_udp bc bs"

definition bincode_ok :: "'b bincode \<Rightarrow> bool" where
  "bincode_ok bc \<longleftrightarrow>
     (\<forall>q bs. serialize_quote bc q = Inr bs \<longrightarrow> deserialize_quote bc bs = Inr q)
     \<and> (\<forall>m bs. serialize_udp bc m = Inr bs \<longrightarrow> deserialize_udp bc bs = Inr m)"

lemma quote_bytes_back:
  "bincode_ok bc \<Longrightarrow> quote_to_bytes bc q = Inr bytes \<Longrightarrow> quote_from_bytes bc bytes = Inr q"
  by (auto simp: bincode_ok_def quote_to_bytes_def quote_from_bytes_def and_then_eq_Inr)

lemma udp_bytes_back:
  "bincode_ok bc \<Longrightarrow> udp_to_bytes bc m = Inr bytes \<Longrightarrow> udp_from_bytes bc bytes = Inr m"
  by (auto simp: bincode_ok_def udp_to_bytes_def udp_from_bytes_def and_then_eq_Inr)

section \<open>Text format\<close>

text \<open>\<open>StockQuote::to_string\<close> and \<open>from_string\<close>; \<open>str::parse\<close> errors become \<open>None\<close>.\<close>

definition quote_to_string :: "stock_quote \<Rightarrow> string" where
  "quote_to_string q =
     q_ticker q @ ''|'' @ display_f64 (q_price q) @ ''|'' @ show_word (q_volume q)
       @ ''|'' @ show_word (q_timestamp q)"

definition quote_from_string :: "string \<Rightarrow> stock_quote option" where
  "quote_from_string s =
     (case split_on (CHR ''|'') s of
        [ticker, price, volume, timestamp] \<Rightarrow>
          (case parse_f64 price of
             None \<Rightarrow> None
           | Some p \<Rightarrow>
               (case parse_word volume of
                  Inl _ \<Rightarrow> None
                | Inr v \<Rightarrow>
                    (case parse_word timestamp of
                       Inl _ \<Rightarrow> None
                     | Inr t \<Rightarrow> Some \<lparr>q_ticker = ticker, q_price = p, q_volume = v, q_timestamp = t\<rparr>)))
      | _ \<Rightarrow> None)"

text \<open>
  \<open>#[derive(EnumString, Display)]\<close> with \<open>ascii_case_insensitive, to_string = ".."\<close>: the
  variant prints as its \<open>to_string\<close> text and parses from it in any ASCII case.
\<close>

fun display_commands :: "commands \<Rightarrow> string" where
  "display_commands Stream = ''STREAM''"

definition commands_from_str :: "string \<Rightarrow> strum_error + commands" where
  "commands_from_str s =
     (if eq_ignore_ascii_case s ''STREAM'' then Inr Stream else Inl StrumVariantNotFound)"

fun display_protocol :: "protocol \<Rightarrow> string" where
  "display_protocol Udp = ''UDP''"

definition protocol_from_str :: "string \<Rightarrow> strum_error + protocol" where
  "protocol_from_str s =
     (if eq_ignore_ascii_case s ''UDP'' then Inr Udp else Inl StrumVariantNotFound)"

text \<open>
  \<open>SubscribeCommand::from_str\<close>: \<open>parts[4]\<close> is the last part that is read; any further
  parts are ignored.
\<close>

definition subscribe_from_str :: "string \<Rightarrow> parse_command_err + subscribe_command" where
  "subscribe_from_str s =
     (let parts = split_on CHR ''|'' s in
      if length parts < 5 then Inl NotEnoughArguments
      else
        and_then (map_err VariantNotFound (commands_from_str (parts ! 0))) (\<lambda>cmd.
        and_then (map_err VariantNotFound (protocol_from_str (parts ! 1))) (\<lambda>protocol.
        and_then (map_err InvalidIpAddress (ipv4_from_str (parts ! 2))) (\<lambda>ip.
        and_then (map_err (\<lambda>_. InvalidPort) (parse_word (parts ! 3))) (\<lambda>port.
        Inr \<lparr>sc_cmd = cmd, sc_protocol = protocol, sc_ip = ip, sc_port = port,
             sc_tickers = split_on CHR '','' (parts ! 4)\<rparr>)))))"

definition display_subscribe :: "subscribe_command \<Rightarrow> string" where
  "display_subscribe c =
     display_commands (sc_cmd c) @ ''|'' @ display_protocol (sc_protocol c) @ ''|''
     @ show_ipv4 (sc_ip c) @ ''|'' @ show_word (sc_port c) @ ''|''
     @ join_with '','' (sc_tickers c)"

fun tcp_to_string :: "tcp_message \<Rightarrow> string" where
  "tcp_to_string Ack = ''ACK''"
| "tcp_to_string (Cmd c) = ''CMD|'' @ display_subscribe c"
| "tcp_to_string (Err e) = ''ERR|'' @ e"

definition tcp_from_string :: "string \<Rightarrow> parse_command_err + tcp_message" where
  "tcp_from_string s =
     (let parts = splitn2 CHR ''|'' s in
      if parts ! 0 = ''ACK'' then Inr Ack
      else if parts ! 0 = ''CMD'' then
        (if length parts \<le> 1 then Inl NotEnoughArguments
         else and_then (subscribe_from_str (parts ! 1)) (\<lambda>c. Inr (Cmd c)))
      else if parts ! 0 = ''ERR'' then
        (if length parts \<le> 1 then Inl NotEnoughArguments else Inr (Err (parts ! 1)))
      else Inl UnknownCommand)"

section \<open>Facts about the text format\<close>

text \<open>The commands that the text format can carry.\<close>

definition subscribe_wf :: "subscribe_command \<Rightarrow> bool" where
  "subscribe_wf c \<longleftrightarrow>
     sc_tickers c \<noteq> [] \<and> (\<forall>t \<in> set (sc_tickers c). CHR '','' \<notin> set t \<and> CHR ''|'' \<notin> set t)"

fun tcp_wf :: "tcp_message \<Rightarrow> bool" where
  "tcp_wf Ack = True"
| "tcp_wf (Cmd c) = subscribe_wf c"
| "tcp_wf (Err e) = True"

lemma commands_roundtrip [codec]: "commands_from_str (display_commands c) = Inr c"
  by (cases c) (simp add: commands_from_str_def)

lemma protocol_roundtrip [codec]: "protocol_from_str (display_protocol p) = Inr p"
  by (cases p) (simp add: protocol_from_str_def)

lemma split_display_subscribe:
  "split_on CHR ''|'' (display_subscribe c) =
     [display_commands (sc_cmd c), display_protocol (sc_protocol c), show_ipv4 (sc_ip c),
      show_word (sc_port c)] @ split_on CHR ''|'' (join_with '','' (sc_tickers c))"
proof -
  have "CHR ''|'' \<notin> set (display_commands (sc_cmd c))" "CHR ''|'' \<notin> set (display_protocol (sc_protocol c))"
    by (cases "sc_cmd c", simp) (cases "sc_protocol c", simp)
  then show ?thesis
    by (simp add: display_subscribe_def split_on_append show_ipv4_free show_word_def show_nat_free)
qed

lemma subscribe_reparse:
  "subscribe_from_str (display_subscribe c) =
     Inr (c\<lparr>sc_tickers := split_on CHR '','' (hd (split_on CHR ''|'' (join_with '','' (sc_tickers c))))\<rparr>)"
proof -
  obtain p ps where "split_on CHR ''|'' (join_with '','' (sc_tickers c)) = p # ps"
    by (cases "split_on CHR ''|'' (join_with '','' (sc_tickers c))") auto
  then show ?thesis
    by (simp add: subscribe_from_str_def split_display_subscribe codec Let_def)
qed

lemma subscribe_wf_reparse:
  assumes "subscribe_wf c"
  shows "split_on CHR '','' (hd (split_on CHR ''|'' (join_with '','' (sc_tickers c)))) = sc_tickers c"
proof -
  have "CHR ''|'' \<notin> set (join_with '','' (sc_tickers c))"
    using assms join_with_set [of "'',''" "sc_tickers c"] by (auto simp: subscribe_wf_def)
  with assms show ?thesis
    by (simp add: split_on_no_sep split_on_join subscribe_wf_def)
qed

lemma concat_split_on: "concat (split_on c s) = filter (\<lambda>x. x \<noteq> c) s"
  by (induction s) (auto split: list.splits)

lemma split_on_subset: "p \<in> set (split_on c s) \<Longrightarrow> set p \<subseteq> set s"
  using arg_cong [OF concat_split_on, of set c s] by auto

lemma subscribe_from_str_wf:
  assumes "subscribe_from_str s = Inr c"
  shows "subscribe_wf c"
proof -
  define f where "f = split_on CHR ''|'' s ! 4"
  have "5 \<le> length (split_on CHR ''|'' s)" and t: "sc_tickers c = split_on CHR '','' f"
    using assms by (auto simp: f_def subscribe_from_str_def Let_def and_then_eq_Inr split: if_splits)
  then have "f \<in> set (split_on CHR ''|'' s)" by (simp add: f_def)
  then have "CHR ''|'' \<notin> set f" by (rule split_on_pieces)
  with t show ?thesis
    by (auto simp: subscribe_wf_def dest: split_on_pieces split_on_subset)
qed

lemma subscribe_roundtrip [codec]:
  "subscribe_wf c \<Longrightarrow> subscribe_from_str (display_subscribe c) = Inr c"
  by (simp add: subscribe_reparse subscribe_wf_reparse)

lemma splitn2_tcp: 
  "splitn2 CHR ''|'' (''CMD|'' @ s) = [''CMD'', s]"
  "splitn2 CHR ''|'' (''ERR|'' @ s) = [''ERR'', s]"
  using splitn2_append [of "CHR ''|''" "''CMD''" s] splitn2_append [of "CHR ''|''" "''ERR''" s] by simp_all

lemma tcp_roundtrip [codec]:
  "tcp_wf m \<Longrightarrow> tcp_from_string (tcp_to_string m) = Inr m"
  by (cases m) (simp_all add: tcp_from_string_def splitn2_tcp subscribe_roundtrip Let_def del: append.simps)

lemma tcp_from_string_wf: "tcp_from_string s = Inr m \<Longrightarrow> tcp_wf m"
  by (auto simp: tcp_from_string_def Let_def and_then_eq_Inr dest: subscribe_from_str_wf
      split: if_splits)

lemma valid_str_ack: "valid_str ''ACK''" "valid_str ''CMD|''" "valid_str ''ERR|''"
    "valid_str ''|''" "valid_str '',''" "valid_str ''STREAM''" "valid_str ''UDP''"
  by (rule valid_str_ascii, simp add: is_ascii_def)+

lemma valid_display_subscribe:
  assumes "\<forall>t \<in> set (sc_tickers c). valid_str t"
  shows "valid_str (display_subscribe c)"
proof -
  have "valid_str (display_commands (sc_cmd c))" "valid_str (display_protocol (sc_protocol c))"
    by (cases "sc_cmd c", simp add: valid_str_ack) (cases "sc_protocol c", simp add: valid_str_ack)
  then show ?thesis
    using assms valid_str_ack unfolding display_subscribe_def
    by (intro valid_str_append valid_str_join valid_show_ipv4)
       (auto simp: show_word_def valid_show_nat)
qed

text \<open>Every string in a message is valid UTF-8, as Rust's \<open>String\<close> guarantees.\<close>

fun tcp_utf8 :: "tcp_message \<Rightarrow> bool" where
  "tcp_utf8 Ack = True"
| "tcp_utf8 (Cmd c) = (\<forall>t \<in> set (sc_tickers c). valid_str t)"
| "tcp_utf8 (Err e) = valid_str e"

lemma subscribe_from_str_valid:
  assumes "subscribe_from_str s = Inr c" "valid_str s" "t \<in> set (sc_tickers c)"
  shows "valid_str t"
proof -
  let ?parts = "split_on (CHR ''|'') s"
  have parts: "4 < length ?parts" "t \<in> set (split_on (CHR '','') (?parts ! 4))"
    using assms(1,3) by (auto simp: subscribe_from_str_def Let_def and_then_eq_Inr split: if_splits)
  have ascii: "is_ascii (CHR ''|'')" "is_ascii (CHR '','')" by (simp_all add: is_ascii_def)
  have "?parts ! 4 \<in> set ?parts" using parts(1) by (rule nth_mem)
  then have "valid_str (?parts ! 4)" by (rule valid_split_on [OF assms(2) ascii(1)])
  from valid_split_on [OF this ascii(2) parts(2)] show ?thesis .
qed

lemma tcp_from_string_valid:
  assumes "tcp_from_string s = Inr m" "valid_str s"
  shows "tcp_utf8 m"
proof -
  let ?parts = "splitn2 (CHR ''|'') s"
  have valid: "1 < length ?parts \<Longrightarrow> valid_str (?parts ! 1)"
    using valid_splitn2 [OF assms(2), of "CHR ''|''"] by (simp add: is_ascii_def)
  with assms(1) subscribe_from_str_valid show ?thesis
    by (auto simp: tcp_from_string_def Let_def and_then_eq_Inr split: if_splits)
qed

lemma valid_tcp_to_string: "tcp_utf8 m \<Longrightarrow> valid_str (tcp_to_string m)"
  by (cases m)
     (simp_all add: valid_str_ack valid_str_append valid_display_subscribe del: append.simps)

section \<open>Properties\<close>

text \<open>
  Claim C31. A subscription command survives printing and parsing exactly when it names at
  least one ticker and no ticker contains one of the two separators, comma and bar: the
  text format loses every other command.
\<close>

theorem subscribe_roundtrip_iff:
  "subscribe_from_str (display_subscribe c) = Inr c \<longleftrightarrow> subscribe_wf c"
  using subscribe_from_str_wf subscribe_roundtrip by blast

text \<open>
  Parsing normalises: whatever text a TCP message was parsed from (lower-case
  keywords, a \<open>+\<close> before the port, extra fields), printing the message and parsing it
  again gives the same message.
\<close>

lemma tcp_parse_stable:
  assumes "tcp_from_string s = Inr m"
  shows "tcp_from_string (tcp_to_string m) = Inr m"
  using assms by (intro tcp_roundtrip tcp_from_string_wf)

lemma split_on_append_sep: "split_on c (s @ c # t) = split_on c s @ split_on c t"
  by (induction s) (auto split: list.splits)

text \<open>
  Only the first five fields of a subscription are read: whatever follows a
  fifth bar neither makes the command invalid nor changes its meaning.
\<close>

lemma subscribe_ignores_extra_fields:
  assumes "5 \<le> length (split_on CHR ''|'' s)"
  shows "subscribe_from_str (s @ CHR ''|'' # extra) = subscribe_from_str s"
  using assms by (simp add: subscribe_from_str_def split_on_append_sep Let_def nth_append)

lemma display_f64_free: "CHR ''|'' \<notin> set (display_f64 x)"
proof -
  have "CHR ''|'' \<notin> set (show_digits (show_nat d) j)" for d j
    using show_nat_free(1) [of d]
    by (auto simp: show_digits_def dest: in_set_takeD in_set_dropD)
  then show ?thesis by (auto simp: display_f64_def split: prod.splits if_splits)
qed

lemma split_quote_text:
  "split_on (CHR ''|'') (quote_to_string q) =
     split_on (CHR ''|'') (q_ticker q)
       @ [display_f64 (q_price q), show_word (q_volume q), show_word (q_timestamp q)]"
proof -
  have "split_on (CHR ''|'') (display_f64 (q_price q) @ ''|'' @ show_word (q_volume q)
      @ ''|'' @ show_word (q_timestamp q))
    = [display_f64 (q_price q), show_word (q_volume q), show_word (q_timestamp q)]"
    by (simp add: split_on_append split_on_no_sep display_f64_free show_nat_free show_word_def)
  then show ?thesis by (simp add: quote_to_string_def split_on_append_sep)
qed

lemma quote_fields: "quote_from_string s = Some q \<Longrightarrow> length (split_on (CHR ''|'') s) = 4"
  by (auto simp: quote_from_string_def split: list.splits)

lemma quote_text_back:
  assumes "is_nan (q_price q) \<Longrightarrow> q_price q = f64_nan" "CHR ''|'' \<notin> set (q_ticker q)"
  shows "quote_from_string (quote_to_string q) = Some q"
  using parse_display_f64 [OF assms(1)] assms(2)
  by (simp add: quote_from_string_def split_quote_text split_on_no_sep parse_show_word)

text \<open>
  Claim C32. The text form of a quote reads back as the quote (price included, down to the
  last bit, infinities and the sign of zero too) exactly when its ticker has no bar in it.
\<close>

theorem quote_text_roundtrip:
  assumes "is_nan (q_price q) \<Longrightarrow> q_price q = f64_nan"
  shows "quote_from_string (quote_to_string q) = Some q \<longleftrightarrow> CHR ''|'' \<notin> set (q_ticker q)"
proof (cases "CHR ''|'' \<in> set (q_ticker q)")
  case True
  then obtain a b where "q_ticker q = a @ CHR ''|'' # b" by (auto simp: in_set_conv_decomp)
  then have "split_on (CHR ''|'') (q_ticker q) = split_on (CHR ''|'') a @ split_on (CHR ''|'') b"
    by (simp add: split_on_append_sep)
  moreover have "split_on (CHR ''|'') a \<noteq> []" "split_on (CHR ''|'') b \<noteq> []" by simp_all
  ultimately have "4 < length (split_on (CHR ''|'') (quote_to_string q))"
    by (cases "split_on (CHR ''|'') a"; cases "split_on (CHR ''|'') b") (simp_all add: split_quote_text)
  then have "quote_from_string (quote_to_string q) = None"
    using quote_fields by fastforce
  with True show ?thesis by simp
next
  case False
  with quote_text_back [OF assms] show ?thesis by simp
qed

theorem quote_text_roundtrip_witness:
  "quote_from_string (quote_to_string \<lparr>q_ticker = ''AAPL'', q_price = 1, q_volume = 7, q_timestamp = 5\<rparr>)
     = Some \<lparr>q_ticker = ''AAPL'', q_price = 1, q_volume = 7, q_timestamp = 5\<rparr>
   \<and> quote_from_string (quote_to_string \<lparr>q_ticker = ''A|B'', q_price = 1, q_volume = 7, q_timestamp = 5\<rparr>)
     \<noteq> Some \<lparr>q_ticker = ''A|B'', q_price = 1, q_volume = 7, q_timestamp = 5\<rparr>"
proof -
  have one: "\<not> is_nan 1" using f64_one(1) by (simp add: finite_not_nan)
  show ?thesis
    using quote_text_roundtrip [of "\<lparr>q_ticker = ''AAPL'', q_price = 1, q_volume = 7, q_timestamp = 5\<rparr>"]
      quote_text_roundtrip [of "\<lparr>q_ticker = ''A|B'', q_price = 1, q_volume = 7, q_timestamp = 5\<rparr>"]
    by (simp add: one)
qed

end
