(* ===== verification/Framing.thy ===== *)
theory Framing
  imports Types
begin

text \<open>
  The length-prefixed TCP framing: \<open>read_tcp_message\<close> of \<open>server/src/utils.rs\<close>, which the
  server and the client share, and \<open>Processor::send_tcp_message\<close> of
  \<open>server/src/processor.rs\<close>. A connection is seen from one end: the bytes that will
  arrive and the error that a read past them returns, the bytes written so far and how
  many more the connection takes before a write fails.
\<close>

section \<open>Streams\<close>

record in_stream =
  avail :: "u8 list"
  in_end :: io_error

record out_stream =
  written :: "u8 list"
  room :: "nat option"
  out_end :: io_error

definition read_exact :: "nat \<Rightarrow> in_stream \<Rightarrow> (io_error + u8 list) \<times> in_stream" where
  "read_exact n s =
     (if n \<le> length (avail s) then (Inr (take n (avail s)), s\<lparr>avail := drop n (avail s)\<rparr>)
      else (Inl (in_end s), s\<lparr>avail := []\<rparr>))"

definition write_all :: "u8 list \<Rightarrow> out_stream \<Rightarrow> (io_error + unit) \<times> out_stream" where
  "write_all bs s =
     (case room s of
        None \<Rightarrow> (Inr (), s\<lparr>written := written s @ bs\<rparr>)
      | Some r \<Rightarrow>
          if length bs \<le> r then
            (Inr (), s\<lparr>written := written s @ bs, room := Some (r - length bs)\<rparr>)
          else (Inl (out_end s), s\<lparr>written := written s @ take r bs, room := Some 0\<rparr>))"

section \<open>Reading and writing messages\<close>

definition max_message :: nat where
  "max_message = 10000000"

text \<open>
  The part of \<open>read_tcp_message\<close> before the text is parsed: length prefix, size limit,
  data, UTF-8.
\<close>

definition read_frame :: "in_stream \<Rightarrow> (parse_command_err + string) \<times> in_stream" where
  "read_frame s =
     (case read_exact 4 s of
        (Inl e, s1) \<Rightarrow> (Inl (ParseIo e), s1)
      | (Inr len_buf, s1) \<Rightarrow>
          let msg_len = unat (from_be_bytes len_buf) in
          if max_message < msg_len then (Inl MsgToBig, s1)
          else case read_exact msg_len s1 of
              (Inl e, s2) \<Rightarrow> (Inl (ParseIo e), s2)
            | (Inr data, s2) \<Rightarrow> (map_err Utf8Error (from_utf8 data), s2))"

definition read_tcp_message :: "in_stream \<Rightarrow> (parse_command_err + tcp_message) \<times> in_stream" where
  "read_tcp_message s =
     (case read_frame s of (r, s') \<Rightarrow> (and_then r tcp_from_string, s'))"

definition send_tcp_message ::
    "out_stream \<Rightarrow> tcp_message \<Rightarrow> (processor_error + unit) \<times> out_stream" where
  "send_tcp_message s msg =
     (let msg_bytes = as_bytes (tcp_to_string msg);
          len = word_of_nat (length msg_bytes) in
      case write_all (to_be_bytes len) s of
        (Inl e, s1) \<Rightarrow> (Inl (ProcIo e), s1)
      | (Inr _, s1) \<Rightarrow>
          case write_all msg_bytes s1 of
            (Inl e, s2) \<Rightarrow> (Inl (ProcIo e), s2)
          | (Inr _, s2) \<Rightarrow> (Inr (), s2))"

section \<open>The frame of a text\<close>

definition frame :: "string \<Rightarrow> u8 list" where
  "frame t = to_be_bytes (word_of_nat (length t)) @ as_bytes t"

lemma length_frame: "length (frame t) = 4 + length t"
  by (simp add: frame_def)

lemma unat_length_u32: "n < 2 ^ 32 \<Longrightarrow> unat (word_of_nat n :: u32) = n"
  by (rule unat_word_of_nat_small) simp

lemma write_all_unlimited [simp]:
  "room s = None \<Longrightarrow> write_all bs s = (Inr (), s\<lparr>written := written s @ bs\<rparr>)"
  by (simp add: write_all_def)

lemma send_unlimited:
  "room s = None \<Longrightarrow>
     send_tcp_message s m = (Inr (), s\<lparr>written := written s @ frame (tcp_to_string m)\<rparr>)"
  by (simp add: send_tcp_message_def frame_def Let_def)

text \<open>What a send leaves on the wire is always a prefix of the message's frame.\<close>

lemma write_all_prefix:
  "\<exists>k. written (snd (write_all bs s)) = written s @ take k bs
     \<and> (fst (write_all bs s) = Inr () \<longrightarrow> take k bs = bs)"
  by (cases "room s") (auto simp: write_all_def intro: exI [of _ "length bs"])

lemma read_frame_whole:
  assumes "avail s = frame t @ rest" "valid_str t" "length t \<le> max_message"
  shows "read_frame s = (Inr t, s\<lparr>avail := rest\<rparr>)"
proof -
  have "length t < 2 ^ 32" using assms(3) by (simp add: max_message_def)
  then have "unat (from_be_bytes (to_be_bytes (word_of_nat (length t)))) = length t"
    by (simp only: from_to_be_bytes unat_length_u32)
  with assms show ?thesis
    by (simp add: read_frame_def read_exact_def frame_def from_utf8_as_bytes)
qed

lemma read_frame_too_big:
  assumes "avail s = frame t @ rest" "max_message < length t" "length t < 2 ^ 32"
  shows "read_frame s = (Inl MsgToBig, s\<lparr>avail := as_bytes t @ rest\<rparr>)"
proof -
  have "unat (from_be_bytes (to_be_bytes (word_of_nat (length t)))) = length t"
    using assms(3) by (simp only: from_to_be_bytes unat_length_u32)
  with assms show ?thesis
    by (simp add: read_frame_def read_exact_def frame_def)
qed

lemma read_frame_truncated:
  assumes "avail s = take k (frame t)" "k < length (frame t)" "length t \<le> max_message"
  shows "read_frame s = (Inl (ParseIo (in_end s)), s\<lparr>avail := []\<rparr>)"
proof (cases "k < 4")
  case True
  with assms show ?thesis
    by (simp add: read_frame_def read_exact_def length_frame)
next
  case False
  have "length t < 2 ^ 32" using assms(3) by (simp add: max_message_def)
  then have "unat (from_be_bytes (to_be_bytes (word_of_nat (length t)))) = length t"
    by (simp only: from_to_be_bytes unat_length_u32)
  moreover have "\<not> length t \<le> k - 4" using assms(2) False by (simp add: length_frame)
  ultimately show ?thesis
    using assms False by (simp add: read_frame_def read_exact_def frame_def Let_def)
qed

section \<open>Text protocols over frames\<close>

text \<open>
  What the framing needs of the messages it carries: a printer into valid UTF-8 and a
  parser that undoes it on the messages that may be sent.
\<close>

locale text_protocol =
  fixes print :: "'m \<Rightarrow> string"
    and parse :: "string \<Rightarrow> parse_command_err + 'm"
    and sendable :: "'m \<Rightarrow> bool"
  assumes parse_print: "sendable m \<Longrightarrow> parse (print m) = Inr m"
    and valid_print: "sendable m \<Longrightarrow> valid_str (print m)"
begin

lemma read_printed:
  assumes "sendable m" "length (print m) \<le> max_message" "avail s = frame (print m) @ rest"
  shows "(case read_frame s of (r, s') \<Rightarrow> (and_then r parse, s')) = (Inr m, s\<lparr>avail := rest\<rparr>)"
  using read_frame_whole [OF assms(3) valid_print [OF assms(1)] assms(2)] assms(1)
  by (simp add: parse_print)

end

interpretation tcp: text_protocol tcp_to_string tcp_from_string "\<lambda>m. tcp_wf m \<and> tcp_utf8 m"
  by unfold_locales (simp_all add: tcp_roundtrip valid_tcp_to_string)

lemma read_sent:
  assumes "tcp_wf m" "tcp_utf8 m" "length (tcp_to_string m) \<le> max_message"
    and "avail s = frame (tcp_to_string m) @ rest"
  shows "read_tcp_message s = (Inr m, s\<lparr>avail := rest\<rparr>)"
  using tcp.read_printed [of m s rest] assms by (simp add: read_tcp_message_def)

lemma send_failed:
  assumes "send_tcp_message s m = (Inl e, s')" "written s = []"
  shows "\<exists>k < length (frame (tcp_to_string m)). written s' = take k (frame (tcp_to_string m))"
proof -
  obtain r where r: "room s = Some r"
    using assms(1) by (cases "room s") (simp_all add: send_unlimited)
  show ?thesis
  proof (cases "r < 4")
    case True
    then have "written s' = take r (frame (tcp_to_string m))"
      using assms r by (auto simp: send_tcp_message_def write_all_def frame_def Let_def)
    with True show ?thesis by (auto simp: length_frame intro: exI [of _ r])
  next
    case False
    then have "r - 4 < length (tcp_to_string m)" and
      "written s' = to_be_bytes (word_of_nat (length (tcp_to_string m)))
         @ take (r - 4) (as_bytes (tcp_to_string m))"
      using assms r by (auto simp: send_tcp_message_def write_all_def Let_def split: if_splits)
    with False have "r < length (frame (tcp_to_string m)) \<and>
        written s' = take r (frame (tcp_to_string m))"
      by (simp add: frame_def)
    then show ?thesis by blast
  qed
qed

section \<open>Properties\<close>

text \<open>
  Claim C30. What one side sends, the other reads: on a connection that takes the bytes, a
  message the text format can carry, of at most 10 MB, is written completely, and reading
  those bytes returns that message and leaves exactly what was sent after it.
\<close>

theorem send_then_read:
  assumes "tcp_wf m" "tcp_utf8 m" "length (tcp_to_string m) \<le> max_message" "room out = None"
    and "written out = []"
  shows "fst (send_tcp_message out m) = Inr ()
    \<and> read_tcp_message \<lparr>avail = written (snd (send_tcp_message out m)) @ rest, in_end = e\<rparr>
        = (Inr m, \<lparr>avail = rest, in_end = e\<rparr>)"
proof -
  have "written (snd (send_tcp_message out m)) = frame (tcp_to_string m)"
    using assms by (simp add: send_unlimited)
  then show ?thesis
    using read_sent [of m "\<lparr>avail = frame (tcp_to_string m) @ rest, in_end = e\<rparr>" rest] assms
    by (simp add: send_unlimited)
qed

theorem send_then_read_witness:
  "fst (send_tcp_message \<lparr>written = [], room = None, out_end = IoError OtherKind None ''''\<rparr> (Err ''no|t''))
     = Inr ()
   \<and> read_tcp_message
       \<lparr>avail = written (snd (send_tcp_message
          \<lparr>written = [], room = None, out_end = IoError OtherKind None ''''\<rparr> (Err ''no|t''))) @ [7],
        in_end = IoError UnexpectedEof None ''''\<rparr>
     = (Inr (Err ''no|t''), \<lparr>avail = [7], in_end = IoError UnexpectedEof None ''''\<rparr>)"
proof (rule send_then_read)
  show "tcp_utf8 (Err ''no|t'')"
    unfolding tcp_utf8.simps by (rule valid_str_ascii) (simp add: is_ascii_def)
qed (simp_all add: max_message_def)

text \<open>
  A message longer than 10 MB (and short enough for its length to fit the 32-bit
  prefix) is sent without an error but never delivered: the reader rejects it from the
  prefix alone, before it reads any of the text.
\<close>

lemma oversized_message_rejected:
  assumes "max_message < length (tcp_to_string m)" "length (tcp_to_string m) < 2 ^ 32"
    and "room out = None" "written out = []"
  shows "fst (send_tcp_message out m) = Inr ()
    \<and> read_tcp_message \<lparr>avail = written (snd (send_tcp_message out m)), in_end = e\<rparr>
        = (Inl MsgToBig, \<lparr>avail = as_bytes (tcp_to_string m), in_end = e\<rparr>)"
  using assms read_frame_too_big
    [of "\<lparr>avail = frame (tcp_to_string m), in_end = e\<rparr>" "tcp_to_string m" "[]"]
  by (simp add: send_unlimited read_tcp_message_def)

lemma oversized_message_rejected_witness:
  "fst (send_tcp_message \<lparr>written = [], room = None, out_end = IoError OtherKind None ''''\<rparr>
      (Err (replicate 10999996 CHR ''x''))) = Inr ()
   \<and> read_tcp_message
       \<lparr>avail = written (snd (send_tcp_message
          \<lparr>written = [], room = None, out_end = IoError OtherKind None ''''\<rparr>
          (Err (replicate 10999996 CHR ''x'')))),
        in_end = IoError UnexpectedEof None ''''\<rparr>
     = (Inl MsgToBig,
        \<lparr>avail = as_bytes (tcp_to_string (Err (replicate 10999996 CHR ''x''))),
         in_end = IoError UnexpectedEof None ''''\<rparr>)"
  by (rule oversized_message_rejected) (simp_all add: max_message_def)

text \<open>
  An interrupted send is never mistaken for a message: if writing fails part of
  the way, a peer that gets exactly the bytes written and then the end of the connection
  sees the error that ended it.
\<close>

lemma interrupted_send_detected:
  assumes "send_tcp_message out m = (Inl err, out')" "written out = []"
    and "length (tcp_to_string m) \<le> max_message"
  shows "read_tcp_message \<lparr>avail = written out', in_end = e\<rparr>
    = (Inl (ParseIo e), \<lparr>avail = [], in_end = e\<rparr>)"
proof -
  obtain k where "k < length (frame (tcp_to_string m))" "written out' = take k (frame (tcp_to_string m))"
    using send_failed [OF assms(1,2)] by blast
  then show ?thesis
    using read_frame_truncated [of "\<lparr>avail = written out', in_end = e\<rparr>"] assms(3)
    by (simp add: read_tcp_message_def)
qed

text \<open>
  Claim C33. Whatever bytes arrive, a message that \<open>read_tcp_message\<close> returns is well typed:
  all its strings are valid UTF-8 (so no later \<open>String\<close> operation can go wrong), a command
  has at least one ticker, and no ticker contains one of the separators.
\<close>

theorem read_message_typed:
  "case fst (read_tcp_message s) of Inr m \<Rightarrow> tcp_wf m \<and> tcp_utf8 m | Inl _ \<Rightarrow> True"
proof (cases "fst (read_tcp_message s)")
  case (Inr m)
  then obtain str where str: "fst (read_frame s) = Inr str" "tcp_from_string str = Inr m"
    by (auto simp: read_tcp_message_def and_then_eq_Inr split: prod.splits)
  have "valid_str str"
    using str(1)
    by (auto simp: read_frame_def Let_def dest: valid_from_utf8 split: prod.splits sum.splits if_splits)
  with str show ?thesis using Inr tcp_from_string_wf tcp_from_string_valid by simp
qed simp

end
