(* ===== verification/Channel.thy ===== *)
theory Channel
  imports Prelude
begin

text \<open>
  \<open>std::sync::mpsc\<close> channels as the program uses them: one sender, one receiver, unbounded.
  Channels live in a store, at the address that both ends hold. A send fails when the
  receiver is gone; a receive takes the oldest message, and reports a disconnection only
  when the queue is empty and the sender is gone.
\<close>

record 'm channel =
  ch_queue :: "'m list"
  ch_tx :: bool
  ch_rx :: bool

type_synonym 'm channels = "nat \<rightharpoonup> 'm channel"

definition new_channel :: "'m channel" where
  "new_channel = \<lparr>ch_queue = [], ch_tx = True, ch_rx = True\<rparr>"

definition chan_send :: "'m channels \<Rightarrow> nat \<Rightarrow> 'm \<Rightarrow> (unit + unit) \<times> 'm channels" where
  "chan_send ch a m =
     (case ch a of
        None \<Rightarrow> (Inl (), ch)
      | Some c \<Rightarrow>
          if ch_rx c then (Inr (), ch(a \<mapsto> c\<lparr>ch_queue := ch_queue c @ [m]\<rparr>)) else (Inl (), ch))"

datatype 'm recv_result = Received 'm | RecvTimeout | RecvDisconnected

definition chan_recv :: "'m channels \<Rightarrow> nat \<Rightarrow> 'm recv_result \<times> 'm channels" where
  "chan_recv ch a =
     (case ch a of
        None \<Rightarrow> (RecvDisconnected, ch)
      | Some c \<Rightarrow>
          (case ch_queue c of
             m # ms \<Rightarrow> (Received m, ch(a \<mapsto> c\<lparr>ch_queue := ms\<rparr>))
           | [] \<Rightarrow> (if ch_tx c then (RecvTimeout, ch) else (RecvDisconnected, ch))))"

definition drop_sender :: "nat \<Rightarrow> 'm channels \<Rightarrow> 'm channels" where
  "drop_sender a ch = (case ch a of None \<Rightarrow> ch | Some c \<Rightarrow> ch(a \<mapsto> c\<lparr>ch_tx := False\<rparr>))"

definition drop_receiver :: "nat \<Rightarrow> 'm channels \<Rightarrow> 'm channels" where
  "drop_receiver a ch =
     (case ch a of None \<Rightarrow> ch | Some c \<Rightarrow> ch(a \<mapsto> c\<lparr>ch_rx := False, ch_queue := []\<rparr>))"

definition queue_at :: "'m channels \<Rightarrow> nat \<Rightarrow> 'm list" where
  "queue_at ch a = (case ch a of None \<Rightarrow> [] | Some c \<Rightarrow> ch_queue c)"

definition rx_alive :: "'m channels \<Rightarrow> nat \<Rightarrow> bool" where
  "rx_alive ch a = (case ch a of None \<Rightarrow> False | Some c \<Rightarrow> ch_rx c)"

definition tx_alive :: "'m channels \<Rightarrow> nat \<Rightarrow> bool" where
  "tx_alive ch a = (case ch a of None \<Rightarrow> False | Some c \<Rightarrow> ch_tx c)"

named_theorems channel \<open>what the channel operations do to the queue and to the two ends\<close>

lemma send_result [channel]: "fst (chan_send ch a m) = (if rx_alive ch a then Inr () else Inl ())"
  by (auto simp: chan_send_def rx_alive_def split: option.splits)

lemma send_queue [channel]:
  "queue_at (snd (chan_send ch a m)) b =
     (if b = a \<and> rx_alive ch a then queue_at ch b @ [m] else queue_at ch b)"
  by (auto simp: chan_send_def rx_alive_def queue_at_def split: option.splits)

lemma send_ends [channel]:
  "rx_alive (snd (chan_send ch a m)) b = rx_alive ch b"
  "tx_alive (snd (chan_send ch a m)) b = tx_alive ch b"
  by (auto simp: chan_send_def rx_alive_def tx_alive_def split: option.splits)

lemma recv_queue [channel]:
  "queue_at (snd (chan_recv ch a)) b = (if b = a then tl (queue_at ch b) else queue_at ch b)"
  by (auto simp: chan_recv_def queue_at_def split: option.splits list.splits)

lemma recv_ends [channel]:
  "rx_alive (snd (chan_recv ch a)) b = rx_alive ch b"
  "tx_alive (snd (chan_recv ch a)) b = tx_alive ch b"
  by (auto simp: chan_recv_def rx_alive_def tx_alive_def split: option.splits list.splits)

lemma recv_result [channel]:
  "fst (chan_recv ch a) =
     (case queue_at ch a of m # _ \<Rightarrow> Received m
      | [] \<Rightarrow> if tx_alive ch a then RecvTimeout else RecvDisconnected)"
  by (auto simp: chan_recv_def queue_at_def tx_alive_def split: option.splits list.splits)

lemma drop_sender_effect [channel]:
  "queue_at (drop_sender a ch) b = queue_at ch b"
  "rx_alive (drop_sender a ch) b = rx_alive ch b"
  "tx_alive (drop_sender a ch) b = (b \<noteq> a \<and> tx_alive ch b)"
  by (auto simp: drop_sender_def queue_at_def rx_alive_def tx_alive_def split: option.splits)

lemma drop_receiver_effect [channel]:
  "queue_at (drop_receiver a ch) b = (if b = a then [] else queue_at ch b)"
  "rx_alive (drop_receiver a ch) b = (b \<noteq> a \<and> rx_alive ch b)"
  "tx_alive (drop_receiver a ch) b = tx_alive ch b"
  by (auto simp: drop_receiver_def queue_at_def rx_alive_def tx_alive_def split: option.splits)

lemma new_channel_effect [channel]:
  "queue_at (ch(a \<mapsto> new_channel)) b = (if b = a then [] else queue_at ch b)"
  "rx_alive (ch(a \<mapsto> new_channel)) b = (b = a \<or> rx_alive ch b)"
  "tx_alive (ch(a \<mapsto> new_channel)) b = (b = a \<or> tx_alive ch b)"
  by (auto simp: new_channel_def queue_at_def rx_alive_def tx_alive_def)

end
