(* ===== verification/Generator.thy ===== *)
theory Generator
  imports Types Channel "HOL-Library.List_Lexorder" "HOL-Library.Char_ord"
begin

text \<open>
  \<open>server/src/generator.rs\<close>: the quote generator. Its three maps are a record; the
  \<open>Arc<RwLock<..>>\<close> around each is shared access to that record, and each function below
  runs as one step of a thread. Random numbers, the clock and the iteration order of hash
  sets are inputs.
\<close>

section \<open>Inputs from the outside\<close>

text \<open>
  \<open>rand::Rng::random_range\<close> for \<open>lo..hi\<close> and \<open>lo..=hi\<close>: the crate promises a value in the
  range, when the range is not empty.
\<close>

record rng =
  range_f64 :: "f64 \<Rightarrow> f64 \<Rightarrow> f64"
  range_f64_incl :: "f64 \<Rightarrow> f64 \<Rightarrow> f64"
  range_u32 :: "u32 \<Rightarrow> u32 \<Rightarrow> u32"

definition rng_ok :: "rng \<Rightarrow> bool" where
  "rng_ok r \<longleftrightarrow>
     (\<forall>lo hi. lo < hi \<longrightarrow> lo \<le> range_f64 r lo hi \<and> range_f64 r lo hi < hi)
     \<and> (\<forall>lo hi. lo \<le> hi \<longrightarrow> lo \<le> range_f64_incl r lo hi \<and> range_f64_incl r lo hi \<le> hi)
     \<and> (\<forall>lo hi. lo < hi \<longrightarrow> lo \<le> range_u32 r lo hi \<and> range_u32 r lo hi < hi)"

text \<open>
  The order in which a \<open>HashSet\<close> is iterated is not specified: any order that lists every
  element once.
\<close>

record hash_order =
  id_order :: "u64 set \<Rightarrow> u64 list"
  str_order :: "string set \<Rightarrow> string list"

definition hash_order_ok :: "hash_order \<Rightarrow> bool" where
  "hash_order_ok h \<longleftrightarrow>
     (\<forall>S. finite S \<longrightarrow> set (id_order h S) = S \<and> distinct (id_order h S))
     \<and> (\<forall>S. finite S \<longrightarrow> set (str_order h S) = S \<and> distinct (str_order h S))"

section \<open>State\<close>

record price_change =
  pc_price :: f64
  pc_last_change :: u64

record receiver_info =
  ri_channel :: nat
  ri_tickers :: "string set"

record quote_generator =
  prices :: "string \<rightharpoonup> price_change"
  receivers :: "u64 \<rightharpoonup> receiver_info"
  tickers_to_receivers :: "string \<rightharpoonup> u64 set"
  gen_shutdown :: bool

type_synonym quote_channels = "stock_quote channels"

section \<open>Prices\<close>

definition MAX_CHANGE_PERCENT :: f64 where
  "MAX_CHANGE_PERCENT = f64_lit 2 100"

definition MIN_PRICE :: f64 where
  "MIN_PRICE = f64_lit 1 100"

definition MAX_START_PRICE :: f64 where
  "MAX_START_PRICE = f64_lit 100 1"

definition generate_new_price :: "rng \<Rightarrow> f64 \<Rightarrow> f64" where
  "generate_new_price r previous_price =
     (let change_percent = range_f64_incl r (- MAX_CHANGE_PERCENT) MAX_CHANGE_PERCENT;
          new_price = previous_price * (1 + change_percent)
      in f64_max new_price MIN_PRICE)"

definition generate_initial_price :: "rng \<Rightarrow> f64" where
  "generate_initial_price r = range_f64 r MIN_PRICE MAX_START_PRICE"

section \<open>Construction\<close>

text \<open>The loop of \<open>QuoteGenerator::new\<close>; the \<open>i\<close>-th ticker draws its price from \<open>rngs i\<close>.\<close>

fun insert_tickers ::
    "(nat \<Rightarrow> rng) \<Rightarrow> nat \<Rightarrow> string list
      \<Rightarrow> (string \<rightharpoonup> price_change) \<times> (string \<rightharpoonup> u64 set)
      \<Rightarrow> (string \<rightharpoonup> price_change) \<times> (string \<rightharpoonup> u64 set)" where
  "insert_tickers rngs i [] maps = maps"
| "insert_tickers rngs i (t # ts) (ps, subs) =
     insert_tickers rngs (Suc i) ts
       (ps(t \<mapsto> \<lparr>pc_price = generate_initial_price (rngs i), pc_last_change = 0\<rparr>),
        subs(t \<mapsto> {}))"

definition new_generator :: "(nat \<Rightarrow> rng) \<Rightarrow> string list \<Rightarrow> quote_generator" where
  "new_generator rngs tickers =
     (case insert_tickers rngs 0 tickers (Map.empty, Map.empty) of (ps, subs) \<Rightarrow>
        \<lparr>prices = ps, receivers = Map.empty, tickers_to_receivers = subs, gen_shutdown = False\<rparr>)"

text \<open>
  \<open>new_from_file\<close>: the file is the error of opening it, or the bytes that can be read and
  the error, if any, that ends them.
\<close>

definition new_from_file ::
    "(nat \<Rightarrow> rng) \<Rightarrow> io_error + (u8 list \<times> io_error option)
      \<Rightarrow> generator_error + quote_generator" where
  "new_from_file rngs file =
     and_then (map_err GenIo file) (\<lambda>(bytes, rest).
     and_then (map_err GenIo (collect_results (buf_lines bytes rest))) (\<lambda>ls.
     Inr (new_generator rngs (filter (\<lambda>x. x \<noteq> []) (map trim ls)))))"

text \<open>The tickers that \<open>start\<close> spawns a thread for.\<close>

definition start_tickers :: "hash_order \<Rightarrow> quote_generator \<Rightarrow> string list" where
  "start_tickers h g = str_order h (dom (prices g))"

section \<open>Quotes\<close>

definition random_volume :: "rng \<Rightarrow> string \<Rightarrow> u32" where
  "random_volume r ticker =
     (if ticker = ''AAPL'' \<or> ticker = ''MSFT'' \<or> ticker = ''TSLA''
      then 1000 + range_u32 r 0 5000
      else 100 + range_u32 r 0 1000)"

definition generate_quote ::
    "rng \<Rightarrow> int \<Rightarrow> (string \<rightharpoonup> price_change) \<Rightarrow> string
      \<Rightarrow> (stock_quote option \<times> (string \<rightharpoonup> price_change)) outcome" where
  "generate_quote r now ps ticker =
     (case ps ticker of
        None \<Rightarrow> Value (None, ps)
      | Some last_data \<Rightarrow>
          let new_price = generate_new_price r (pc_price last_data) in
          (case unix_millis now of
             Panic \<Rightarrow> Panic
           | Value timestamp \<Rightarrow>
               let ps' = (case ps ticker of
                   Some data \<Rightarrow> ps(ticker \<mapsto> data\<lparr>pc_price := new_price, pc_last_change := timestamp\<rparr>)
                 | None \<Rightarrow> ps);
                   volume = random_volume r ticker in
               Value (Some \<lparr>q_ticker = ticker, q_price = new_price, q_volume = volume,
                            q_timestamp = timestamp\<rparr>, ps')))"

section \<open>Receivers\<close>

fun check_tickers :: "(string \<rightharpoonup> 'a) \<Rightarrow> string list \<Rightarrow> generator_error option" where
  "check_tickers m [] = None"
| "check_tickers m (t # ts) = (if m t = None then Some (TickerNotExists t) else check_tickers m ts)"

text \<open>
  The loops over the tickers at the end of \<open>add_receiver\<close>, where
  \<open>entry(ticker).or_default()\<close> creates a missing set, and of \<open>remove_receiver\<close>, where a
  ticker without a set is skipped.
\<close>

definition subscribe_to :: "u64 \<Rightarrow> string list \<Rightarrow> (string \<rightharpoonup> u64 set) \<Rightarrow> (string \<rightharpoonup> u64 set)" where
  "subscribe_to rid tickers subs =
     fold (\<lambda>t m. m(t \<mapsto> insert rid (case m t of None \<Rightarrow> {} | Some s \<Rightarrow> s))) tickers subs"

definition unsubscribe_from :: "u64 \<Rightarrow> string list \<Rightarrow> (string \<rightharpoonup> u64 set) \<Rightarrow> (string \<rightharpoonup> u64 set)" where
  "unsubscribe_from rid tickers subs =
     fold (\<lambda>t m. case m t of None \<Rightarrow> m | Some ids \<Rightarrow> m(t \<mapsto> ids - {rid})) tickers subs"

text \<open>\<open>HashMap::insert\<close> into \<open>receivers\<close> drops the entry it replaces, and its sender.\<close>

definition drop_replaced :: "(u64 \<rightharpoonup> receiver_info) \<Rightarrow> u64 \<Rightarrow> quote_channels \<Rightarrow> quote_channels" where
  "drop_replaced m rid ch = (case m rid of None \<Rightarrow> ch | Some info \<Rightarrow> drop_sender (ri_channel info) ch)"

definition add_receiver ::
    "u64 \<Rightarrow> nat \<Rightarrow> string list \<Rightarrow> quote_generator \<Rightarrow> quote_channels
      \<Rightarrow> (generator_error + unit) \<times> quote_generator \<times> quote_channels" where
  "add_receiver rid sender tickers g ch =
     (case check_tickers (tickers_to_receivers g) tickers of
        Some e \<Rightarrow> (Inl e, g, drop_sender sender ch)
      | None \<Rightarrow>
          let tickers_set = set tickers;
              recvs = (receivers g)(rid \<mapsto> \<lparr>ri_channel = sender, ri_tickers = tickers_set\<rparr>);
              ticker_subs = subscribe_to rid tickers (tickers_to_receivers g) in
          (Inr (), g\<lparr>receivers := recvs, tickers_to_receivers := ticker_subs\<rparr>,
           drop_replaced (receivers g) rid ch))"

definition remove_receiver ::
    "hash_order \<Rightarrow> u64 \<Rightarrow> quote_generator \<Rightarrow> quote_channels \<Rightarrow> quote_generator \<times> quote_channels" where
  "remove_receiver h rid g ch =
     (let tickers = (case receivers g rid of None \<Rightarrow> [] | Some info \<Rightarrow> str_order h (ri_tickers info));
          recvs = (receivers g)(rid := None);
          ticker_subs = unsubscribe_from rid tickers (tickers_to_receivers g) in
      (g\<lparr>receivers := recvs, tickers_to_receivers := ticker_subs\<rparr>,
       drop_replaced (receivers g) rid ch))"

section \<open>The ticker threads\<close>

fun distribute ::
    "stock_quote \<Rightarrow> (u64 \<rightharpoonup> receiver_info) \<Rightarrow> u64 list \<Rightarrow> quote_channels \<Rightarrow> u64 set
      \<Rightarrow> quote_channels \<times> u64 set" where
  "distribute q recvs [] ch dead = (ch, dead)"
| "distribute q recvs (rid # ids) ch dead =
     (case recvs rid of
        None \<Rightarrow> distribute q recvs ids ch dead
      | Some info \<Rightarrow>
          (case chan_send ch (ri_channel info) q of
             (Inr _, ch') \<Rightarrow> distribute q recvs ids ch' dead
           | (Inl _, ch') \<Rightarrow> distribute q recvs ids ch' (insert rid dead)))"

definition remove_all ::
    "hash_order \<Rightarrow> u64 list \<Rightarrow> quote_generator \<times> quote_channels \<Rightarrow> quote_generator \<times> quote_channels" where
  "remove_all h ids st = fold (\<lambda>rid (g, ch). remove_receiver h rid g ch) ids st"

record tick_env =
  te_rng :: rng
  te_now :: int
  te_order :: hash_order

text \<open>
  One iteration of the loop of \<open>start_for_quote\<close>, up to its sleep. \<open>dead_recv\<close> is the
  loop's own set.
\<close>

definition start_for_quote_step ::
    "string \<Rightarrow> quote_generator \<times> quote_channels \<times> u64 set \<Rightarrow> tick_env
      \<Rightarrow> (quote_generator \<times> quote_channels \<times> u64 set,
          thread_end \<times> quote_generator \<times> quote_channels) control" where
  "start_for_quote_step ticker st env =
     (case st of (g, ch, dead_recv) \<Rightarrow>
      if gen_shutdown g then Break (Returned, g, ch)
      else
        (case generate_quote (te_rng env) (te_now env) (prices g) ticker of
           Panic \<Rightarrow> Break (Panicked, g, ch)
         | Value (quote, ps) \<Rightarrow>
             let g1 = g\<lparr>prices := ps\<rparr>;
                 (ch1, dead1) =
                   (case quote of
                      None \<Rightarrow> (ch, dead_recv)
                    | Some q \<Rightarrow>
                        let receiver_ids = (case tickers_to_receivers g1 ticker of
                            None \<Rightarrow> [] | Some ids \<Rightarrow> id_order (te_order env) ids)
                        in distribute q (receivers g1) receiver_ids ch dead_recv) in
             if dead1 \<noteq> {} then
               (case remove_all (te_order env) (id_order (te_order env) dead1) (g1, ch1) of
                  (g2, ch2) \<Rightarrow> Continue (g2, ch2, {}))
             else Continue (g1, ch1, dead1)))"

definition start_for_quote ::
    "string \<Rightarrow> quote_generator \<Rightarrow> quote_channels \<Rightarrow> tick_env list
      \<Rightarrow> (quote_generator \<times> quote_channels \<times> u64 set,
          thread_end \<times> quote_generator \<times> quote_channels) control" where
  "start_for_quote ticker g ch envs = run_loop (start_for_quote_step ticker) (g, ch, {}) envs"

section \<open>The price walk\<close>

lemma MIN_PRICE_bits: "MIN_PRICE = F64 0x3F847AE147AE147B"
proof -
  have "round_mag (1 * f64_scale) 100 = 0x3F847AE147AE147B"
    by (rule round_mag_eqI [where s = 1015 and m = "0x147AE147AE147B"])
       (simp_all add: f64_scale_def inf_bits_def)
  then show ?thesis unfolding MIN_PRICE_def by (simp add: f64_lit_eqI)
qed

lemma MAX_CHANGE_bits: "MAX_CHANGE_PERCENT = F64 0x3F947AE147AE147B"
proof -
  have "round_mag (2 * f64_scale) 100 = 0x3F947AE147AE147B"
    by (rule round_mag_eqI [where s = 1016 and m = "0x147AE147AE147B"])
       (simp_all add: f64_scale_def inf_bits_def)
  then show ?thesis unfolding MAX_CHANGE_PERCENT_def by (simp add: f64_lit_eqI)
qed

lemma MAX_START_bits: "MAX_START_PRICE = F64 0x4059000000000000"
proof -
  have "round_mag (100 * f64_scale) 1 = 0x4059000000000000"
    by (rule round_mag_eqI [where s = 1028 and m = "0x19000000000000"])
       (simp_all add: f64_scale_def inf_bits_def)
  then show ?thesis unfolding MAX_START_PRICE_def by (simp add: f64_lit_eqI)
qed

lemma price_constants:
  "is_finite MIN_PRICE" "is_finite MAX_CHANGE_PERCENT" "is_finite MAX_START_PRICE"
  "\<not> is_negative MIN_PRICE" "\<not> is_negative MAX_CHANGE_PERCENT" "\<not> is_negative MAX_START_PRICE"
  "mag_bits MIN_PRICE = 0x3F847AE147AE147B" "mag_bits MAX_CHANGE_PERCENT = 0x3F947AE147AE147B"
  "mag_bits MAX_START_PRICE = 0x4059000000000000"
  by (simp_all add: is_finite_def F64_facts sign_bit_def inf_bits_def
      MIN_PRICE_bits MAX_CHANGE_bits MAX_START_bits)

text \<open>The extreme factors of one step: \<open>0.98\<close> and \<open>1.02\<close> as the code computes them.\<close>

lemma plus_max_change: "1 + MAX_CHANGE_PERCENT = F64 0x3FF051EB851EB852"
proof -
  let ?k = "mag 0x3FF0000000000000 + mag 0x3F947AE147AE147B"
  have r: "round_mag ?k 1 = 0x3FF051EB851EB852"
    by (rule round_mag_eqI [where s = 1022 and m = "0x1051EB851EB852"])
       (simp_all add: mag_def inf_bits_def)
  have "1 + MAX_CHANGE_PERCENT = f64_of False (round_mag ?k 1)"
    by (rule plus_pos) (simp_all add: f64_key_nonneg price_constants f64_one mag_def f64_scale_def)
  then show ?thesis unfolding r by (simp add: f64_of_def)
qed

lemma minus_max_change: "1 - MAX_CHANGE_PERCENT = F64 0x3FEF5C28F5C28F5C"
proof -
  let ?k = "mag 0x3FF0000000000000 - mag 0x3F947AE147AE147B"
  have r: "round_mag ?k 1 = 0x3FEF5C28F5C28F5C"
    by (rule round_mag_eqI [where s = 1021 and m = "0x1F5C28F5C28F5C"])
       (simp_all add: mag_def inf_bits_def)
  have "1 - MAX_CHANGE_PERCENT = f64_of False (round_mag ?k 1)"
    unfolding minus_f64_def
    by (rule plus_pos) (simp_all add: f64_key_nonneg price_constants f64_one mag_def f64_scale_def)
  then show ?thesis unfolding r by (simp add: f64_of_def)
qed

lemmas change_bits = plus_max_change minus_max_change F64_facts sign_bit_def inf_bits_def is_finite_def

lemma change_factors:
  "is_finite (1 + MAX_CHANGE_PERCENT)" "is_finite (1 - MAX_CHANGE_PERCENT)"
  "\<not> is_negative (1 + MAX_CHANGE_PERCENT)" "\<not> is_negative (1 - MAX_CHANGE_PERCENT)"
  by (simp_all add: change_bits)

text \<open>The factor of one step: whatever is drawn, it lies between the extremes.\<close>

lemma change_factor:
  assumes "rng_ok r" and c: "c = range_f64_incl r (- MAX_CHANGE_PERCENT) MAX_CHANGE_PERCENT"
  shows "is_finite (1 + c)" "\<not> is_negative (1 + c)"
    "1 - MAX_CHANGE_PERCENT \<le> 1 + c" "1 + c \<le> 1 + MAX_CHANGE_PERCENT"
proof -
  have "- MAX_CHANGE_PERCENT \<le> MAX_CHANGE_PERCENT"
    using price_constants by (simp add: less_eq_f64_def is_nan_def is_finite_def f64_key_def)
  with assms have b: "- MAX_CHANGE_PERCENT \<le> c" "c \<le> MAX_CHANGE_PERCENT"
    by (simp_all add: rng_ok_def)
  then have fc: "is_finite c"
    by (rule f64_between_finite) (simp_all add: price_constants)
  show lo: "1 - MAX_CHANGE_PERCENT \<le> 1 + c"
    unfolding minus_f64_def by (rule plus_mono) (use b fc price_constants f64_one in simp_all)
  show hi: "1 + c \<le> 1 + MAX_CHANGE_PERCENT"
    by (rule plus_mono) (use b fc price_constants f64_one in simp_all)
  show "is_finite (1 + c)"
    using lo hi by (rule f64_between_finite) (simp_all add: change_factors)
  have "0 < f64_key (1 - MAX_CHANGE_PERCENT)"
    by (simp add: f64_key_def change_bits mag_def)
  with lo have "0 < f64_key (1 + c)" by (simp add: less_eq_f64_def)
  then show "\<not> is_negative (1 + c)" by (rule f64_key_pos)
qed

lemma min_price_positive: "MIN_PRICE \<le> p \<Longrightarrow> \<not> is_negative p"
proof -
  assume "MIN_PRICE \<le> p"
  moreover have "0 < f64_key MIN_PRICE" by (simp add: f64_key_def price_constants mag_def)
  ultimately have "0 < f64_key p" by (simp add: less_eq_f64_def)
  then show ?thesis by (rule f64_key_pos)
qed

lemma price_le_max_factor:
  assumes "is_finite p" "\<not> is_negative p"
  shows "p \<le> p * (1 + MAX_CHANGE_PERCENT)"
proof -
  have "1 \<le> 1 + MAX_CHANGE_PERCENT"
    by (simp add: less_eq_f64_def is_nan_def change_bits f64_key_def f64_one mag_def f64_scale_def)
  then have "p * 1 \<le> p * (1 + MAX_CHANGE_PERCENT)"
    using assms by (intro times_mono) (simp_all add: change_factors f64_one)
  with assms show ?thesis by (simp add: times_one)
qed

lemma new_price_bounds:
  assumes "rng_ok r" "is_finite p" "MIN_PRICE \<le> p"
  shows "p * (1 - MAX_CHANGE_PERCENT) \<le> generate_new_price r p
    \<and> generate_new_price r p \<le> p * (1 + MAX_CHANGE_PERCENT)
    \<and> MIN_PRICE \<le> generate_new_price r p"
proof -
  define c where "c = range_f64_incl r (- MAX_CHANGE_PERCENT) MAX_CHANGE_PERCENT"
  note f = change_factor [OF assms(1) c_def]
  have new: "generate_new_price r p = f64_max (p * (1 + c)) MIN_PRICE"
    by (simp add: generate_new_price_def c_def Let_def)
  have pos: "\<not> is_negative p" using assms(3) by (rule min_price_positive)
  have "p * (1 - MAX_CHANGE_PERCENT) \<le> p * (1 + c)" "p * (1 + c) \<le> p * (1 + MAX_CHANGE_PERCENT)"
    using f assms(2) pos change_factors by (intro times_mono; simp)+
  moreover have "MIN_PRICE \<le> p * (1 + MAX_CHANGE_PERCENT)"
    using assms(3) price_le_max_factor [OF assms(2) pos] by (rule f64_le_trans)
  moreover have "p * (1 + c) \<le> generate_new_price r p" "MIN_PRICE \<le> generate_new_price r p"
    unfolding new using f assms(2) price_constants
    by (simp_all add: f64_max_ge f64_max_ge_left key_times finite_not_nan)
  ultimately show ?thesis
    unfolding new by (blast intro: f64_le_trans f64_max_le)
qed

section \<open>The registry of receivers\<close>

text \<open>
  The two maps state the same subscriptions twice: a receiver lists its tickers, a ticker
  lists its receivers. \<open>registry_inv\<close> says that they agree, and that every set is finite.
\<close>

definition subscribed :: "quote_generator \<Rightarrow> u64 \<Rightarrow> string \<Rightarrow> bool" where
  "subscribed g rid t \<longleftrightarrow>
     (case receivers g rid of None \<Rightarrow> False | Some info \<Rightarrow> t \<in> ri_tickers info)"

definition listed :: "quote_generator \<Rightarrow> u64 \<Rightarrow> string \<Rightarrow> bool" where
  "listed g rid t \<longleftrightarrow>
     (case tickers_to_receivers g t of None \<Rightarrow> False | Some ids \<Rightarrow> rid \<in> ids)"

definition registry_inv :: "quote_generator \<Rightarrow> bool" where
  "registry_inv g \<longleftrightarrow>
     (\<forall>rid t. subscribed g rid t \<longleftrightarrow> listed g rid t)
     \<and> (\<forall>rid info. receivers g rid = Some info \<longrightarrow> finite (ri_tickers info))
     \<and> (\<forall>t ids. tickers_to_receivers g t = Some ids \<longrightarrow> finite ids)
     \<and> dom (prices g) = dom (tickers_to_receivers g)"

lemma subscribe_to_apply:
  "subscribe_to rid ts m t =
     (if t \<in> set ts then Some (insert rid (case m t of None \<Rightarrow> {} | Some s \<Rightarrow> s)) else m t)"
  unfolding subscribe_to_def by (induction ts arbitrary: m) auto

lemma unsubscribe_from_apply:
  "unsubscribe_from rid ts m t =
     (if t \<in> set ts then map_option (\<lambda>ids. ids - {rid}) (m t) else m t)"
  unfolding unsubscribe_from_def
  by (induction ts arbitrary: m) (auto split: option.splits)

lemma check_tickers_None: "check_tickers m ts = None \<longleftrightarrow> (\<forall>t \<in> set ts. m t \<noteq> None)"
  by (induction ts) auto

lemma check_tickers_find: "check_tickers m ts = map_option TickerNotExists (find (\<lambda>t. m t = None) ts)"
  by (induction ts) auto

lemma add_receiver_ok:
  assumes "\<forall>t \<in> set ts. tickers_to_receivers g t \<noteq> None"
  shows "add_receiver rid a ts g ch =
    (Inr (), g\<lparr>receivers := (receivers g)(rid \<mapsto> \<lparr>ri_channel = a, ri_tickers = set ts\<rparr>),
               tickers_to_receivers := subscribe_to rid ts (tickers_to_receivers g)\<rparr>,
     drop_replaced (receivers g) rid ch)"
  by (simp add: add_receiver_def check_tickers_None [THEN iffD2, OF assms] Let_def)

lemma add_receiver_unknown:
  "check_tickers (tickers_to_receivers g) ts = Some e \<Longrightarrow>
     add_receiver rid a ts g ch = (Inl e, g, drop_sender a ch)"
  by (simp add: add_receiver_def)

lemma add_receiver_cases:
  obtains (unknown) e where "check_tickers (tickers_to_receivers g) ts = Some e"
      "add_receiver rid a ts g ch = (Inl e, g, drop_sender a ch)"
  | (ok) "\<forall>t \<in> set ts. tickers_to_receivers g t \<noteq> None"
      "add_receiver rid a ts g ch =
        (Inr (), g\<lparr>receivers := (receivers g)(rid \<mapsto> \<lparr>ri_channel = a, ri_tickers = set ts\<rparr>),
               tickers_to_receivers := subscribe_to rid ts (tickers_to_receivers g)\<rparr>,
     drop_replaced (receivers g) rid ch)"
proof (cases "check_tickers (tickers_to_receivers g) ts")
  case None
  then have known: "\<forall>t \<in> set ts. tickers_to_receivers g t \<noteq> None" by (simp only: check_tickers_None)
  from ok [OF known add_receiver_ok [OF known]] show thesis .
next
  case (Some e)
  from unknown [OF this add_receiver_unknown [OF this]] show thesis .
qed

lemma add_receiver_inv:
  assumes inv: "registry_inv g" and fresh: "receivers g rid = None"
  shows "registry_inv (fst (snd (add_receiver rid a ts g ch)))"
proof (cases rule: add_receiver_cases [of g ts rid a ch])
  case (unknown e)
  with inv show ?thesis by simp
next
  case ok
  have "subscribed g rid t \<longleftrightarrow> listed g rid t" for t
    using inv by (simp add: registry_inv_def)
  then have not_listed: "\<not> listed g rid t" for t
    using fresh by (simp add: subscribed_def)
  let ?g = "g\<lparr>receivers := (receivers g)(rid \<mapsto> \<lparr>ri_channel = a, ri_tickers = set ts\<rparr>),
               tickers_to_receivers := subscribe_to rid ts (tickers_to_receivers g)\<rparr>"
  have "subscribed ?g i t \<longleftrightarrow> listed ?g i t" for i t
    using inv not_listed [of t]
    by (cases "i = rid"; cases "t \<in> set ts"; cases "tickers_to_receivers g t")
       (auto simp: registry_inv_def subscribed_def listed_def subscribe_to_apply)
  moreover have "dom (subscribe_to rid ts (tickers_to_receivers g)) = dom (tickers_to_receivers g)"
    using ok(1) by (auto simp: dom_def subscribe_to_apply split: if_splits)
  moreover have "finite ids" if "subscribe_to rid ts (tickers_to_receivers g) t = Some ids" for t ids
    using that inv by (auto simp: registry_inv_def subscribe_to_apply split: if_splits option.splits)
  ultimately show ?thesis
    using ok(2) inv by (auto simp: registry_inv_def)
qed

lemma remove_receiver_gen:
  "fst (remove_receiver h rid g ch) = g\<lparr>receivers := (receivers g)(rid := None),
     tickers_to_receivers := unsubscribe_from rid
       (case receivers g rid of None \<Rightarrow> [] | Some info \<Rightarrow> str_order h (ri_tickers info))
       (tickers_to_receivers g)\<rparr>"
  "snd (remove_receiver h rid g ch) = drop_replaced (receivers g) rid ch"
  by (simp_all add: remove_receiver_def Let_def)

text \<open>Removing a receiver, under the invariant, removes exactly its subscriptions.\<close>

lemma remove_receiver_effect:
  assumes "registry_inv g" "hash_order_ok h"
  shows "subscribed (fst (remove_receiver h rid g ch)) i t = (i \<noteq> rid \<and> subscribed g i t)"
    and "listed (fst (remove_receiver h rid g ch)) i t = (i \<noteq> rid \<and> listed g i t)"
    and "receivers (fst (remove_receiver h rid g ch)) = (receivers g)(rid := None)"
    and "prices (fst (remove_receiver h rid g ch)) = prices g"
    and "gen_shutdown (fst (remove_receiver h rid g ch)) = gen_shutdown g"
    and "dom (tickers_to_receivers (fst (remove_receiver h rid g ch))) = dom (tickers_to_receivers g)"
proof -
  show "subscribed (fst (remove_receiver h rid g ch)) i t = (i \<noteq> rid \<and> subscribed g i t)"
    by (simp add: remove_receiver_gen subscribed_def)
  have sub: "subscribed g rid t \<longleftrightarrow> listed g rid t" using assms(1) by (simp add: registry_inv_def)
  show "listed (fst (remove_receiver h rid g ch)) i t = (i \<noteq> rid \<and> listed g i t)"
  proof (cases "receivers g rid")
    case None
    with sub show ?thesis
      by (auto simp: remove_receiver_gen listed_def subscribed_def unsubscribe_from_apply)
  next
    case (Some info)
    then have "set (str_order h (ri_tickers info)) = ri_tickers info"
      using assms by (auto simp: registry_inv_def hash_order_ok_def)
    with Some sub show ?thesis
      by (cases "tickers_to_receivers g t")
         (auto simp: remove_receiver_gen listed_def subscribed_def unsubscribe_from_apply)
  qed
qed (auto simp: remove_receiver_gen unsubscribe_from_apply dom_def split: if_splits)

lemma remove_receiver_inv:
  assumes "registry_inv g" "hash_order_ok h"
  shows "registry_inv (fst (remove_receiver h rid g ch))"
proof -
  have "finite ids" if "tickers_to_receivers (fst (remove_receiver h rid g ch)) t = Some ids" for t ids
    using that assms(1)
    by (auto simp: remove_receiver_gen unsubscribe_from_apply registry_inv_def split: if_splits)
  then show ?thesis
    using assms by (auto simp: registry_inv_def remove_receiver_effect split: if_splits)
qed

section \<open>The registry interface\<close>

text \<open>
  What the processor relies on: subscriptions as a relation between subscriber ids and
  tickers, which adding and removing a subscriber change in the obvious way. \<open>'h\<close> is
  the iteration order of a removal, \<open>'a\<close> the sender handed over by an addition.
\<close>

locale subscription_registry =
  fixes inv :: "'g \<Rightarrow> bool"
    and known :: "'g \<Rightarrow> string \<Rightarrow> bool"
    and present :: "'g \<Rightarrow> u64 \<Rightarrow> bool"
    and subs :: "'g \<Rightarrow> u64 \<Rightarrow> string \<Rightarrow> bool"
    and add :: "'a \<Rightarrow> u64 \<Rightarrow> string list \<Rightarrow> 'g \<Rightarrow> generator_error + 'g"
    and order_ok :: "'h \<Rightarrow> bool"
    and remove :: "'h \<Rightarrow> u64 \<Rightarrow> 'g \<Rightarrow> 'g"
  assumes absent: "inv g \<Longrightarrow> \<not> present g i \<Longrightarrow> \<not> subs g i t"
    and add_ok: "inv g \<Longrightarrow> \<not> present g i \<Longrightarrow> add a i ts g = Inr g' \<Longrightarrow>
      inv g' \<and> subs g' j t = (if j = i then t \<in> set ts else subs g j t)
      \<and> present g' j = (j = i \<or> present g j) \<and> known g' t = known g t"
    and add_accepts: "(\<exists>g'. add a i ts g = Inr g') \<longleftrightarrow> (\<forall>t \<in> set ts. known g t)"
    and remove_ok: "inv g \<Longrightarrow> order_ok h \<Longrightarrow>
      inv (remove h i g) \<and> subs (remove h i g) j t = (j \<noteq> i \<and> subs g j t)
      \<and> present (remove h i g) j = (j \<noteq> i \<and> present g j)
      \<and> known (remove h i g) t = known g t"
begin

lemma add_then_remove:
  assumes "inv g" "\<not> present g i" "add a i ts g = Inr g'" "order_ok h"
  shows "inv (remove h i g') \<and> subs (remove h i g') = subs g
    \<and> present (remove h i g') = present g \<and> known (remove h i g') = known g"
proof -
  have g': "inv g'" using add_ok [OF assms(1-3)] by blast
  show ?thesis
    using add_ok [OF assms(1-3)] remove_ok [OF g' assms(4)] absent [OF assms(1,2)] assms(2)
    by (auto simp: fun_eq_iff)
qed

lemma remove_list:
  assumes "inv g" "order_ok h"
  shows "inv (fold (remove h) is g)
    \<and> subs (fold (remove h) is g) j t = (j \<notin> set is \<and> subs g j t)
    \<and> present (fold (remove h) is g) j = (j \<notin> set is \<and> present g j)
    \<and> known (fold (remove h) is g) t = known g t"
  using assms(1)
proof (induction "is" arbitrary: g)
  case Nil
  then show ?case by simp
next
  case (Cons i "is")
  then show ?case using remove_ok [OF Cons.prems assms(2), of i] by auto
qed

end

definition reg_add ::
    "nat \<Rightarrow> u64 \<Rightarrow> string list \<Rightarrow> quote_generator \<times> quote_channels
      \<Rightarrow> generator_error + quote_generator \<times> quote_channels" where
  "reg_add a rid ts st =
     (case add_receiver rid a ts (fst st) (snd st) of (Inl e, _) \<Rightarrow> Inl e | (Inr _, st') \<Rightarrow> Inr st')"

definition reg_remove ::
    "hash_order \<Rightarrow> u64 \<Rightarrow> quote_generator \<times> quote_channels \<Rightarrow> quote_generator \<times> quote_channels" where
  "reg_remove h rid st = remove_receiver h rid (fst st) (snd st)"

lemma add_receiver_subs:
  assumes "registry_inv g" "receivers g rid = None" "add_receiver rid a ts g ch = (Inr (), g', ch')"
  shows "registry_inv g' \<and> subscribed g' i t = (if i = rid then t \<in> set ts else subscribed g i t)
    \<and> (receivers g' i \<noteq> None) = (i = rid \<or> receivers g i \<noteq> None)
    \<and> (tickers_to_receivers g' t \<noteq> None) = (tickers_to_receivers g t \<noteq> None)"
proof (cases rule: add_receiver_cases [of g ts rid a ch])
  case (unknown e)
  with assms show ?thesis by simp
next
  case ok
  then show ?thesis
    using assms(3) add_receiver_inv [OF assms(1,2), of a ts ch]
    by (auto simp: subscribed_def subscribe_to_apply split: if_splits)
qed

interpretation reg: subscription_registry
  "\<lambda>st. registry_inv (fst st)"
  "\<lambda>st t. tickers_to_receivers (fst st) t \<noteq> None"
  "\<lambda>st i. receivers (fst st) i \<noteq> None"
  "\<lambda>st. subscribed (fst st)"
  reg_add hash_order_ok reg_remove
proof (unfold_locales, goal_cases)
  case (1 st i t)
  then show ?case by (simp add: subscribed_def)
next
  case (2 st i a ts st' j t)
  then have "add_receiver i a ts (fst st) (snd st) = (Inr (), fst st', snd st')"
    by (auto simp: reg_add_def split: prod.splits sum.splits)
  with 2 show ?case using add_receiver_subs [of "fst st" i] by blast
next
  case (3 a i ts st)
  show ?case
    by (cases rule: add_receiver_cases [of "fst st" ts i a "snd st"])
       (auto simp: reg_add_def check_tickers_find find_Some_iff)
next
  case (4 st h i j t)
  then show ?case
    using remove_receiver_effect [of "fst st" h i "snd st"] remove_receiver_inv [of "fst st" h i "snd st"]
    by (auto simp: reg_remove_def dom_def)
qed

section \<open>Distribution of a quote\<close>

text \<open>No two receivers share a channel.\<close>

definition channels_distinct :: "quote_generator \<Rightarrow> bool" where
  "channels_distinct g \<longleftrightarrow>
     (\<forall>i j a b. receivers g i = Some a \<longrightarrow> receivers g j = Some b \<longrightarrow>
        ri_channel a = ri_channel b \<longrightarrow> i = j)"

definition to_channel :: "(u64 \<rightharpoonup> receiver_info) \<Rightarrow> u64 list \<Rightarrow> nat \<Rightarrow> bool" where
  "to_channel recvs ids a \<longleftrightarrow> (\<exists>i info. i \<in> set ids \<and> recvs i = Some info \<and> ri_channel info = a)"

lemma distribute_spec:
  assumes "distribute q recvs ids ch dead = (ch', dead')" "distinct ids"
    and "\<forall>i j a b. recvs i = Some a \<longrightarrow> recvs j = Some b \<longrightarrow> ri_channel a = ri_channel b \<longrightarrow> i = j"
  shows "queue_at ch' a =
      (if to_channel recvs ids a \<and> rx_alive ch a then queue_at ch a @ [q] else queue_at ch a)
    \<and> rx_alive ch' a = rx_alive ch a \<and> tx_alive ch' a = tx_alive ch a
    \<and> dead' = dead \<union> {i \<in> set ids. \<exists>info. recvs i = Some info \<and> \<not> rx_alive ch (ri_channel info)}"
  using assms(1,2)
proof (induction ids arbitrary: ch dead)
  case Nil
  then show ?case by (auto simp: to_channel_def)
next
  case (Cons i ids)
  show ?case
  proof (cases "recvs i")
    case None
    then show ?thesis using Cons by (auto simp: to_channel_def)
  next
    case (Some info)
    let ?c = "ri_channel info"
    have notin: "\<not> to_channel recvs ids ?c"
      using Cons.prems(2) assms(3) Some by (auto simp: to_channel_def)
    have here: "to_channel recvs (i # ids) a \<longleftrightarrow> a = ?c \<or> to_channel recvs ids a"
      using Some by (auto simp: to_channel_def)
    obtain r ch1 where send: "chan_send ch ?c q = (r, ch1)" by (cases "chan_send ch ?c q")
    note effect = send_queue [of ch ?c q a] send_ends [of ch ?c q] send_result [of ch ?c q]
    show ?thesis
    proof (cases "rx_alive ch ?c")
      case True
      with send effect have r: "r = Inr ()" by simp
      have "distribute q recvs ids ch1 dead = (ch', dead')"
        using Cons.prems(1) Some send r by simp
      from Cons.IH [OF this] Cons.prems(2) effect send True notin here Some
      show ?thesis by auto
    next
      case False
      with send effect have r: "r = Inl ()" by simp
      have "distribute q recvs ids ch1 (insert i dead) = (ch', dead')"
        using Cons.prems(1) Some send r by simp
      from Cons.IH [OF this] Cons.prems(2) effect send False notin here Some
      show ?thesis by auto
    qed
  qed
qed

section \<open>One tick\<close>

lemma generate_quote_cases:
  assumes "ps ticker = Some data" "0 \<le> now"
  shows "\<exists>q. generate_quote r now ps ticker = Value (Some q,
      ps(ticker \<mapsto> data\<lparr>pc_price := q_price q, pc_last_change := q_timestamp q\<rparr>))
    \<and> q_ticker q = ticker \<and> q_price q = generate_new_price r (pc_price data)
    \<and> q_volume q = random_volume r ticker \<and> q_timestamp q = word_of_int (now div 1000000)"
  using assms by (simp add: generate_quote_def unix_millis_def Let_def)

lemma generate_quote_absent: "ps ticker = None \<Longrightarrow> generate_quote r now ps ticker = Value (None, ps)"
  by (simp add: generate_quote_def)

lemma registry_frame [simp]:
  "subscribed (g\<lparr>prices := ps\<rparr>) = subscribed g" "listed (g\<lparr>prices := ps\<rparr>) = listed g"
  by (simp_all add: fun_eq_iff subscribed_def listed_def)

lemma registry_inv_prices:
  "registry_inv g \<Longrightarrow> dom ps = dom (prices g) \<Longrightarrow> registry_inv (g\<lparr>prices := ps\<rparr>)"
  by (simp add: registry_inv_def)

lemma channels_distinct_remove:
  "channels_distinct g \<Longrightarrow> channels_distinct (fst (remove_receiver h rid g ch))"
  by (auto simp: channels_distinct_def remove_receiver_gen)

lemma drop_replaced_channel [channel]:
  "queue_at (drop_replaced m rid ch) a = queue_at ch a"
  "rx_alive (drop_replaced m rid ch) a = rx_alive ch a"
  by (auto simp: drop_replaced_def channel split: option.splits)

lemma remove_all_Cons:
  "remove_all h (i # is) st = remove_all h is (reg_remove h i st)"
  by (simp add: remove_all_def reg_remove_def split_beta)

lemma remove_all_fold: "remove_all h is st = fold (reg_remove h) is st"
proof -
  have "reg_remove h = (\<lambda>i (g, ch). remove_receiver h i g ch)"
    by (simp add: fun_eq_iff reg_remove_def split_beta)
  then show ?thesis by (simp add: remove_all_def)
qed

lemma remove_all_frame:
  "queue_at (snd (remove_all h is st)) a = queue_at (snd st) a
   \<and> rx_alive (snd (remove_all h is st)) a = rx_alive (snd st) a
   \<and> prices (fst (remove_all h is st)) = prices (fst st)
   \<and> gen_shutdown (fst (remove_all h is st)) = gen_shutdown (fst st)
   \<and> (channels_distinct (fst st) \<longrightarrow> channels_distinct (fst (remove_all h is st)))"
proof (induction "is" arbitrary: st)
  case Nil
  then show ?case by (simp add: remove_all_def)
next
  case (Cons i "is")
  have "channels_distinct (fst st) \<longrightarrow> channels_distinct (fst (reg_remove h i st))"
    by (simp add: reg_remove_def channels_distinct_remove)
  moreover have "queue_at (snd (reg_remove h i st)) a = queue_at (snd st) a"
    "rx_alive (snd (reg_remove h i st)) a = rx_alive (snd st) a"
    "prices (fst (reg_remove h i st)) = prices (fst st)"
    "gen_shutdown (fst (reg_remove h i st)) = gen_shutdown (fst st)"
    by (simp_all add: reg_remove_def remove_receiver_gen channel)
  ultimately show ?case
    using Cons [of "reg_remove h i st"] by (simp add: remove_all_Cons)
qed

lemma remove_all_receivers:
  "receivers (fst (remove_all h is st)) j = (if j \<in> set is then None else receivers (fst st) j)
   \<and> (tx_alive (snd (remove_all h is st)) a \<longleftrightarrow> tx_alive (snd st) a
        \<and> (\<forall>i \<in> set is. \<forall>info. receivers (fst st) i = Some info \<longrightarrow> ri_channel info \<noteq> a))"
proof (induction "is" arbitrary: st)
  case Nil
  then show ?case by (simp add: remove_all_def)
next
  case (Cons i "is")
  have "receivers (fst (reg_remove h i st)) = (receivers (fst st))(i := None)"
    "tx_alive (snd (reg_remove h i st)) a \<longleftrightarrow> tx_alive (snd st) a
      \<and> (\<forall>info. receivers (fst st) i = Some info \<longrightarrow> ri_channel info \<noteq> a)"
    by (auto simp: reg_remove_def remove_receiver_gen drop_replaced_def drop_sender_effect split: option.splits)
  then show ?case
    using Cons [of "reg_remove h i st"] by (auto simp: remove_all_Cons)
qed

text \<open>The receivers whose thread is gone, among the subscribers of a ticker.\<close>

definition dead_subscriber :: "quote_generator \<Rightarrow> quote_channels \<Rightarrow> string \<Rightarrow> u64 \<Rightarrow> bool" where
  "dead_subscriber g ch t i \<longleftrightarrow>
     (case receivers g i of None \<Rightarrow> False
      | Some info \<Rightarrow> t \<in> ri_tickers info \<and> \<not> rx_alive ch (ri_channel info))"

lemma tick_step:
  assumes inv: "registry_inv g" "channels_distinct g" and h: "hash_order_ok (te_order env)"
    and run: "\<not> gen_shutdown g" "prices g t = Some data" "0 \<le> te_now env"
  shows "\<exists>q g' ch'. start_for_quote_step t (g, ch, {}) env = Continue (g', ch', {})
    \<and> generate_quote (te_rng env) (te_now env) (prices g) t = Value (Some q, prices g')
    \<and> q_ticker q = t \<and> q_price q = generate_new_price (te_rng env) (pc_price data)
    \<and> prices g' = (prices g)(t \<mapsto> data\<lparr>pc_price := q_price q, pc_last_change := q_timestamp q\<rparr>)
    \<and> registry_inv g' \<and> channels_distinct g' \<and> gen_shutdown g' = gen_shutdown g
    \<and> (\<forall>a. queue_at ch' a = (if (\<exists>i info. receivers g i = Some info \<and> t \<in> ri_tickers info
          \<and> ri_channel info = a) \<and> rx_alive ch a then queue_at ch a @ [q] else queue_at ch a))
    \<and> (\<forall>a. rx_alive ch' a = rx_alive ch a)
    \<and> (\<forall>i u. subscribed g' i u = (\<not> dead_subscriber g ch t i \<and> subscribed g i u))
    \<and> (\<forall>i. receivers g' i = (if dead_subscriber g ch t i then None else receivers g i))
    \<and> (\<forall>a. tx_alive ch' a \<longleftrightarrow> tx_alive ch a
         \<and> (\<forall>i info. dead_subscriber g ch t i \<longrightarrow> receivers g i = Some info \<longrightarrow> ri_channel info \<noteq> a))"
proof -
  define h where "h = te_order env"
  obtain q where q: "generate_quote (te_rng env) (te_now env) (prices g) t = Value (Some q,
      (prices g)(t \<mapsto> data\<lparr>pc_price := q_price q, pc_last_change := q_timestamp q\<rparr>))"
    "q_ticker q = t" "q_price q = generate_new_price (te_rng env) (pc_price data)"
    using generate_quote_cases [of "prices g" t data "te_now env" "te_rng env"] run by blast
  define g1 where "g1 = g\<lparr>prices := (prices g)(t \<mapsto> data\<lparr>pc_price := q_price q, pc_last_change := q_timestamp q\<rparr>)\<rparr>"
  have "t \<in> dom (tickers_to_receivers g)" using inv(1) run(2) by (auto simp: registry_inv_def)
  then obtain S where S: "tickers_to_receivers g t = Some S" by auto
  have order: "set (id_order h S) = S" "distinct (id_order h S)"
    using inv(1) S assms(3) by (auto simp: registry_inv_def hash_order_ok_def h_def)
  have "i \<in> S \<longleftrightarrow> subscribed g i t" for i
    using inv(1) S by (simp add: registry_inv_def listed_def)
  then have mem: "i \<in> S \<longleftrightarrow> (\<exists>info. receivers g i = Some info \<and> t \<in> ri_tickers info)" for i
    by (auto simp: subscribed_def split: option.splits)
  obtain ch1 dead1 where dist: "distribute q (receivers g) (id_order h S) ch {} = (ch1, dead1)"
    by (cases "distribute q (receivers g) (id_order h S) ch {}")
  note spec = distribute_spec [OF dist order(2) inv(2) [unfolded channels_distinct_def]]
  have dead1: "dead1 = {i. dead_subscriber g ch t i}"
    using spec order(1) mem by (auto simp: dead_subscriber_def split: option.splits)
  have fin: "finite dead1" using spec by simp
  have to: "to_channel (receivers g) (id_order h S) a \<longleftrightarrow>
      (\<exists>i info. receivers g i = Some info \<and> t \<in> ri_tickers info \<and> ri_channel info = a)" for a
    unfolding to_channel_def order(1) mem by (metis option.inject)
  define ids where "ids = id_order h dead1"
  have ids: "set ids = dead1" using fin assms(3) by (simp add: ids_def hash_order_ok_def h_def)
  define st' where "st' = remove_all h ids (g1, ch1)"
  have step: "start_for_quote_step t (g, ch, {}) env = Continue (fst st', snd st', {})"
  proof (cases "dead1 = {}")
    case True
    then have "st' = (g1, ch1)" using ids by (simp add: st'_def remove_all_def)
    with True show ?thesis
      using run(1) by (simp add: start_for_quote_step_def q(1) S dist h_def [symmetric] g1_def)
  next
    case False
    then show ?thesis
      using run(1) by (simp add: start_for_quote_step_def q(1) S dist h_def [symmetric] g1_def
          st'_def ids_def split: prod.splits)
  qed
  have inv1: "registry_inv g1"
    using inv(1) run(2) unfolding g1_def by (intro registry_inv_prices) auto
  have dist1: "channels_distinct g1" using inv(2) by (simp add: channels_distinct_def g1_def)
  note removed = reg.remove_list [of "(g1, ch1)" h ids, folded remove_all_fold, folded st'_def]
  note frame = remove_all_frame [of h ids "(g1, ch1)", folded st'_def]
  have "registry_inv (fst st')" and "subscribed (fst st') i u = (\<not> dead_subscriber g ch t i \<and> subscribed g i u)" for i u
    using removed [of i u] inv1 assms(3) by (simp_all add: h_def ids dead1 g1_def)
  moreover have "queue_at (snd st') a = (if (\<exists>i info. receivers g i = Some info \<and> t \<in> ri_tickers info
          \<and> ri_channel info = a) \<and> rx_alive ch a then queue_at ch a @ [q] else queue_at ch a)"
    "rx_alive (snd st') a = rx_alive ch a" for a
    using frame [of a] spec [of a] by (simp_all add: to)
  moreover have "channels_distinct (fst st')" "gen_shutdown (fst st') = gen_shutdown g"
    "prices (fst st') = (prices g)(t \<mapsto> data\<lparr>pc_price := q_price q, pc_last_change := q_timestamp q\<rparr>)"
    using frame dist1 by (simp_all add: g1_def)
  moreover have "receivers (fst st') i = (if dead_subscriber g ch t i then None else receivers g i)"
    "tx_alive (snd st') a \<longleftrightarrow> tx_alive ch a
      \<and> (\<forall>i info. dead_subscriber g ch t i \<longrightarrow> receivers g i = Some info \<longrightarrow> ri_channel info \<noteq> a)" for i a
    using remove_all_receivers [of h ids "(g1, ch1)" i a, folded st'_def] spec [of a]
    by (simp_all add: ids dead1 g1_def)
  ultimately show ?thesis
    using step q by (intro exI [of _ q] exI [of _ "fst st'"] exI [of _ "snd st'"]) (simp only: simp_thms)
qed

section \<open>Construction\<close>

lemma insert_tickers_apply:
  "dom (fst (insert_tickers rngs i ts (ps, subs))) = set ts \<union> dom ps"
  "snd (insert_tickers rngs i ts (ps, subs)) t = (if t \<in> set ts then Some {} else subs t)"
  by (induction ts arbitrary: i ps subs) auto

lemma insert_tickers_prices:
  "fst (insert_tickers rngs i ts (ps, subs)) t = Some pc \<Longrightarrow>
     ps t = Some pc \<or> (\<exists>k. pc = \<lparr>pc_price = generate_initial_price (rngs k), pc_last_change = 0\<rparr>)"
proof (induction ts arbitrary: i ps subs)
  case Nil
  then show ?case by simp
next
  case (Cons x ts)
  from Cons.IH [OF Cons.prems [unfolded insert_tickers.simps]] show ?case
    by (auto split: if_splits)
qed

lemma new_generator_fields:
  "receivers (new_generator rngs ts) = Map.empty" "gen_shutdown (new_generator rngs ts) = False"
  "prices (new_generator rngs ts) = fst (insert_tickers rngs 0 ts (Map.empty, Map.empty))"
  "tickers_to_receivers (new_generator rngs ts) = snd (insert_tickers rngs 0 ts (Map.empty, Map.empty))"
  by (simp_all add: new_generator_def split: prod.splits)

lemma new_generator_dom:
  "dom (prices (new_generator rngs ts)) = set ts"
  "tickers_to_receivers (new_generator rngs ts) t = (if t \<in> set ts then Some {} else None)"
  by (simp_all add: new_generator_fields insert_tickers_apply)

lemma new_generator_inv: "registry_inv (new_generator rngs ts)" "channels_distinct (new_generator rngs ts)"
  using new_generator_dom [of rngs ts]
  by (auto simp: registry_inv_def subscribed_def listed_def new_generator_fields(1) channels_distinct_def
      split: if_splits)

section \<open>Invariant of a ticker thread\<close>

definition prices_ok :: "quote_generator \<Rightarrow> bool" where
  "prices_ok g \<longleftrightarrow> (\<forall>t pc. prices g t = Some pc \<longrightarrow> MIN_PRICE \<le> pc_price pc)"

definition generator_ok :: "quote_generator \<Rightarrow> bool" where
  "generator_ok g \<longleftrightarrow> registry_inv g \<and> channels_distinct g \<and> prices_ok g"

lemma min_le_new_price: "MIN_PRICE \<le> generate_new_price r p"
  by (simp add: generate_new_price_def Let_def f64_max_ge price_constants finite_not_nan)

lemma tick_absent:
  "\<not> gen_shutdown g \<Longrightarrow> prices g t = None \<Longrightarrow>
     start_for_quote_step t (g, ch, {}) env = Continue (g, ch, {})"
  by (simp add: start_for_quote_step_def generate_quote_absent)

lemma tick_panic:
  "\<not> gen_shutdown g \<Longrightarrow> prices g t = Some data \<Longrightarrow> te_now env < 0 \<Longrightarrow>
     start_for_quote_step t (g, ch, {}) env = Break (Panicked, g, ch)"
  by (simp add: start_for_quote_step_def generate_quote_def unix_millis_def Let_def)

lemma tick_shutdown:
  "gen_shutdown g \<Longrightarrow> start_for_quote_step t (g, ch, d) env = Break (Returned, g, ch)"
  by (simp add: start_for_quote_step_def)

lemma tick_generator_ok:
  assumes "generator_ok g" "hash_order_ok (te_order env)"
    and "start_for_quote_step t (g, ch, {}) env = Continue (g', ch', d')"
  shows "generator_ok g' \<and> d' = {}"
proof -
  have run: "\<not> gen_shutdown g" using assms(3) tick_shutdown [of g t ch "{}" env] by auto
  show ?thesis
  proof (cases "prices g t")
    case None
    with run assms show ?thesis by (simp add: tick_absent)
  next
    case (Some data)
    then have now: "0 \<le> te_now env"
      using tick_panic [OF run Some, of env ch] assms(3) by force
    show ?thesis
      using tick_step [OF _ _ assms(2) run Some now, of ch] assms(1,3) Some
      by (auto simp: generator_ok_def prices_ok_def min_le_new_price split: if_splits)
  qed
qed

interpretation ticker_thread: event_loop "start_for_quote_step t"
  "\<lambda>env. hash_order_ok (te_order env)"
  "\<lambda>(g, ch, dead). generator_ok g \<and> dead = {}"
  "\<lambda>(r, g, ch). generator_ok g" for t
proof (unfold_locales, goal_cases)
  case (1 s e s')
  then show ?case using tick_generator_ok by (cases s; cases s') auto
next
  case (2 s e r)
  then obtain g ch where s: "s = (g, ch, {})" and ok: "generator_ok g" by (cases s) auto
  have "r = (Returned, g, ch) \<or> r = (Panicked, g, ch)"
  proof (cases "gen_shutdown g")
    case True
    with 2(3) s show ?thesis by (simp add: tick_shutdown)
  next
    case run: False
    obtain data where Some: "prices g t = Some data"
      using 2(3) s tick_absent [OF run, of t ch e] by (cases "prices g t") auto
    have "te_now e < 0"
    proof (rule ccontr)
      assume "\<not> te_now e < 0"
      then show False
        using tick_step [OF _ _ 2(2) run Some, of ch] ok 2(3) s by (auto simp: generator_ok_def)
    qed
    then show ?thesis using tick_panic [OF run Some, of e ch] 2(3) s by simp
  qed
  with ok show ?case by auto
qed

section \<open>Concrete inputs\<close>

text \<open>
  Inputs used by the examples: random numbers at the lower end of every range, and hash
  sets iterated in increasing order.
\<close>

definition low_rng :: rng where
  "low_rng = \<lparr>range_f64 = \<lambda>lo hi. lo, range_f64_incl = \<lambda>lo hi. lo, range_u32 = \<lambda>lo hi. lo\<rparr>"

definition sorted_order :: hash_order where
  "sorted_order = \<lparr>id_order = sorted_list_of_set, str_order = sorted_list_of_set\<rparr>"

abbreviation example_env :: tick_env where
  "example_env \<equiv> \<lparr>te_rng = low_rng, te_now = 5000000, te_order = sorted_order\<rparr>"

lemma low_rng_ok: "rng_ok low_rng"
  by (auto simp: rng_ok_def low_rng_def less_f64_def less_eq_f64_def)

lemma sorted_order_ok: "hash_order_ok sorted_order"
  by (simp add: hash_order_ok_def sorted_order_def)

definition example_generator :: quote_generator where
  "example_generator = new_generator (\<lambda>_. low_rng) [''AAPL'', ''XYZ'']"

lemma example_generator_facts:
  "registry_inv example_generator" "channels_distinct example_generator"
  "receivers example_generator = Map.empty"
  "tickers_to_receivers example_generator = [''AAPL'' \<mapsto> {}, ''XYZ'' \<mapsto> {}]"
  "prices example_generator =
     [''AAPL'' \<mapsto> \<lparr>pc_price = MIN_PRICE, pc_last_change = 0\<rparr>,
      ''XYZ'' \<mapsto> \<lparr>pc_price = MIN_PRICE, pc_last_change = 0\<rparr>]"
  "\<not> gen_shutdown example_generator"
  by (simp_all add: example_generator_def new_generator_inv new_generator_fields
      generate_initial_price_def low_rng_def)

section \<open>Properties\<close>

text \<open>
  What adding a receiver does, on every branch: if some requested ticker is not
  configured, the error names the first such ticker, no map changes and the sender is
  dropped; otherwise the new id is subscribed to exactly the requested tickers, every
  other receiver keeps its subscriptions, and the two maps still agree.
\<close>

lemma add_receiver_outcome:
  assumes "registry_inv g" "receivers g rid = None"
  shows "case find (\<lambda>t. tickers_to_receivers g t = None) ts of
      Some t \<Rightarrow> add_receiver rid a ts g ch = (Inl (TickerNotExists t), g, drop_sender a ch)
    | None \<Rightarrow> \<exists>g'. add_receiver rid a ts g ch = (Inr (), g', ch) \<and> registry_inv g'
        \<and> prices g' = prices g
        \<and> receivers g' = (receivers g)(rid \<mapsto> \<lparr>ri_channel = a, ri_tickers = set ts\<rparr>)
        \<and> (\<forall>i t. listed g' i t = (if i = rid then t \<in> set ts else listed g i t))"
proof (cases rule: add_receiver_cases [of g ts rid a ch])
  case (unknown e)
  then show ?thesis by (auto simp: check_tickers_find split: option.splits)
next
  case ok
  then have none: "find (\<lambda>t. tickers_to_receivers g t = None) ts = None"
    by (auto simp: find_None_iff)
  have "drop_replaced (receivers g) rid ch = ch" using assms(2) by (simp add: drop_replaced_def)
  with ok(2) have eq: "add_receiver rid a ts g ch =
      (Inr (), fst (snd (add_receiver rid a ts g ch)), ch)" by simp
  note facts = add_receiver_subs [OF assms eq]
  then have "listed (fst (snd (add_receiver rid a ts g ch))) i t =
      (if i = rid then t \<in> set ts else listed g i t)" for i t
    using assms(1) unfolding registry_inv_def by metis
  moreover have "prices (fst (snd (add_receiver rid a ts g ch))) = prices g"
    "receivers (fst (snd (add_receiver rid a ts g ch))) =
      (receivers g)(rid \<mapsto> \<lparr>ri_channel = a, ri_tickers = set ts\<rparr>)"
    using ok(2) by simp_all
  ultimately show ?thesis using eq facts by (auto simp: none)
qed

text \<open>
  Claim C19. One tick of a ticker's thread delivers one new quote of that ticker, with the
  price it stores: to the end of the queue of every receiver that is subscribed to the
  ticker and whose streaming thread still holds its end of the channel, and to no other
  queue. The subscribers whose end is gone, and only they, lose all their subscriptions,
  and the maps still agree afterwards.
\<close>

theorem tick_delivers:
  assumes "registry_inv g" "channels_distinct g" "hash_order_ok (te_order env)"
    and "\<not> gen_shutdown g" "prices g t = Some data" "0 \<le> te_now env"
  shows "\<exists>q g' ch'. start_for_quote_step t (g, ch, {}) env = Continue (g', ch', {})
    \<and> q_ticker q = t \<and> prices g' t = Some \<lparr>pc_price = q_price q, pc_last_change = q_timestamp q\<rparr>
    \<and> registry_inv g'
    \<and> (\<forall>i info. receivers g i = Some info \<longrightarrow> queue_at ch' (ri_channel info) =
         queue_at ch (ri_channel info)
           @ (if t \<in> ri_tickers info \<and> rx_alive ch (ri_channel info) then [q] else []))
    \<and> (\<forall>i u. subscribed g' i u = (\<not> dead_subscriber g ch t i \<and> subscribed g i u))"
proof -
  have "(\<exists>j b. receivers g j = Some b \<and> t \<in> ri_tickers b \<and> ri_channel b = ri_channel info)
      \<longleftrightarrow> t \<in> ri_tickers info" if "receivers g i = Some info" for i info
    using that assms(2) unfolding channels_distinct_def by (metis option.inject)
  moreover obtain q g' ch' where "start_for_quote_step t (g, ch, {}) env = Continue (g', ch', {})"
    "q_ticker q = t" "registry_inv g'"
    "prices g' = (prices g)(t \<mapsto> data\<lparr>pc_price := q_price q, pc_last_change := q_timestamp q\<rparr>)"
    "\<forall>a. queue_at ch' a = (if (\<exists>i info. receivers g i = Some info \<and> t \<in> ri_tickers info
          \<and> ri_channel info = a) \<and> rx_alive ch a then queue_at ch a @ [q] else queue_at ch a)"
    "\<forall>i u. subscribed g' i u = (\<not> dead_subscriber g ch t i \<and> subscribed g i u)"
    using tick_step [OF assms, of ch] by blast
  ultimately show ?thesis by (intro exI [of _ q] exI [of _ g'] exI [of _ ch']) auto
qed

theorem tick_delivers_witness:
  "\<exists>q g' ch'. start_for_quote_step ''XYZ''
      (example_generator\<lparr>receivers := [3 \<mapsto> \<lparr>ri_channel = 0, ri_tickers = {''XYZ''}\<rparr>],
         tickers_to_receivers := [''AAPL'' \<mapsto> {}, ''XYZ'' \<mapsto> {3}]\<rparr>, [0 \<mapsto> new_channel], {})
      \<lparr>te_rng = low_rng, te_now = 5000000, te_order = sorted_order\<rparr> = Continue (g', ch', {})
    \<and> queue_at ch' 0 = [q] \<and> q_ticker q = ''XYZ''"
proof -
  let ?g = "example_generator\<lparr>receivers := [3 \<mapsto> \<lparr>ri_channel = 0, ri_tickers = {''XYZ''}\<rparr>],
         tickers_to_receivers := [''AAPL'' \<mapsto> {}, ''XYZ'' \<mapsto> {3}]\<rparr>"
  let ?ch = "[0 \<mapsto> new_channel] :: quote_channels"
  let ?env = "\<lparr>te_rng = low_rng, te_now = 5000000, te_order = sorted_order\<rparr>"
  have inv: "registry_inv ?g" "channels_distinct ?g"
    by (auto simp: registry_inv_def channels_distinct_def subscribed_def listed_def
        example_generator_facts split: if_splits)
  have run: "\<not> gen_shutdown ?g" "prices ?g ''XYZ'' = Some \<lparr>pc_price = MIN_PRICE, pc_last_change = 0\<rparr>"
    "0 \<le> te_now ?env" "hash_order_ok (te_order ?env)"
    by (simp_all add: example_generator_facts sorted_order_ok)
  obtain q g' ch' where run: "start_for_quote_step ''XYZ'' (?g, ?ch, {}) ?env
      = Continue (g', ch', {})" "q_ticker q = ''XYZ''"
    and queues: "\<forall>i info. receivers ?g i = Some info \<longrightarrow> queue_at ch' (ri_channel info) =
         queue_at ?ch (ri_channel info)
           @ (if ''XYZ'' \<in> ri_tickers info \<and> rx_alive ?ch (ri_channel info) then [q] else [])"
    using tick_delivers [OF inv run(4,1-3), of "?ch"] by blast
  have "queue_at ch' 0 = [q]"
    using queues [rule_format, of 3 "\<lparr>ri_channel = 0, ri_tickers = {''XYZ''}\<rparr>"] by (simp add: channel)
  with run show ?thesis by blast
qed

text \<open>
  Whatever a ticker's thread goes through (any random numbers, any clock, any
  number of iterations, receivers that disappear, a panic of the clock, a shutdown), the
  generator it leaves has subscription maps that agree, a channel of its own for every
  receiver, and no price below \<open>MIN_PRICE\<close>.
\<close>

lemma ticker_thread_keeps_generator_ok:
  assumes "generator_ok g" "list_all (\<lambda>env. hash_order_ok (te_order env)) envs"
  shows "case start_for_quote t g ch envs of
      Continue (g', ch', dead) \<Rightarrow> generator_ok g' \<and> dead = {}
    | Break (end, g', ch') \<Rightarrow> generator_ok g'"
  using ticker_thread.run_continue [OF _ assms(2), of "(g, ch, {})"]
    ticker_thread.run_break [OF _ assms(2), of "(g, ch, {})"] assms(1)
  by (auto simp: start_for_quote_def split: control.splits prod.splits)

lemma initial_price_bounds:
  assumes "rng_ok r"
  shows "MIN_PRICE \<le> generate_initial_price r" "generate_initial_price r < MAX_START_PRICE"
proof -
  have "MIN_PRICE < MAX_START_PRICE"
    by (simp add: less_f64_def price_constants finite_not_nan f64_key_def mag_def)
  with assms show "MIN_PRICE \<le> generate_initial_price r" "generate_initial_price r < MAX_START_PRICE"
    by (simp_all add: rng_ok_def generate_initial_price_def)
qed

lemma new_generator_price:
  assumes "prices (new_generator rngs ts) t = Some pc"
  shows "\<exists>k. pc = \<lparr>pc_price = generate_initial_price (rngs k), pc_last_change = 0\<rparr>"
  using assms unfolding new_generator_fields by (drule_tac insert_tickers_prices) simp

lemma new_generator_generator_ok:
  assumes "\<forall>i. rng_ok (rngs i)"
  shows "generator_ok (new_generator rngs ts)"
proof -
  have "MIN_PRICE \<le> pc_price pc" if "prices (new_generator rngs ts) t = Some pc" for t pc
    using new_generator_price [OF that] assms initial_price_bounds(1) by force
  then show ?thesis by (simp add: generator_ok_def prices_ok_def new_generator_inv)
qed

text \<open>
  A new generator knows exactly the tickers it is given, has no receivers, keeps
  the invariant of its maps, and starts every price in \<open>[MIN_PRICE, MAX_START_PRICE)\<close>.
\<close>

lemma new_generator_ok:
  assumes "\<forall>i. rng_ok (rngs i)"
  shows "generator_ok (new_generator rngs ts) \<and> dom (prices (new_generator rngs ts)) = set ts
    \<and> receivers (new_generator rngs ts) = Map.empty
    \<and> (\<forall>t pc. prices (new_generator rngs ts) t = Some pc \<longrightarrow>
         MIN_PRICE \<le> pc_price pc \<and> pc_price pc < MAX_START_PRICE \<and> pc_last_change pc = 0)"
proof -
  have "\<forall>t pc. prices (new_generator rngs ts) t = Some pc \<longrightarrow>
      MIN_PRICE \<le> pc_price pc \<and> pc_price pc < MAX_START_PRICE \<and> pc_last_change pc = 0"
  proof (intro allI impI)
    fix t pc
    assume "prices (new_generator rngs ts) t = Some pc"
    then obtain k where "pc = \<lparr>pc_price = generate_initial_price (rngs k), pc_last_change = 0\<rparr>"
      using new_generator_price by blast
    then show "MIN_PRICE \<le> pc_price pc \<and> pc_price pc < MAX_START_PRICE \<and> pc_last_change pc = 0"
      using assms initial_price_bounds [of "rngs k"] by simp
  qed
  then show ?thesis
    using new_generator_generator_ok [OF assms]
    by (simp add: new_generator_dom new_generator_fields(1))
qed

lemma volume_in_band:
  assumes "rng_ok r"
  shows "if t \<in> {''AAPL'', ''MSFT'', ''TSLA''}
    then 1000 \<le> unat (random_volume r t) \<and> unat (random_volume r t) < 6000
    else 100 \<le> unat (random_volume r t) \<and> unat (random_volume r t) < 1100"
proof -
  have band: "c \<le> unat (word_of_nat c + range_u32 r 0 hi)
      \<and> unat (word_of_nat c + range_u32 r 0 hi) < c + unat hi"
    if "0 < hi" "c + unat hi < 2 ^ 32" for c hi
  proof -
    have x: "unat (range_u32 r 0 hi) < unat hi"
      using assms that(1) by (simp add: rng_ok_def word_less_nat_alt)
    have "unat (word_of_nat c + range_u32 r 0 hi) = c + unat (range_u32 r 0 hi)"
      using x that(2) by (simp add: unat_word_ariths unat_of_nat take_bit_nat_eq_self)
    with x show ?thesis by simp
  qed
  show ?thesis
    using band [of 5000 1000] band [of 1000 100] by (auto simp: random_volume_def)
qed

text \<open>
  Volumes stay in their bands: 1000 to 5999 for the three popular tickers, 100
  to 1099 for every other one; the 32-bit addition never wraps.
\<close>

lemma volume_band:
  assumes "rng_ok r"
  shows "if t \<in> {''AAPL'', ''MSFT'', ''TSLA''}
    then 1000 \<le> unat (random_volume r t) \<and> unat (random_volume r t) < 6000
    else 100 \<le> unat (random_volume r t) \<and> unat (random_volume r t) < 1100"
  using volume_in_band [OF assms] .

lemma volume_band_witness:
  "1000 \<le> unat (random_volume low_rng ''MSFT'') \<and> unat (random_volume low_rng ''MSFT'') < 6000"
  using volume_band [OF low_rng_ok, of "''MSFT''"] by simp

lemma raw_lines_concat:
  assumes "\<forall>l \<in> set ls. nl \<notin> set l" "nl \<notin> set r"
  shows "raw_lines nl (concat (map (\<lambda>l. l @ [nl]) ls) @ r) = (ls, r)"
proof -
  have rest: "raw_lines nl r = ([], r)" using assms(2) by (induction r) auto
  have line: "raw_lines nl (l @ nl # xs) = (l # ls', r')"
    if "nl \<notin> set l" "raw_lines nl xs = (ls', r')" for l xs ls' r'
    using that by (induction l) auto
  show ?thesis
    using assms(1) rest by (induction ls) (auto simp: line)
qed

lemma byte_of_char_inject [simp]: "byte_of_char c = byte_of_char d \<longleftrightarrow> c = d"
  by (metis char_of_byte_of_char)

lemma byte_of_newline: "byte_of_char newline = 10" "byte_of_char carriage_return = 13"
  by (simp_all add: byte_of_char_def newline_def carriage_return_def)

lemma as_bytes_mem: "byte_of_char c \<in> set (as_bytes s) \<longleftrightarrow> c \<in> set s"
  by (auto simp: as_bytes_def)

definition clean_line :: "string \<Rightarrow> bool" where
  "clean_line l \<longleftrightarrow> valid_str l \<and> newline \<notin> set l \<and> carriage_return \<notin> set l"

lemma buf_line_clean: "clean_line l \<Longrightarrow> buf_line (as_bytes l) = Inr l"
proof -
  assume l: "clean_line l"
  have "is_ascii newline" by (simp add: is_ascii_def newline_def)
  then have "valid_str (l @ [newline])"
    using l by (auto simp: clean_line_def intro: valid_str_append valid_str_single)
  then have "utf8_check (as_bytes l @ [10]) = None"
    by (simp add: valid_str_def as_bytes_append byte_of_newline [symmetric]) (simp add: as_bytes_def)
  moreover have "13 \<notin> set (as_bytes l)"
    using l as_bytes_mem [of carriage_return l] by (simp add: clean_line_def byte_of_newline)
  then have "strip_cr 13 (as_bytes l) = as_bytes l"
    by (auto simp: strip_cr_def dest: last_in_set)
  ultimately show ?thesis by (simp add: buf_line_def)
qed

lemma collect_results_Inr: "collect_results (map Inr xs) = Inr xs"
  by (induction xs) auto

lemma collect_results_error: "collect_results (map Inr xs @ Inl e # rs) = Inl e"
  by (induction xs) auto

lemma file_tickers:
  assumes "\<forall>l \<in> set ls. clean_line l" "clean_line r"
  shows "new_from_file rngs (Inr (as_bytes (concat (map (\<lambda>l. l @ [newline]) ls) @ r), None))
      = Inr (new_generator rngs (filter (\<lambda>x. x \<noteq> []) (map trim (ls @ (if r = [] then [] else [r])))))
    \<and> new_from_file rngs (Inr (as_bytes (concat (map (\<lambda>l. l @ [newline]) ls) @ r), Some e))
      = Inl (GenIo e)"
proof -
  have bytes: "as_bytes (concat (map (\<lambda>l. l @ [newline]) ls) @ r) =
      concat (map (\<lambda>l. l @ [10]) (map as_bytes ls)) @ as_bytes r"
    by (induction ls) (simp_all add: as_bytes_def byte_of_newline)
  have no10: "10 \<notin> set (as_bytes l)" if "clean_line l" for l
    using that as_bytes_mem [of newline l] by (simp add: clean_line_def byte_of_newline)
  have split: "raw_lines 10 (concat (map (\<lambda>l. l @ [10]) (map as_bytes ls)) @ as_bytes r) =
      (map as_bytes ls, as_bytes r)"
    using assms no10 by (intro raw_lines_concat) auto
  have lines: "map buf_line (map as_bytes ls) = map Inr ls"
    using assms(1) by (simp add: buf_line_clean)
  have empty: "as_bytes r = [] \<longleftrightarrow> r = []" by (simp add: as_bytes_def)
  have check: "utf8_check (as_bytes r) = None" using assms(2) by (simp add: clean_line_def valid_str_def)
  have "buf_lines (as_bytes (concat (map (\<lambda>l. l @ [newline]) ls) @ r)) None =
      map Inr (ls @ (if r = [] then [] else [r]))"
    using check empty by (simp only: buf_lines_def bytes split prod.case lines) simp
  moreover have "buf_lines (as_bytes (concat (map (\<lambda>l. l @ [newline]) ls) @ r)) (Some e) =
      map Inr ls @ [Inl e]"
    by (simp only: buf_lines_def bytes split prod.case lines) simp
  ultimately show ?thesis
    by (simp only: new_from_file_def map_err_simps and_then_simps prod.case
        collect_results_Inr collect_results_error append_Cons append_Nil)
qed

text \<open>
  Loading tickers from a file: from a text of lines (the last one with or without
  its newline), the generator gets one ticker per line, with surrounding white space
  removed and empty lines skipped; if reading the same bytes ends in an I/O error, no
  generator is built and the error is returned.
\<close>

lemma new_from_file_loads:
  assumes "\<forall>l \<in> set ls. clean_line l" "clean_line r"
  shows "new_from_file rngs (Inr (as_bytes (concat (map (\<lambda>l. l @ [newline]) ls) @ r), None))
      = Inr (new_generator rngs (filter (\<lambda>x. x \<noteq> []) (map trim (ls @ (if r = [] then [] else [r])))))
    \<and> new_from_file rngs (Inr (as_bytes (concat (map (\<lambda>l. l @ [newline]) ls) @ r), Some e))
      = Inl (GenIo e)"
  using file_tickers [OF assms] .

lemma new_from_file_loads_witness:
  "new_from_file (\<lambda>_. low_rng)
     (Inr (as_bytes (concat (map (\<lambda>l. l @ [newline]) ['' AAPL '', '''', ''MSFT'']) @ ''V''), None))
   = Inr (new_generator (\<lambda>_. low_rng) [''AAPL'', ''MSFT'', ''V''])"
proof -
  have clean: "list_all is_ascii l \<and> newline \<notin> set l \<and> carriage_return \<notin> set l \<Longrightarrow> clean_line l" for l
    by (simp add: clean_line_def valid_str_ascii)
  have "\<forall>l \<in> set ['' AAPL '', '''', ''MSFT'']. clean_line l" "clean_line ''V''"
    by (auto intro!: clean simp: is_ascii_def newline_def carriage_return_def char_of_def)
  from new_from_file_loads [OF this, of "\<lambda>_. low_rng"] show ?thesis
    by (simp add: trim_def trim_start.simps trim_end.simps ws_start_def ws_end_def is_ws_seq_def)
qed

end
