(* ===== verification/Bincode.thy ===== *)
theory Bincode
  imports Types
begin

text \<open>
  One instance of the interface \<open>bincode\<close>, in the layout that the crate documents for its
  default configuration: integers little-endian at their width, a string as its 64-bit
  length and its bytes, an enum as its 32-bit variant index and its fields, a struct as its
  fields in order. The theorems hold for every instance that satisfies their hypotheses;
  this one is used by the examples, to evaluate them.
\<close>

definition le_bytes :: "nat \<Rightarrow> nat \<Rightarrow> u8 list" where
  "le_bytes k n = map (\<lambda>i. word_of_nat (n div 256 ^ i)) [0..<k]"

fun le_nat :: "u8 list \<Rightarrow> nat" where
  "le_nat [] = 0"
| "le_nat (b # bs) = unat b + 256 * le_nat bs"

lemma length_le_bytes [simp]: "length (le_bytes k n) = k"
  by (simp add: le_bytes_def)

lemma le_bytes_Suc: "le_bytes (Suc k) n = word_of_nat n # le_bytes k (n div 256)"
  by (simp add: le_bytes_def upt_conv_Cons map_Suc_upt [symmetric] div_mult2_eq del: upt_Suc)

lemma le_nat_le_bytes: "n < 256 ^ k \<Longrightarrow> le_nat (le_bytes k n) = n"
proof (induction k arbitrary: n)
  case 0
  then show ?case by (simp add: le_bytes_def)
next
  case (Suc k)
  then have "n div 256 < 256 ^ k" by (simp add: less_mult_imp_div_less mult.commute)
  with Suc.IH have "le_nat (le_bytes k (n div 256)) = n div 256" by blast
  then show ?case
    by (simp add: le_bytes_Suc unat_of_nat take_bit_eq_mod)
qed

lemma le_nat_word:
  fixes w :: "'a::len word"
  shows "2 ^ LENGTH('a) = (256 :: nat) ^ k \<Longrightarrow> le_nat (le_bytes k (unat w)) = unat w"
  using unsigned_less [of w, where 'a = nat] by (intro le_nat_le_bytes) simp

definition layout_quote :: "stock_quote \<Rightarrow> u8 list" where
  "layout_quote q =
     le_bytes 8 (unat (f64_bits (q_price q))) @ le_bytes 4 (unat (q_volume q))
     @ le_bytes 8 (unat (q_timestamp q))"

definition write_quote :: "stock_quote \<Rightarrow> u8 list" where
  "write_quote q = le_bytes 8 (length (q_ticker q)) @ as_bytes (q_ticker q) @ layout_quote q"

definition read_word :: "nat \<Rightarrow> nat \<Rightarrow> u8 list \<Rightarrow> 'a::len word" where
  "read_word at k bs = word_of_nat (le_nat (take k (drop at bs)))"

definition read_quote :: "u8 list \<Rightarrow> unit + stock_quote" where
  "read_quote bs =
     (if length bs < 8 then Inl ()
      else let n = le_nat (take 8 bs); body = drop 8 bs; rest = drop n body in
        if length body < n + 20 then Inl ()
        else Inr \<lparr>q_ticker = str_of_bytes (take n body), q_price = F64 (read_word 0 8 rest),
                  q_volume = read_word 8 4 rest, q_timestamp = read_word 12 8 rest\<rparr>)"

fun write_udp :: "udp_message \<Rightarrow> u8 list" where
  "write_udp (Quote q) = le_bytes 4 0 @ write_quote q"
| "write_udp (Ping t) = le_bytes 4 1 @ le_bytes 8 (unat t)"
| "write_udp (Pong t) = le_bytes 4 2 @ le_bytes 8 (unat t)"

definition read_udp :: "u8 list \<Rightarrow> unit + udp_message" where
  "read_udp bs =
     (if length bs < 4 then Inl ()
      else let tag = le_nat (take 4 bs); body = drop 4 bs in
        if tag = 0 then map_sum (\<lambda>_. ()) Quote (read_quote body)
        else if length body < 8 then Inl ()
        else if tag = 1 then Inr (Ping (read_word 0 8 body))
        else if tag = 2 then Inr (Pong (read_word 0 8 body))
        else Inl ())"

text \<open>A string too long for its 64-bit length is not serialised.\<close>

definition quote_fits :: "stock_quote \<Rightarrow> bool" where
  "quote_fits q \<longleftrightarrow> length (q_ticker q) < 2 ^ 64"

definition reference_bincode :: "unit bincode" where
  "reference_bincode =
     \<lparr>serialize_quote = \<lambda>q. if quote_fits q then Inr (write_quote q) else Inl (),
      deserialize_quote = read_quote,
      serialize_udp = \<lambda>m. case m of
          Quote q \<Rightarrow> if quote_fits q then Inr (write_udp m) else Inl ()
        | _ \<Rightarrow> Inr (write_udp m),
      deserialize_udp = read_udp\<rparr>"

lemma read_write_quote: "quote_fits q \<Longrightarrow> read_quote (write_quote q) = Inr q"
  by (cases q, cases "q_price q")
     (simp add: read_quote_def write_quote_def layout_quote_def quote_fits_def Let_def read_word_def
      le_nat_le_bytes le_nat_word)

lemma le_nat_tag: "n < 2 ^ 32 \<Longrightarrow> le_nat (le_bytes 4 n) = n"
  by (rule le_nat_le_bytes) simp

lemma reference_bincode_ok: "bincode_ok reference_bincode"
proof -
  have udp: "read_udp (write_udp m) = Inr m" if "case m of Quote q \<Rightarrow> quote_fits q | _ \<Rightarrow> True" for m
    using that by (cases m)
      (simp_all add: read_udp_def Let_def le_nat_tag read_write_quote read_word_def le_nat_word)
  have "read_udp (write_udp m) = Inr m"
    if "(case m of Quote q \<Rightarrow> if quote_fits q then Inr (write_udp m) else Inl () | _ \<Rightarrow> Inr (write_udp m))
      = Inr bs" for m bs
    using that by (intro udp) (cases m; simp split: if_splits)
  with udp show ?thesis
    by (auto simp: bincode_ok_def reference_bincode_def read_write_quote simp del: write_udp.simps
        split: udp_message.splits if_splits)
qed


lemma reference_bytes [simp]:
  "udp_to_bytes reference_bincode (Ping t) = Inr (write_udp (Ping t))"
  "udp_to_bytes reference_bincode (Pong t) = Inr (write_udp (Pong t))"
  "quote_fits q \<Longrightarrow> udp_to_bytes reference_bincode (Quote q) = Inr (write_udp (Quote q))"
  by (simp_all add: udp_to_bytes_def reference_bincode_def)

lemma reference_decodes:
  assumes "case m of Quote q \<Rightarrow> quote_fits q | _ \<Rightarrow> True"
  shows "udp_from_bytes reference_bincode (write_udp m) = Inr m"
proof -
  have "serialize_udp reference_bincode m = Inr (write_udp m)"
    using assms by (cases m) (simp_all add: reference_bincode_def)
  with reference_bincode_ok show ?thesis by (auto simp: bincode_ok_def udp_from_bytes_def)
qed

lemma length_write_udp: "length (write_udp (Ping t)) = 12" "length (write_udp (Pong t)) = 12"
  by simp_all

end
