(* ===== verification/Processor.thy ===== *)
theory Processor
  imports Framing Generator Bincode
begin

text \<open>
  \<open>server/src/processor.rs\<close>: subscriptions over TCP, the streaming thread of each
  subscriber and the thread that watches its pings. The fields behind \<open>Arc\<close> are one
  record; an \<open>Arc<AtomicBool>\<close> is an address in the store \<open>flags\<close>, a channel an address in
  the store \<open>channels\<close>. The functions below run as one step each; \<open>Server\<close> interleaves
  them.
\<close>

section \<open>State\<close>

record subscriber_handle =
  sh_shutdown :: nat

record subscriber_info =
  si_id :: u64
  si_channel :: nat
  si_udp_addr :: socket_addr
  si_shutdown :: nat

record processor =
  p_port :: u16
  p_generator :: quote_generator
  p_channels :: quote_channels
  p_subscribers :: "u64 \<rightharpoonup> subscriber_handle"
  p_next_id :: u64
  p_shutdown :: bool
  p_flags :: "nat \<rightharpoonup> bool"
  p_next_addr :: nat
  p_spawned :: "subscriber_info list"

text \<open>\<open>p_spawned\<close> lists the streaming threads started so far, with what each was given.\<close>

definition flag_set :: "processor \<Rightarrow> nat \<Rightarrow> bool" where
  "flag_set p a \<longleftrightarrow> p_flags p a = Some True"

definition new_processor ::
    "u16 \<Rightarrow> (nat \<Rightarrow> rng) \<Rightarrow> io_error + (u8 list \<times> io_error option) \<Rightarrow> processor_error + processor" where
  "new_processor port rngs tickers_file =
     and_then (map_err GenErr (new_from_file rngs tickers_file)) (\<lambda>generator.
     Inr \<lparr>p_port = port, p_generator = generator, p_channels = Map.empty,
          p_subscribers = Map.empty, p_next_id = 0, p_shutdown = False,
          p_flags = Map.empty, p_next_addr = 0, p_spawned = []\<rparr>)"

section \<open>Subscribers\<close>

text \<open>
  \<open>add_subscriber\<close>. The new flag and the new channel get the same fresh address. On an
  error both ends of the channel are dropped: the sender inside \<open>add_receiver\<close>, the
  receiver on the early return.
\<close>

definition add_subscriber :: "subscribe_command \<Rightarrow> processor \<Rightarrow> (processor_error + u64) \<times> processor" where
  "add_subscriber cmd p =
     (let rid = p_next_id p;
          shutdown = p_next_addr p;
          tx = p_next_addr p;
          p1 = p\<lparr>p_next_id := rid + 1, p_next_addr := p_next_addr p + 1,
                 p_flags := (p_flags p)(shutdown \<mapsto> False),
                 p_channels := (p_channels p)(tx \<mapsto> new_channel)\<rparr> in
      case add_receiver rid tx (sc_tickers cmd) (p_generator p1) (p_channels p1) of
        (Inl e, g, ch) \<Rightarrow>
          (Inl (GenErr e), p1\<lparr>p_generator := g, p_channels := drop_receiver tx ch\<rparr>)
      | (Inr _, g, ch) \<Rightarrow>
          let sub_info = \<lparr>si_id = rid, si_channel = tx, si_udp_addr = (sc_ip cmd, sc_port cmd),
                          si_shutdown = shutdown\<rparr> in
          (Inr rid, p1\<lparr>p_generator := g, p_channels := ch,
             p_subscribers := (p_subscribers p1)(rid \<mapsto> \<lparr>sh_shutdown = shutdown\<rparr>),
             p_spawned := p_spawned p1 @ [sub_info]\<rparr>))"

definition remove_subscriber :: "hash_order \<Rightarrow> u64 \<Rightarrow> processor \<Rightarrow> processor" where
  "remove_subscriber h rid p =
     (case p_subscribers p rid of
        None \<Rightarrow> p
      | Some handle \<Rightarrow>
          let p1 = p\<lparr>p_subscribers := (p_subscribers p)(rid := None),
                     p_flags := (p_flags p)(sh_shutdown handle \<mapsto> True)\<rparr> in
          case remove_receiver h rid (p_generator p1) (p_channels p1) of
            (g, ch) \<Rightarrow> p1\<lparr>p_generator := g, p_channels := ch\<rparr>)"

section \<open>Requests\<close>

definition response_to ::
    "(strum_error \<Rightarrow> string) \<Rightarrow> tcp_message \<Rightarrow> processor \<Rightarrow> tcp_message \<times> processor" where
  "response_to strum_display msg p =
     (case msg of
        Cmd cmd \<Rightarrow>
          (case add_subscriber cmd p of
             (Inr _, p') \<Rightarrow> (Ack, p')
           | (Inl e, p') \<Rightarrow> (Err (display_processor_error strum_display e), p'))
      | _ \<Rightarrow> (Err ''Unexpected message type'', p))"

definition handle_request ::
    "(strum_error \<Rightarrow> string) \<Rightarrow> in_stream \<Rightarrow> out_stream \<Rightarrow> processor
      \<Rightarrow> (processor_error + unit) \<times> in_stream \<times> out_stream \<times> processor" where
  "handle_request strum_display inp out p =
     (case read_tcp_message inp of
        (Inl e, inp') \<Rightarrow> (Inl (ParseErr e), inp', out, p)
      | (Inr msg, inp') \<Rightarrow>
          (case response_to strum_display msg p of
             (response, p') \<Rightarrow>
               (case send_tcp_message out response of
                  (r, out') \<Rightarrow> (r, inp', out', p'))))"

text \<open>
  One iteration of the accept loop of \<open>start_tcp_server\<close>: what \<open>accept\<close> returned, and for
  a connection the request handler it spawns, run to its end.
\<close>

datatype accepted = AcceptConn in_stream out_stream | AcceptErr io_error

definition accept_step ::
    "(strum_error \<Rightarrow> string) \<Rightarrow> processor \<Rightarrow> accepted \<Rightarrow> (processor, processor) control" where
  "accept_step strum_display p ev =
     (if p_shutdown p then Break p
      else case ev of
        AcceptConn inp out \<Rightarrow>
          (case handle_request strum_display inp out p of (_, _, _, p') \<Rightarrow> Continue p')
      | AcceptErr e \<Rightarrow> Continue p)"

definition start_tcp_server ::
    "(strum_error \<Rightarrow> string) \<Rightarrow> io_error + unit \<Rightarrow> io_error + unit \<Rightarrow> processor \<Rightarrow> accepted list
      \<Rightarrow> (processor, (processor_error + unit) \<times> processor) control" where
  "start_tcp_server strum_display bind nonblocking p events =
     (case bind of
        Inl e \<Rightarrow> Break (Inl (ProcIo e), p)
      | Inr _ \<Rightarrow>
          (case nonblocking of
             Inl e \<Rightarrow> Break (Inl (ProcIo e), p)
           | Inr _ \<Rightarrow>
               (case run_loop (accept_step strum_display) p events of
                  Continue p' \<Rightarrow> Continue p'
                | Break p' \<Rightarrow> Break (Inr (), p'))))"

section \<open>Streaming\<close>

text \<open>
  One iteration of the loop of \<open>start_streaming\<close>; the event is the error, if any, that
  \<open>send_to\<close> returns should the iteration send.
\<close>

definition stream_step ::
    "'b bincode \<Rightarrow> subscriber_info \<Rightarrow> processor \<times> sent_datagrams \<Rightarrow> io_error option
      \<Rightarrow> (processor \<times> sent_datagrams, processor \<times> sent_datagrams) control" where
  "stream_step bc info st send_error =
     (case st of (p, sent) \<Rightarrow>
      if flag_set p (si_shutdown info) then Break (p, sent)
      else
        (case chan_recv (p_channels p) (si_channel info) of
           (Received q, ch) \<Rightarrow>
             (case udp_to_bytes bc (Quote q) of
                Inr bytes \<Rightarrow>
                  Continue (p\<lparr>p_channels := ch\<rparr>,
                    if send_error = None then sent @ [(si_udp_addr info, bytes)] else sent)
              | Inl _ \<Rightarrow> Continue (p\<lparr>p_channels := ch\<rparr>, sent))
         | (RecvTimeout, ch) \<Rightarrow> Continue (p\<lparr>p_channels := ch\<rparr>, sent)
         | (RecvDisconnected, ch) \<Rightarrow> Break (p\<lparr>p_channels := ch\<rparr>, sent)))"

datatype join_result = JoinedOk | JoinedErr processor_error | JoinedPanic

text \<open>What \<open>start_streaming\<close> does after its loop; its receiver is dropped on return.\<close>

definition stream_end ::
    "hash_order \<Rightarrow> subscriber_info \<Rightarrow> join_result \<Rightarrow> processor \<Rightarrow> (processor_error + unit) \<times> processor" where
  "stream_end h info join p =
     (let p1 = p\<lparr>p_flags := (p_flags p)(si_shutdown info \<mapsto> True)\<rparr> in
      case join of
        JoinedErr e \<Rightarrow>
          (Inl e, p1\<lparr>p_channels := drop_receiver (si_channel info) (p_channels p1)\<rparr>)
      | _ \<Rightarrow>
          let p2 = remove_subscriber h (si_id info) p1 in
          (Inr (), p2\<lparr>p_channels := drop_receiver (si_channel info) (p_channels p2)\<rparr>))"

definition start_streaming ::
    "'b bincode \<Rightarrow> hash_order \<Rightarrow> io_error + unit \<Rightarrow> io_error + unit \<Rightarrow> subscriber_info
      \<Rightarrow> io_error option list \<Rightarrow> join_result \<Rightarrow> processor
      \<Rightarrow> (processor \<times> sent_datagrams,
          (processor_error + unit) outcome \<times> processor \<times> sent_datagrams) control" where
  "start_streaming bc h bind clone info events join p =
     (case bind of
        Inl e \<Rightarrow>
          let p1 = remove_subscriber h (si_id info) p in
          Break (Value (Inr ()), p1\<lparr>p_channels := drop_receiver (si_channel info) (p_channels p1)\<rparr>, [])
      | Inr _ \<Rightarrow>
          (case clone of
             Inl e \<Rightarrow>
               Break (Panic, p\<lparr>p_channels := drop_receiver (si_channel info) (p_channels p)\<rparr>, [])
           | Inr _ \<Rightarrow>
               (case run_loop (stream_step bc info) (p, []) events of
                  Continue st \<Rightarrow> Continue st
                | Break (p', sent) \<Rightarrow>
                    (case stream_end h info join p' of (r, p'') \<Rightarrow> Break (Value r, p'', sent)))))"

section \<open>Monitoring\<close>

text \<open>\<open>Duration\<close>s and \<open>Instant\<close>s are nanoseconds.\<close>

definition from_secs :: "nat \<Rightarrow> nat" where
  "from_secs s = s * 1000000000"

definition MAX_PING_TIMEOUT :: nat where
  "MAX_PING_TIMEOUT = 5"

definition monitor_buf :: nat where
  "monitor_buf = 1000"

text \<open>
  What \<open>recv_from\<close> returned, and what \<open>Instant::now()\<close> reads afterwards. The record keeps
  the locals of the thread, the flag it shares and, in \<open>m_pongs\<close>, the datagrams it passes
  to \<open>send_to\<close>; the result of that call is only logged.
\<close>

datatype udp_event =
    Datagram "u8 list" socket_addr nat
  | RecvErr io_error nat

record monitor =
  m_last_ping :: "nat option"
  m_start_time :: nat
  m_shutdown :: bool
  m_pongs :: sent_datagrams

definition monitor_step ::
    "'b bincode \<Rightarrow> monitor \<Rightarrow> udp_event \<Rightarrow> (monitor, thread_end \<times> monitor) control" where
  "monitor_step bc m ev =
     (case ev of
        Datagram bytes src now \<Rightarrow>
          (case udp_from_bytes bc (take monitor_buf bytes) of
             Inr (Ping timestamp) \<Rightarrow>
               let m1 = m\<lparr>m_last_ping := Some now\<rparr> in
               (case udp_to_bytes bc (Pong timestamp) of
                  Inl _ \<Rightarrow> Break (Panicked, m1)
                | Inr pong \<Rightarrow> Continue (m1\<lparr>m_pongs := m_pongs m @ [(src, pong)]\<rparr>))
           | Inr _ \<Rightarrow> Continue m
           | Inl _ \<Rightarrow> Continue m)
      | RecvErr e now \<Rightarrow>
          if is_timeout e then
            (case m_last_ping m of
               Some lp \<Rightarrow>
                 if now - lp > from_secs MAX_PING_TIMEOUT then Break (Returned, m\<lparr>m_shutdown := True\<rparr>)
                 else Continue m
             | None \<Rightarrow>
                 if now - m_start_time m > 3 * from_secs MAX_PING_TIMEOUT
                 then Break (Returned, m\<lparr>m_shutdown := True\<rparr>)
                 else Continue m)
          else Continue m)"

definition new_monitor :: "nat \<Rightarrow> bool \<Rightarrow> monitor" where
  "new_monitor start_time shutdown =
     \<lparr>m_last_ping = None, m_start_time = start_time, m_shutdown = shutdown, m_pongs = []\<rparr>"

text \<open>The thread panics when the read timeout of the socket cannot be set.\<close>

definition monitor_connection ::
    "'b bincode \<Rightarrow> io_error + unit \<Rightarrow> nat \<Rightarrow> bool \<Rightarrow> udp_event list
      \<Rightarrow> (monitor, thread_end \<times> monitor) control" where
  "monitor_connection bc set_timeout start_time shutdown events =
     (case set_timeout of
        Inl e \<Rightarrow> Break (Panicked, new_monitor start_time shutdown)
      | Inr _ \<Rightarrow> run_loop (monitor_step bc) (new_monitor start_time shutdown) events)"

section \<open>Facts about subscribers\<close>

text \<open>
  The processor's invariant: the generator is in order, every receiver of the generator is
  a subscriber, ids and addresses still to be handed out are unused, and the flag of a
  subscriber has the address of its channel.
\<close>

definition processor_inv :: "processor \<Rightarrow> bool" where
  "processor_inv p \<longleftrightarrow>
     generator_ok (p_generator p)
     \<and> (\<forall>rid info. receivers (p_generator p) rid = Some info \<longrightarrow>
          p_subscribers p rid = Some \<lparr>sh_shutdown = ri_channel info\<rparr>)
     \<and> (\<forall>rid handle. p_subscribers p rid = Some handle \<longrightarrow>
          rid < p_next_id p \<and> sh_shutdown handle < p_next_addr p)"

lemma next_id_unused:
  assumes "processor_inv p"
  shows "p_subscribers p (p_next_id p) = None" "receivers (p_generator p) (p_next_id p) = None"
proof -
  show "p_subscribers p (p_next_id p) = None"
    using assms unfolding processor_inv_def by (metis less_irrefl option.exhaust)
  then show "receivers (p_generator p) (p_next_id p) = None"
    using assms unfolding processor_inv_def by (metis not_Some_eq option.distinct(1))
qed

lemma receiver_bounds:
  "processor_inv p \<Longrightarrow> receivers (p_generator p) rid = Some info \<Longrightarrow>
     rid < p_next_id p \<and> ri_channel info < p_next_addr p"
  unfolding processor_inv_def by fastforce

lemma add_subscriber_cases:
  assumes "processor_inv p"
  obtains (unknown) t where "find (\<lambda>t. tickers_to_receivers (p_generator p) t = None) (sc_tickers cmd) = Some t"
      "add_subscriber cmd p = (Inl (GenErr (TickerNotExists t)),
         p\<lparr>p_next_id := p_next_id p + 1, p_next_addr := p_next_addr p + 1,
           p_flags := (p_flags p)(p_next_addr p \<mapsto> False),
           p_channels := drop_receiver (p_next_addr p) (drop_sender (p_next_addr p)
             ((p_channels p)(p_next_addr p \<mapsto> new_channel)))\<rparr>)"
  | (ok) g where "find (\<lambda>t. tickers_to_receivers (p_generator p) t = None) (sc_tickers cmd) = None"
      "add_receiver (p_next_id p) (p_next_addr p) (sc_tickers cmd) (p_generator p)
         ((p_channels p)(p_next_addr p \<mapsto> new_channel))
       = (Inr (), g, (p_channels p)(p_next_addr p \<mapsto> new_channel))"
      "add_subscriber cmd p = (Inr (p_next_id p),
         p\<lparr>p_next_id := p_next_id p + 1, p_next_addr := p_next_addr p + 1,
           p_flags := (p_flags p)(p_next_addr p \<mapsto> False),
           p_channels := (p_channels p)(p_next_addr p \<mapsto> new_channel), p_generator := g,
           p_subscribers := (p_subscribers p)(p_next_id p \<mapsto> \<lparr>sh_shutdown = p_next_addr p\<rparr>),
           p_spawned := p_spawned p @ [\<lparr>si_id = p_next_id p, si_channel = p_next_addr p,
             si_udp_addr = (sc_ip cmd, sc_port cmd), si_shutdown = p_next_addr p\<rparr>]\<rparr>)"
proof (cases rule: add_receiver_cases [of "p_generator p" "sc_tickers cmd" "p_next_id p" "p_next_addr p"
      "(p_channels p)(p_next_addr p \<mapsto> new_channel)"])
  case (unknown e)
  then obtain t where "find (\<lambda>t. tickers_to_receivers (p_generator p) t = None) (sc_tickers cmd) = Some t"
    "e = TickerNotExists t" by (auto simp: check_tickers_find)
  with unknown show thesis
    by (intro that(1)) (simp_all add: add_subscriber_def Let_def)
next
  case ok
  have "drop_replaced (receivers (p_generator p)) (p_next_id p) ch = ch" for ch
    using next_id_unused(2) [OF assms] by (simp add: drop_replaced_def)
  with ok show thesis
    by (intro that(2)) (auto simp: find_None_iff add_subscriber_def Let_def)
qed

lemma add_receiver_distinct:
  assumes "channels_distinct g" "\<forall>i info. receivers g i = Some info \<longrightarrow> ri_channel info \<noteq> a"
    and "add_receiver rid a ts g ch = (Inr (), g', ch')" "receivers g rid = None"
  shows "channels_distinct g' \<and> prices g' = prices g \<and> gen_shutdown g' = gen_shutdown g
    \<and> receivers g' = (receivers g)(rid \<mapsto> \<lparr>ri_channel = a, ri_tickers = set ts\<rparr>)"
proof -
  have "check_tickers (tickers_to_receivers g) ts = None"
    using assms(3) by (auto simp: add_receiver_def split: option.splits)
  then have g': "receivers g' = (receivers g)(rid \<mapsto> \<lparr>ri_channel = a, ri_tickers = set ts\<rparr>)"
    "prices g' = prices g" "gen_shutdown g' = gen_shutdown g"
    using assms(3) by (auto simp: add_receiver_def Let_def)
  have "channels_distinct g'"
    using assms(1,2) unfolding channels_distinct_def g'(1) by (auto split: if_splits)
  with g' show ?thesis by blast
qed

lemma next_id_step:
  "rid < n \<or> rid = n \<Longrightarrow> n \<noteq> - 1 \<Longrightarrow> rid < n + (1 :: u64)"
proof -
  assume a: "rid < n \<or> rid = n" "n \<noteq> - 1"
  then have "n < n + 1" by (metis add_eq_0_iff add.commute lessI unatSuc word_less_nat_alt)
  with a show ?thesis by auto
qed

lemma add_subscriber_inv:
  assumes inv: "processor_inv p" and room: "p_next_id p \<noteq> - 1"
  shows "processor_inv (snd (add_subscriber cmd p))"
proof (cases rule: add_subscriber_cases [OF inv, of cmd])
  case (1 t)
  with inv next_id_step [OF _ room] show ?thesis
    by (auto simp: processor_inv_def less_SucI)
next
  case (2 g)
  have ok: "generator_ok (p_generator p)" using inv by (simp add: processor_inv_def)
  have fresh: "\<forall>i info. receivers (p_generator p) i = Some info \<longrightarrow> ri_channel info \<noteq> p_next_addr p"
    using receiver_bounds [OF inv] by (metis less_irrefl)
  note unused = next_id_unused(2) [OF inv]
  have reg: "registry_inv g"
    using add_receiver_subs [OF _ unused 2(2)] ok by (simp add: generator_ok_def)
  have dist: "channels_distinct g \<and> prices g = prices (p_generator p)
      \<and> gen_shutdown g = gen_shutdown (p_generator p)
      \<and> receivers g = (receivers (p_generator p))(p_next_id p \<mapsto>
          \<lparr>ri_channel = p_next_addr p, ri_tickers = set (sc_tickers cmd)\<rparr>)"
    using add_receiver_distinct [OF _ fresh 2(2) unused] ok by (simp add: generator_ok_def)
  with reg ok have "generator_ok g" by (simp add: generator_ok_def prices_ok_def)
  with dist inv 2(3) next_id_step [OF _ room] show ?thesis
    by (auto simp: processor_inv_def less_SucI split: if_splits)
qed

lemma remove_generator_ok:
  assumes "generator_ok g" "hash_order_ok h"
  shows "generator_ok (fst (remove_receiver h rid g ch))"
proof -
  have "channels_distinct (fst (remove_receiver h rid g ch))"
    using assms by (auto simp: generator_ok_def channels_distinct_def remove_receiver_effect split: if_splits)
  with assms show ?thesis
    by (simp add: generator_ok_def prices_ok_def remove_receiver_inv remove_receiver_effect)
qed

lemma remove_subscriber_cases:
  obtains (absent) "p_subscribers p rid = None" "remove_subscriber h rid p = p"
  | (present) handle where "p_subscribers p rid = Some handle"
      "remove_subscriber h rid p = p\<lparr>p_subscribers := (p_subscribers p)(rid := None),
         p_flags := (p_flags p)(sh_shutdown handle \<mapsto> True),
         p_generator := fst (remove_receiver h rid (p_generator p) (p_channels p)),
         p_channels := drop_replaced (receivers (p_generator p)) rid (p_channels p)\<rparr>"
proof (cases "p_subscribers p rid")
  case None
  then show thesis by (intro absent) (simp_all add: remove_subscriber_def)
next
  case (Some handle)
  then show thesis
    by (intro present [of handle]) (simp_all add: remove_subscriber_def Let_def
        case_prod_beta remove_receiver_gen(2))
qed

lemma remove_subscriber_inv:
  assumes "processor_inv p" "hash_order_ok h"
  shows "processor_inv (remove_subscriber h rid p)"
proof (cases rule: remove_subscriber_cases [of p rid h])
  case absent
  with assms show ?thesis by simp
next
  case (present handle)
  have ok: "generator_ok (p_generator p)" using assms(1) by (simp add: processor_inv_def)
  then have "registry_inv (p_generator p)" by (simp add: generator_ok_def)
  with present assms remove_generator_ok [OF ok assms(2), of rid "p_channels p"] show ?thesis
    by (auto simp: processor_inv_def remove_receiver_effect split: if_splits)
qed

lemma remove_subscriber_subs:
  assumes "processor_inv p" "hash_order_ok h"
  shows "subscribed (p_generator (remove_subscriber h rid p)) i t =
      (i \<noteq> rid \<and> subscribed (p_generator p) i t)"
    and "p_subscribers (remove_subscriber h rid p) = (p_subscribers p)(rid := None)"
    and "receivers (p_generator (remove_subscriber h rid p)) = (receivers (p_generator p))(rid := None)"
proof -
  have reg: "registry_inv (p_generator p)"
    using assms(1) by (simp add: processor_inv_def generator_ok_def)
  have gone: "receivers (p_generator p) rid = None" if "p_subscribers p rid = None"
    using that assms(1) unfolding processor_inv_def by (metis not_Some_eq option.distinct(1))
  show "subscribed (p_generator (remove_subscriber h rid p)) i t =
      (i \<noteq> rid \<and> subscribed (p_generator p) i t)"
    using reg assms(2) gone
    by (cases rule: remove_subscriber_cases [of p rid h])
       (auto simp: remove_receiver_effect, simp add: subscribed_def)
  show "p_subscribers (remove_subscriber h rid p) = (p_subscribers p)(rid := None)"
    by (cases rule: remove_subscriber_cases [of p rid h]) auto
  show "receivers (p_generator (remove_subscriber h rid p)) = (receivers (p_generator p))(rid := None)"
    using reg assms(2) gone
    by (cases rule: remove_subscriber_cases [of p rid h]) (auto simp: remove_receiver_effect)
qed

section \<open>Facts about the streaming loop\<close>

text \<open>What one quote contributes to the datagrams sent: nothing if it cannot be serialised or sent.\<close>

definition datagrams_for ::
    "'b bincode \<Rightarrow> socket_addr \<Rightarrow> stock_quote \<Rightarrow> io_error option \<Rightarrow> sent_datagrams" where
  "datagrams_for bc addr q err =
     (case udp_to_bytes bc (Quote q) of
        Inr bytes \<Rightarrow> if err = None then [(addr, bytes)] else []
      | Inl _ \<Rightarrow> [])"

lemma flag_set_channels [simp]: "flag_set (p\<lparr>p_channels := ch\<rparr>) a = flag_set p a"
  by (simp add: flag_set_def)

lemma processor_inv_channels [simp]: "processor_inv (p\<lparr>p_channels := ch\<rparr>) = processor_inv p"
  by (simp add: processor_inv_def)

lemma stream_step_received:
  assumes "\<not> flag_set p (si_shutdown info)" "queue_at (p_channels p) (si_channel info) = q # qs"
  shows "stream_step bc info (p, sent) err =
    Continue (p\<lparr>p_channels := snd (chan_recv (p_channels p) (si_channel info))\<rparr>,
      sent @ datagrams_for bc (si_udp_addr info) q err)"
proof -
  have "fst (chan_recv (p_channels p) (si_channel info)) = Received q"
    using assms(2) by (simp add: recv_result)
  with assms(1) show ?thesis
    by (auto simp: stream_step_def datagrams_for_def case_prod_beta split: sum.splits)
qed

lemma stream_step_flagged:
  "flag_set p (si_shutdown info) \<Longrightarrow> stream_step bc info (p, sent) err = Break (p, sent)"
  by (simp add: stream_step_def)

lemma stream_step_frame:
  "stream_step bc info (p, sent) err = Continue (p', sent') \<Longrightarrow>
     \<exists>ch. p' = p\<lparr>p_channels := ch\<rparr>"
  "stream_step bc info (p, sent) err = Break (p', sent') \<Longrightarrow>
     \<exists>ch. p' = p\<lparr>p_channels := ch\<rparr>"
  by (auto simp: stream_step_def split: if_splits prod.splits recv_result.splits sum.splits
      intro: exI [of _ "p_channels p"])

lemma set_tl: "x \<in> set (tl xs) \<Longrightarrow> x \<in> set xs"
  by (cases xs) auto

lemma stream_channels:
  assumes "stream_step bc info (p, sent) err = Continue (p', sent')
    \<or> stream_step bc info (p, sent) err = Break (p', sent')"
  shows "p' = p \<or> p' = p\<lparr>p_channels := snd (chan_recv (p_channels p) (si_channel info))\<rparr>"
  using assms by (auto simp: stream_step_def split: if_splits prod.splits recv_result.splits sum.splits)

text \<open>The streaming loop only touches channels, so it keeps the invariant; it interprets
  the contract of an event loop.\<close>

interpretation stream_thread: event_loop "stream_step bc info" "\<lambda>_. True"
  "\<lambda>(p, sent). processor_inv p" "\<lambda>(p, sent). processor_inv p" for bc info
proof (unfold_locales, goal_cases)
  case (1 s e s')
  then show ?case using stream_step_frame(1) [of bc info "fst s" "snd s" e "fst s'" "snd s'"] by auto
next
  case (2 s e r)
  then show ?case using stream_step_frame(2) [of bc info "fst s" "snd s" e "fst r" "snd r"] by auto
qed

text \<open>It keeps the generator as well, whatever it is.\<close>

interpretation stream_generator: event_loop "stream_step bc info" "\<lambda>_. True"
  "\<lambda>(p, sent). p_generator p = g" "\<lambda>(p, sent). p_generator p = g" for bc info g
proof (unfold_locales, goal_cases)
  case (1 s e s')
  then show ?case using stream_step_frame(1) [of bc info "fst s" "snd s" e "fst s'" "snd s'"] by auto
next
  case (2 s e r)
  then show ?case using stream_step_frame(2) [of bc info "fst s" "snd s" e "fst r" "snd r"] by auto
qed

lemma stream_run:
  assumes "\<not> flag_set p (si_shutdown info)"
    and "length events \<le> length (queue_at (p_channels p) (si_channel info))"
  shows "\<exists>ch. run_loop (stream_step bc info) (p, sent) events =
      Continue (p\<lparr>p_channels := ch\<rparr>, sent @ concat (map2 (datagrams_for bc (si_udp_addr info))
        (queue_at (p_channels p) (si_channel info)) events))
    \<and> (\<forall>b. queue_at ch b = (if b = si_channel info
          then drop (length events) (queue_at (p_channels p) b) else queue_at (p_channels p) b))
    \<and> rx_alive ch = rx_alive (p_channels p) \<and> tx_alive ch = tx_alive (p_channels p)"
  using assms
proof (induction events arbitrary: p sent)
  case Nil
  show ?case by (intro exI [of _ "p_channels p"]) simp
next
  case (Cons err events)
  let ?a = "si_channel info"
  obtain q qs where q: "queue_at (p_channels p) ?a = q # qs"
    using Cons.prems(2) by (cases "queue_at (p_channels p) ?a") auto
  let ?p = "p\<lparr>p_channels := snd (chan_recv (p_channels p) ?a)\<rparr>"
  have len: "length events \<le> length (queue_at (p_channels ?p) ?a)"
    using q Cons.prems(2) by (simp add: recv_queue)
  obtain ch where "run_loop (stream_step bc info)
        (?p, sent @ datagrams_for bc (si_udp_addr info) q err) events =
      Continue (?p\<lparr>p_channels := ch\<rparr>, (sent @ datagrams_for bc (si_udp_addr info) q err)
        @ concat (map2 (datagrams_for bc (si_udp_addr info)) (queue_at (p_channels ?p) ?a) events))"
    and ch: "\<forall>b. queue_at ch b = (if b = ?a
          then drop (length events) (queue_at (p_channels ?p) b) else queue_at (p_channels ?p) b)"
      "rx_alive ch = rx_alive (p_channels ?p)" "tx_alive ch = tx_alive (p_channels ?p)"
    using Cons.IH [of ?p "sent @ datagrams_for bc (si_udp_addr info) q err"] Cons.prems(1) len
    by auto
  then have "run_loop (stream_step bc info) (p, sent) (err # events) =
      Continue (p\<lparr>p_channels := ch\<rparr>, sent @ concat (map2 (datagrams_for bc (si_udp_addr info))
        (queue_at (p_channels p) ?a) (err # events)))"
    using stream_step_received [OF Cons.prems(1) q, of bc sent err] q by (simp add: recv_queue)
  moreover have "\<forall>b. queue_at ch b = (if b = ?a
      then drop (length (err # events)) (queue_at (p_channels p) b) else queue_at (p_channels p) b)"
    using ch(1) q by (simp add: recv_queue drop_Suc)
  moreover have "rx_alive ch = rx_alive (p_channels p) \<and> tx_alive ch = tx_alive (p_channels p)"
    using ch(2,3) by (simp add: fun_eq_iff recv_ends)
  ultimately show ?case by blast
qed

lemma stream_end_deregisters:
  assumes "processor_inv p" "hash_order_ok h" "join = JoinedOk \<or> join = JoinedPanic"
  shows "fst (stream_end h info join p) = Inr ()
    \<and> processor_inv (snd (stream_end h info join p))
    \<and> p_subscribers (snd (stream_end h info join p)) = (p_subscribers p)(si_id info := None)
    \<and> (\<forall>i t. subscribed (p_generator (snd (stream_end h info join p))) i t =
          (i \<noteq> si_id info \<and> subscribed (p_generator p) i t))
    \<and> \<not> rx_alive (p_channels (snd (stream_end h info join p))) (si_channel info)"
proof -
  let ?p = "p\<lparr>p_flags := (p_flags p)(si_shutdown info \<mapsto> True)\<rparr>"
  have inv: "processor_inv ?p" using assms(1) by (simp add: processor_inv_def)
  have "stream_end h info join p = (Inr (), (remove_subscriber h (si_id info) ?p)
      \<lparr>p_channels := drop_receiver (si_channel info) (p_channels (remove_subscriber h (si_id info) ?p))\<rparr>)"
    using assms(3) by (auto simp: stream_end_def Let_def)
  then show ?thesis
    using remove_subscriber_inv [OF inv assms(2)] remove_subscriber_subs [OF inv assms(2)]
    by (simp add: drop_receiver_effect)
qed

section \<open>Facts about the monitor\<close>

text \<open>
  What the events of a monitor mean: a datagram whose first 1000 bytes decode to a ping,
  when the last of them arrived, the replies they ask for, and when a timeout of the socket
  is the end of the subscriber.
\<close>

definition ping_of :: "'b bincode \<Rightarrow> u8 list \<Rightarrow> u64 option" where
  "ping_of bc bytes =
     (case udp_from_bytes bc (take monitor_buf bytes) of Inr (Ping t) \<Rightarrow> Some t | _ \<Rightarrow> None)"

fun last_ping_at :: "'b bincode \<Rightarrow> nat option \<Rightarrow> udp_event list \<Rightarrow> nat option" where
  "last_ping_at bc lp [] = lp"
| "last_ping_at bc lp (Datagram bytes src now # es) =
     last_ping_at bc (if ping_of bc bytes = None then lp else Some now) es"
| "last_ping_at bc lp (RecvErr e now # es) = last_ping_at bc lp es"

fun pongs_for :: "'b bincode \<Rightarrow> udp_event list \<Rightarrow> (socket_addr \<times> u64) list" where
  "pongs_for bc [] = []"
| "pongs_for bc (Datagram bytes src now # es) =
     (case ping_of bc bytes of None \<Rightarrow> [] | Some t \<Rightarrow> [(src, t)]) @ pongs_for bc es"
| "pongs_for bc (RecvErr e now # es) = pongs_for bc es"

definition gone_silent :: "nat \<Rightarrow> nat option \<Rightarrow> nat \<Rightarrow> bool" where
  "gone_silent start lp now \<longleftrightarrow>
     (case lp of Some t \<Rightarrow> t + 5000000000 < now | None \<Rightarrow> start + 15000000000 < now)"

text \<open>Some timeout in \<open>es\<close> finds the subscriber silent for too long.\<close>

fun declared_dead :: "'b bincode \<Rightarrow> nat \<Rightarrow> nat option \<Rightarrow> udp_event list \<Rightarrow> bool" where
  "declared_dead bc start lp [] = False"
| "declared_dead bc start lp (Datagram bytes src now # es) =
     declared_dead bc start (if ping_of bc bytes = None then lp else Some now) es"
| "declared_dead bc start lp (RecvErr e now # es) =
     (is_timeout e \<and> gone_silent start lp now \<or> declared_dead bc start lp es)"

definition pong_bytes :: "'b bincode \<Rightarrow> u64 \<Rightarrow> u8 list" where
  "pong_bytes bc t = (case udp_to_bytes bc (Pong t) of Inr bs \<Rightarrow> bs | Inl _ \<Rightarrow> [])"

definition pongs_serialize :: "'b bincode \<Rightarrow> bool" where
  "pongs_serialize bc \<longleftrightarrow> (\<forall>t. \<exists>bs. serialize_udp bc (Pong t) = Inr bs)"

lemma pong_serialized: "pongs_serialize bc \<Longrightarrow> udp_to_bytes bc (Pong t) = Inr (pong_bytes bc t)"
  by (cases "serialize_udp bc (Pong t)")
     (auto simp: pongs_serialize_def pong_bytes_def udp_to_bytes_def, metis Inl_Inr_False)

lemma monitor_datagram:
  assumes "pongs_serialize bc"
  shows "monitor_step bc m (Datagram bytes src now) = Continue
    (case ping_of bc bytes of None \<Rightarrow> m
     | Some t \<Rightarrow> m\<lparr>m_last_ping := Some now, m_pongs := m_pongs m @ [(src, pong_bytes bc t)]\<rparr>)"
  by (simp add: monitor_step_def ping_of_def pong_serialized [OF assms] split: sum.splits udp_message.splits)

lemma monitor_error:
  "monitor_step bc m (RecvErr e now) =
     (if is_timeout e \<and> gone_silent (m_start_time m) (m_last_ping m) now
      then Break (Returned, m\<lparr>m_shutdown := True\<rparr>) else Continue m)"
  by (auto simp: monitor_step_def gone_silent_def from_secs_def MAX_PING_TIMEOUT_def
      split: option.splits)

lemma monitor_run:
  assumes "pongs_serialize bc"
  shows "\<not> declared_dead bc (m_start_time m) (m_last_ping m) es \<Longrightarrow>
      run_loop (monitor_step bc) m es =
        Continue (m\<lparr>m_last_ping := last_ping_at bc (m_last_ping m) es,
          m_pongs := m_pongs m @ map (\<lambda>(src, t). (src, pong_bytes bc t)) (pongs_for bc es)\<rparr>)"
    and "declared_dead bc (m_start_time m) (m_last_ping m) es \<Longrightarrow>
      \<exists>m'. run_loop (monitor_step bc) m es = Break (Returned, m') \<and> m_shutdown m'"
proof (induction es arbitrary: m)
  case (Cons ev es)
  {
    case 1
    then show ?case
      using Cons.IH(1)
      by (cases ev) (auto simp: monitor_datagram [OF assms] monitor_error split: option.splits)
  next
    case 2
    then show ?case
      using Cons.IH(2)
      by (cases ev) (auto simp: monitor_datagram [OF assms] monitor_error split: option.splits if_splits)
  }
qed simp_all


section \<open>Facts about requests\<close>

abbreviation first_unknown :: "processor \<Rightarrow> subscribe_command \<Rightarrow> string option" where
  "first_unknown p cmd \<equiv> find (\<lambda>t. tickers_to_receivers (p_generator p) t = None) (sc_tickers cmd)"

abbreviation unknown_ticker_reply :: "string \<Rightarrow> string" where
  "unknown_ticker_reply t \<equiv> ''Generator error: Ticker does not exist: '' @ t"

lemma add_subscriber_subs:
  assumes "processor_inv p" "first_unknown p cmd = None"
  shows "fst (add_subscriber cmd p) = Inr (p_next_id p)
    \<and> (\<forall>i t. subscribed (p_generator (snd (add_subscriber cmd p))) i t =
         (if i = p_next_id p then t \<in> set (sc_tickers cmd) else subscribed (p_generator p) i t))
    \<and> (\<forall>t. (tickers_to_receivers (p_generator (snd (add_subscriber cmd p))) t \<noteq> None) =
         (tickers_to_receivers (p_generator p) t \<noteq> None))
    \<and> p_subscribers (snd (add_subscriber cmd p)) =
        (p_subscribers p)(p_next_id p \<mapsto> \<lparr>sh_shutdown = p_next_addr p\<rparr>)
    \<and> p_channels (snd (add_subscriber cmd p)) = (p_channels p)(p_next_addr p \<mapsto> new_channel)
    \<and> p_flags (snd (add_subscriber cmd p)) = (p_flags p)(p_next_addr p \<mapsto> False)
    \<and> p_spawned (snd (add_subscriber cmd p)) = p_spawned p @ [\<lparr>si_id = p_next_id p,
        si_channel = p_next_addr p, si_udp_addr = (sc_ip cmd, sc_port cmd), si_shutdown = p_next_addr p\<rparr>]"
proof (cases rule: add_subscriber_cases [OF assms(1), of cmd])
  case (1 t)
  with assms(2) show ?thesis by simp
next
  case (2 g)
  have reg: "registry_inv (p_generator p)"
    using assms(1) by (simp add: processor_inv_def generator_ok_def)
  show ?thesis
    using add_receiver_subs [OF reg next_id_unused(2) [OF assms(1)] 2(2)]
    by (simp add: 2(3) del: option.simps not_None_eq)
qed

lemma add_subscriber_generator:
  assumes "processor_inv p"
  shows "prices (p_generator (snd (add_subscriber cmd p))) = prices (p_generator p)"
    and "gen_shutdown (p_generator (snd (add_subscriber cmd p))) = gen_shutdown (p_generator p)"
proof -
  have "prices (p_generator (snd (add_subscriber cmd p))) = prices (p_generator p)
      \<and> gen_shutdown (p_generator (snd (add_subscriber cmd p))) = gen_shutdown (p_generator p)"
  proof (cases rule: add_subscriber_cases [OF assms, of cmd])
    case (2 g)
    then show ?thesis by (auto simp: add_receiver_def Let_def split: option.splits)
  qed simp
  then show "prices (p_generator (snd (add_subscriber cmd p))) = prices (p_generator p)"
    "gen_shutdown (p_generator (snd (add_subscriber cmd p))) = gen_shutdown (p_generator p)" by simp_all
qed

lemma add_subscriber_refused:
  assumes "processor_inv p" "first_unknown p cmd = Some t"
  shows "fst (add_subscriber cmd p) = Inl (GenErr (TickerNotExists t))
    \<and> p_generator (snd (add_subscriber cmd p)) = p_generator p
    \<and> p_subscribers (snd (add_subscriber cmd p)) = p_subscribers p
    \<and> p_spawned (snd (add_subscriber cmd p)) = p_spawned p
    \<and> \<not> tx_alive (p_channels (snd (add_subscriber cmd p))) (p_next_addr p)
    \<and> \<not> rx_alive (p_channels (snd (add_subscriber cmd p))) (p_next_addr p)"
proof (cases rule: add_subscriber_cases [OF assms(1), of cmd])
  case (1 u)
  with assms(2) show ?thesis by (simp add: channel)
next
  case (2 g)
  with assms(2) show ?thesis by simp
qed

text \<open>What a request handler does with each outcome of reading, on a connection that takes the reply.\<close>

lemma handle_request_read_error:
  "read_tcp_message inp = (Inl e, inp') \<Longrightarrow>
     handle_request sd inp out p = (Inl (ParseErr e), inp', out, p)"
  by (simp add: handle_request_def)

lemma handle_request_message:
  assumes "read_tcp_message inp = (Inr msg, inp')" "room out = None"
  shows "handle_request sd inp out p =
    (Inr (), inp', out\<lparr>written := written out @ frame (tcp_to_string (fst (response_to sd msg p)))\<rparr>,
     snd (response_to sd msg p))"
  using assms by (simp add: handle_request_def case_prod_beta send_unlimited)

lemma response_cases:
  assumes "processor_inv p"
  shows "response_to sd (Cmd cmd) p =
    (case first_unknown p cmd of None \<Rightarrow> Ack | Some t \<Rightarrow> Err (unknown_ticker_reply t),
     snd (add_subscriber cmd p))"
  using add_subscriber_subs [OF assms, of cmd] add_subscriber_refused [OF assms, of cmd]
  by (cases "add_subscriber cmd p") (auto simp: response_to_def split: option.splits)

lemma response_inv:
  assumes "processor_inv p" "p_next_id p \<noteq> - 1"
  shows "processor_inv (snd (response_to sd msg p))"
proof (cases msg)
  case (Cmd cmd)
  with assms show ?thesis by (simp add: response_cases add_subscriber_inv)
qed (use assms in \<open>simp_all add: response_to_def\<close>)

lemma response_next_id: "p_next_id (snd (response_to sd msg p)) \<in> {p_next_id p, p_next_id p + 1}"
  by (auto simp: response_to_def add_subscriber_def Let_def
      split: tcp_message.splits prod.splits sum.splits)

lemma response_shutdown: "p_shutdown (snd (response_to sd msg p)) = p_shutdown p"
  by (auto simp: response_to_def add_subscriber_def Let_def
      split: tcp_message.splits prod.splits sum.splits)

lemma handle_request_state:
  "(case handle_request sd inp out p of (_, _, _, p') \<Rightarrow> p') =
     (case fst (read_tcp_message inp) of Inl e \<Rightarrow> p | Inr msg \<Rightarrow> snd (response_to sd msg p))"
  by (auto simp: handle_request_def split: prod.splits sum.splits)

definition serve :: "(strum_error \<Rightarrow> string) \<Rightarrow> in_stream \<Rightarrow> processor \<Rightarrow> processor" where
  "serve sd inp p =
     (case fst (read_tcp_message inp) of Inl e \<Rightarrow> p | Inr msg \<Rightarrow> snd (response_to sd msg p))"

lemma accept_step_simps:
  "p_shutdown p \<Longrightarrow> accept_step sd p ev = Break p"
  "\<not> p_shutdown p \<Longrightarrow> accept_step sd p (AcceptConn inp out) = Continue (serve sd inp p)"
  "\<not> p_shutdown p \<Longrightarrow> accept_step sd p (AcceptErr e) = Continue p"
  using handle_request_state [of sd inp out p]
  by (auto simp: accept_step_def serve_def split: prod.splits)

lemma serve_shutdown: "p_shutdown (serve sd inp p) = p_shutdown p"
  by (simp add: serve_def response_shutdown split: sum.splits)

lemma serve_inv:
  assumes "processor_inv p" "unat (p_next_id p) + n < 2 ^ 64" "0 < n"
  shows "processor_inv (serve sd inp p)" "unat (p_next_id (serve sd inp p)) + (n - 1) < 2 ^ 64"
proof -
  have "p_next_id p \<noteq> - 1" using assms(2,3) by (auto simp: unsigned_minus_1_eq_mask mask_eq_exp_minus_1)
  then show "processor_inv (serve sd inp p)"
    using assms(1) by (simp add: serve_def response_inv split: sum.splits)
  have "unat (p_next_id p + 1) \<le> unat (p_next_id p) + 1"
    using mod_less_eq_dividend [of "unat (p_next_id p) + 1"] by (simp only: unat_word_ariths unat_1 len_num1) simp
  moreover have "p_next_id (serve sd inp p) \<in> {p_next_id p, p_next_id p + 1}"
    using response_next_id [of sd _ p] by (simp add: serve_def split: sum.splits)
  ultimately have "unat (p_next_id (serve sd inp p)) \<le> unat (p_next_id p) + 1" by auto
  with assms(2,3) show "unat (p_next_id (serve sd inp p)) + (n - 1) < 2 ^ 64" by linarith
qed

lemma accept_run:
  assumes "processor_inv p" "unat (p_next_id p) + length events < 2 ^ 64" "\<not> p_shutdown p"
  shows "\<exists>p'. run_loop (accept_step sd) p events = Continue p' \<and> processor_inv p' \<and> \<not> p_shutdown p'"
  using assms
proof (induction events arbitrary: p)
  case Nil
  then show ?case by simp
next
  case (Cons ev events)
  then show ?case
    using serve_inv [OF Cons.prems(1,2)]
    by (cases ev) (simp_all add: accept_step_simps serve_shutdown)
qed

section \<open>Concrete inputs\<close>

definition strum_text :: "strum_error \<Rightarrow> string" where
  "strum_text e = ''Matching variant not found''"

definition example_processor :: processor where
  "example_processor =
     \<lparr>p_port = 8090, p_generator = example_generator, p_channels = Map.empty,
      p_subscribers = Map.empty, p_next_id = 0, p_shutdown = False,
      p_flags = Map.empty, p_next_addr = 0, p_spawned = []\<rparr>"

definition example_command :: subscribe_command where
  "example_command = \<lparr>sc_cmd = Stream, sc_protocol = Udp, sc_ip = Ipv4 127 0 0 1, sc_port = 8091,
     sc_tickers = [''XYZ'']\<rparr>"

definition refused_command :: subscribe_command where
  "refused_command = example_command\<lparr>sc_tickers := [''XYZ'', ''NOPE'']\<rparr>"

lemma example_processor_inv: "processor_inv example_processor"
  using example_generator_facts
  by (auto simp: processor_inv_def example_processor_def generator_ok_def prices_ok_def
      price_constants finite_not_nan less_eq_f64_def split: if_splits)

lemma example_known:
  "first_unknown example_processor example_command = None"
  "first_unknown example_processor refused_command = Some ''NOPE''"
  by (simp_all add: example_processor_def example_command_def refused_command_def example_generator_facts)

lemma example_ids: "p_next_id example_processor = 0" "p_next_addr example_processor = 0"
  "p_next_id example_processor \<noteq> - 1" "p_subscribers example_processor = Map.empty"
  "\<not> p_shutdown example_processor"
  by (simp_all add: example_processor_def)

text \<open>The example processor with one subscriber, whose channel is at address 0.\<close>

definition subscribed_processor :: processor where
  "subscribed_processor = snd (add_subscriber example_command example_processor)"

lemma subscribed_processor_inv: "processor_inv subscribed_processor"
  using add_subscriber_inv [OF example_processor_inv] by (simp add: subscribed_processor_def example_ids)

lemma subscribed_processor_facts:
  "p_subscribers subscribed_processor = [0 \<mapsto> \<lparr>sh_shutdown = 0\<rparr>]"
  "subscribed (p_generator subscribed_processor) 0 ''XYZ''"
  "p_flags subscribed_processor 0 = Some False"
  "p_spawned subscribed_processor = [\<lparr>si_id = 0, si_channel = 0,
     si_udp_addr = (Ipv4 127 0 0 1, 8091), si_shutdown = 0\<rparr>]"
  using add_subscriber_subs [OF example_processor_inv example_known(1)]
  by (simp_all add: subscribed_processor_def example_ids example_command_def example_processor_def)

lemma subscribed_registries:
  "receivers (p_generator subscribed_processor) = [0 \<mapsto> \<lparr>ri_channel = 0, ri_tickers = {''XYZ''}\<rparr>]"
  "tickers_to_receivers (p_generator subscribed_processor) ''XYZ'' = Some {0}"
  "prices (p_generator subscribed_processor) ''XYZ'' = Some \<lparr>pc_price = MIN_PRICE, pc_last_change = 0\<rparr>"
  "\<not> gen_shutdown (p_generator subscribed_processor)"
  "rx_alive (p_channels subscribed_processor) 0" "queue_at (p_channels subscribed_processor) 0 = []"
  by (simp_all add: subscribed_processor_def add_subscriber_def add_receiver_def example_processor_def
      example_command_def example_generator_facts drop_replaced_def subscribe_to_apply Let_def channel)

lemma subscribed_next:
  "p_next_addr subscribed_processor = 1" "first_unknown subscribed_processor example_command = None"
  by (simp_all add: subscribed_processor_def add_subscriber_def add_receiver_def example_processor_def
      example_command_def example_generator_facts subscribe_to_apply Let_def)

section \<open>An id in use\<close>

lemma add_subscriber_reused:
  assumes "receivers (p_generator p) (p_next_id p) = Some old" "first_unknown p cmd = None"
    and "ri_channel old \<noteq> p_next_addr p"
  shows "fst (add_subscriber cmd p) = Inr (p_next_id p)"
    and "receivers (p_generator (snd (add_subscriber cmd p))) =
      (receivers (p_generator p))(p_next_id p \<mapsto> \<lparr>ri_channel = p_next_addr p, ri_tickers = set (sc_tickers cmd)\<rparr>)"
    and "\<not> tx_alive (p_channels (snd (add_subscriber cmd p))) (ri_channel old)"
    and "queue_at (p_channels (snd (add_subscriber cmd p))) (ri_channel old) = queue_at (p_channels p) (ri_channel old)"
    and "listed (p_generator p) i t \<Longrightarrow> listed (p_generator (snd (add_subscriber cmd p))) i t"
    and "p_subscribers (snd (add_subscriber cmd p)) (p_next_id p) = Some \<lparr>sh_shutdown = p_next_addr p\<rparr>"
    and "flag_set (snd (add_subscriber cmd p)) a \<longleftrightarrow> a \<noteq> p_next_addr p \<and> flag_set p a"
proof -
  have "check_tickers (tickers_to_receivers (p_generator p)) (sc_tickers cmd) = None"
    using assms(2) by (simp add: check_tickers_find split: option.splits)
  note eval = add_subscriber_def add_receiver_def this assms(1) Let_def drop_replaced_def
  show "fst (add_subscriber cmd p) = Inr (p_next_id p)"
    and "receivers (p_generator (snd (add_subscriber cmd p))) =
      (receivers (p_generator p))(p_next_id p \<mapsto> \<lparr>ri_channel = p_next_addr p, ri_tickers = set (sc_tickers cmd)\<rparr>)"
    and "p_subscribers (snd (add_subscriber cmd p)) (p_next_id p) = Some \<lparr>sh_shutdown = p_next_addr p\<rparr>"
    and "flag_set (snd (add_subscriber cmd p)) a \<longleftrightarrow> a \<noteq> p_next_addr p \<and> flag_set p a"
    by (simp_all add: eval flag_set_def)
  show "\<not> tx_alive (p_channels (snd (add_subscriber cmd p))) (ri_channel old)"
    and "queue_at (p_channels (snd (add_subscriber cmd p))) (ri_channel old) = queue_at (p_channels p) (ri_channel old)"
    using assms(3) by (simp_all add: eval channel)
  show "listed (p_generator p) i t \<Longrightarrow> listed (p_generator (snd (add_subscriber cmd p))) i t"
    by (auto simp: eval listed_def subscribe_to_apply split: option.splits)
qed

section \<open>Properties\<close>

text \<open>
  Claim C18. What \<open>add_subscriber\<close> does, on both branches. If a requested ticker is not
  configured, the error names the first such ticker, both ends of the new channel are
  dropped and nothing but the two counters and the unused flag and channel changes: no
  subscription, no handle, no thread. Otherwise it returns the new id, which is subscribed
  to exactly the requested tickers while every other subscription stays, the handle shares
  its flag with the one streaming thread that is started, and that thread gets the address
  of the command and the new, empty, connected channel. Either way the registries still agree.
\<close>

theorem add_subscriber_outcome:
  assumes "processor_inv p" "p_next_id p \<noteq> - 1"
  shows "processor_inv (snd (add_subscriber cmd p))
    \<and> (case first_unknown p cmd of
         Some t \<Rightarrow> fst (add_subscriber cmd p) = Inl (GenErr (TickerNotExists t))
           \<and> p_generator (snd (add_subscriber cmd p)) = p_generator p
           \<and> p_subscribers (snd (add_subscriber cmd p)) = p_subscribers p
           \<and> p_spawned (snd (add_subscriber cmd p)) = p_spawned p
           \<and> \<not> tx_alive (p_channels (snd (add_subscriber cmd p))) (p_next_addr p)
           \<and> \<not> rx_alive (p_channels (snd (add_subscriber cmd p))) (p_next_addr p)
       | None \<Rightarrow> fst (add_subscriber cmd p) = Inr (p_next_id p)
           \<and> (\<forall>i t. subscribed (p_generator (snd (add_subscriber cmd p))) i t =
                (if i = p_next_id p then t \<in> set (sc_tickers cmd) else subscribed (p_generator p) i t))
           \<and> p_subscribers (snd (add_subscriber cmd p)) =
               (p_subscribers p)(p_next_id p \<mapsto> \<lparr>sh_shutdown = p_next_addr p\<rparr>)
           \<and> \<not> flag_set (snd (add_subscriber cmd p)) (p_next_addr p)
           \<and> p_channels (snd (add_subscriber cmd p)) (p_next_addr p) = Some new_channel
           \<and> p_spawned (snd (add_subscriber cmd p)) = p_spawned p @ [\<lparr>si_id = p_next_id p,
               si_channel = p_next_addr p, si_udp_addr = (sc_ip cmd, sc_port cmd),
               si_shutdown = p_next_addr p\<rparr>])"
  using add_subscriber_inv [OF assms, of cmd] add_subscriber_subs [OF assms(1), of cmd]
    add_subscriber_refused [OF assms(1), of cmd]
  by (cases "first_unknown p cmd") (simp_all add: flag_set_def)

theorem add_subscriber_outcome_witness:
  "fst (add_subscriber refused_command example_processor)
     = Inl (GenErr (TickerNotExists ''NOPE''))
   \<and> fst (add_subscriber example_command example_processor) = Inr 0"
  using add_subscriber_outcome [OF example_processor_inv example_ids(3), of example_command]
    add_subscriber_outcome [OF example_processor_inv example_ids(3),
      of refused_command]
  by (simp add: example_known example_ids)

text \<open>
  Claim C25. What \<open>remove_subscriber\<close> does: the subscriber's handle and all its
  subscriptions are gone and nobody else's are, its flag tells the streaming thread to
  stop, its channel has lost its sender, the registries still agree, and a second call
  changes nothing.
\<close>

theorem remove_subscriber_outcome:
  assumes "processor_inv p" "hash_order_ok h"
  shows "processor_inv (remove_subscriber h rid p)
    \<and> p_subscribers (remove_subscriber h rid p) = (p_subscribers p)(rid := None)
    \<and> (\<forall>i t. subscribed (p_generator (remove_subscriber h rid p)) i t =
         (i \<noteq> rid \<and> subscribed (p_generator p) i t))
    \<and> (\<forall>handle. p_subscribers p rid = Some handle \<longrightarrow>
         flag_set (remove_subscriber h rid p) (sh_shutdown handle))
    \<and> (\<forall>info. receivers (p_generator p) rid = Some info \<longrightarrow>
         \<not> tx_alive (p_channels (remove_subscriber h rid p)) (ri_channel info))
    \<and> remove_subscriber h rid (remove_subscriber h rid p) = remove_subscriber h rid p"
proof -
  have "flag_set (remove_subscriber h rid p) (sh_shutdown handle)"
    if "p_subscribers p rid = Some handle" for handle
    using that by (cases rule: remove_subscriber_cases [of p rid h]) (auto simp: flag_set_def)
  moreover have "\<not> tx_alive (p_channels (remove_subscriber h rid p)) (ri_channel info)"
    if "receivers (p_generator p) rid = Some info" for info
  proof (cases rule: remove_subscriber_cases [of p rid h])
    case absent
    with that assms(1) show ?thesis unfolding processor_inv_def by (metis option.distinct(1))
  next
    case (present handle)
    with that show ?thesis by (simp add: drop_replaced_def drop_sender_effect)
  qed
  moreover have "remove_subscriber h rid (remove_subscriber h rid p) = remove_subscriber h rid p"
    by (subst remove_subscriber_def) (simp add: remove_subscriber_subs [OF assms])
  ultimately show ?thesis
    using remove_subscriber_inv [OF assms] remove_subscriber_subs [OF assms] by simp
qed

theorem remove_subscriber_outcome_witness:
  "flag_set (remove_subscriber sorted_order 0 subscribed_processor) 0
   \<and> p_subscribers (remove_subscriber sorted_order 0 subscribed_processor) = Map.empty
   \<and> \<not> subscribed (p_generator (remove_subscriber sorted_order 0 subscribed_processor)) 0 ''XYZ''"
  using remove_subscriber_outcome [OF subscribed_processor_inv sorted_order_ok, of 0]
  by (simp add: subscribed_processor_facts)


text \<open>
  Removing a subscriber that was just added restores every subscription and the
  table of handles, and the streaming thread that was started for it leaves its loop at its
  next iteration without sending anything more.
\<close>

lemma subscription_lifecycle:
  assumes "processor_inv p" "p_next_id p \<noteq> - 1" "first_unknown p cmd = None" "hash_order_ok h"
    and "p1 = snd (add_subscriber cmd p)" "p2 = remove_subscriber h (p_next_id p) p1"
  shows "p_subscribers p2 = p_subscribers p
    \<and> (\<forall>i t. subscribed (p_generator p2) i t = subscribed (p_generator p) i t)
    \<and> stream_step bc (last (p_spawned p1)) (p2, sent) err = Break (p2, sent)"
proof -
  note added = add_subscriber_subs [OF assms(1,3)]
  have inv: "processor_inv p1" using add_subscriber_inv [OF assms(1,2)] by (simp add: assms(5))
  have "p_subscribers p2 = p_subscribers p"
    using added next_id_unused(1) [OF assms(1)]
    by (simp add: assms(5,6) remove_subscriber_subs [OF inv assms(4), unfolded assms(5)] fun_upd_idem)
  moreover have "subscribed (p_generator p2) i t = subscribed (p_generator p) i t" for i t
    using added next_id_unused(2) [OF assms(1)]
    by (cases "i = p_next_id p")
       (simp_all add: assms(5,6) remove_subscriber_subs [OF inv assms(4), unfolded assms(5)] subscribed_def)
  moreover have "flag_set p2 (p_next_addr p)"
    using added by (cases rule: remove_subscriber_cases [of p1 "p_next_id p" h])
      (auto simp: assms(5,6) flag_set_def)
  then have "flag_set p2 (si_shutdown (last (p_spawned p1)))"
    using added by (simp add: assms(5))
  then have "stream_step bc (last (p_spawned p1)) (p2, sent) err = Break (p2, sent)"
    by (rule stream_step_flagged)
  ultimately show ?thesis by blast
qed

text \<open>
  Claim C24. A connection gets at most one reply, and the reply says what happened. A
  request that cannot be read or parsed gets no reply and changes nothing; a message that
  is not a command gets an error and changes nothing; a command gets \<open>ACK\<close> exactly when all
  its tickers are configured, and otherwise an error that names the first one that is not.
\<close>

theorem request_reply:
  assumes "processor_inv p" "read_tcp_message inp = (r, inp')" "room out = None"
  shows "handle_request sd inp out p =
    (case r of
       Inl e \<Rightarrow> (Inl (ParseErr e), inp', out, p)
     | Inr (Cmd cmd) \<Rightarrow>
         (Inr (), inp', out\<lparr>written := written out @ frame (case first_unknown p cmd of
            None \<Rightarrow> ''ACK''
          | Some t \<Rightarrow> ''ERR|Generator error: Ticker does not exist: '' @ t)\<rparr>,
          snd (add_subscriber cmd p))
     | Inr _ \<Rightarrow>
         (Inr (), inp', out\<lparr>written := written out @ frame ''ERR|Unexpected message type''\<rparr>, p))"
proof (cases r)
  case (Inl e)
  with assms(2) show ?thesis by (simp add: handle_request_read_error)
next
  case (Inr msg)
  with assms(2) have read: "read_tcp_message inp = (Inr msg, inp')" by simp
  show ?thesis
    using response_cases [OF assms(1), of sd]
    by (cases msg) (simp_all add: Inr handle_request_message [OF read assms(3)] response_to_def
        split: option.splits)
qed

lemma example_request:
  "read_tcp_message \<lparr>avail = frame ''CMD|STREAM|UDP|127.0.0.1|8091|XYZ'', in_end = e\<rparr> =
     (Inr (Cmd example_command), \<lparr>avail = [], in_end = e\<rparr>)"
proof -
  have printed: "tcp_to_string (Cmd example_command) = ''CMD|STREAM|UDP|127.0.0.1|8091|XYZ''"
    by (simp add: example_command_def display_subscribe_def show_word_def show_nat.simps
        digit_char_def char_of_def bit_Suc_0_iff)
  have "valid_str ''XYZ''" by (rule valid_str_ascii) (simp add: is_ascii_def)
  then have "tcp_wf (Cmd example_command)" "tcp_utf8 (Cmd example_command)"
    by (auto simp: example_command_def subscribe_wf_def)
  then show ?thesis
    using read_sent [of "Cmd example_command" "\<lparr>avail = frame ''CMD|STREAM|UDP|127.0.0.1|8091|XYZ'',
        in_end = e\<rparr>" "[]"] by (simp only: printed) (simp add: max_message_def)
qed

theorem request_reply_witness:
  "handle_request strum_text \<lparr>avail = frame ''CMD|STREAM|UDP|127.0.0.1|8091|XYZ'',
       in_end = IoError UnexpectedEof None ''''\<rparr>
     \<lparr>written = [], room = None, out_end = IoError OtherKind None ''''\<rparr> example_processor
   = (Inr (), \<lparr>avail = [], in_end = IoError UnexpectedEof None ''''\<rparr>,
      \<lparr>written = frame ''ACK'', room = None, out_end = IoError OtherKind None ''''\<rparr>,
      subscribed_processor)"
  using request_reply [OF example_processor_inv example_request]
  by (simp add: example_known subscribed_processor_def)


text \<open>
  Claim C22. Quotes reach the subscriber in the order in which they were queued: as long as
  its flag is clear, \<open>n\<close> iterations of a streaming thread with at least \<open>n\<close> quotes waiting
  take exactly the first \<open>n\<close> of them, send one datagram each to the address of the
  command (none for a quote that cannot be serialised or sent), keep the loop running and
  leave every other queue alone.
\<close>

theorem stream_in_order:
  assumes "\<not> flag_set p (si_shutdown info)"
    and "length errs \<le> length (queue_at (p_channels p) (si_channel info))"
  shows "\<exists>p'. run_loop (stream_step bc info) (p, sent) errs = Continue (p',
        sent @ concat (map2 (\<lambda>q err. case udp_to_bytes bc (Quote q) of
              Inr bytes \<Rightarrow> if err = None then [(si_udp_addr info, bytes)] else []
            | Inl _ \<Rightarrow> []) (queue_at (p_channels p) (si_channel info)) errs))
    \<and> (\<forall>a. queue_at (p_channels p') a = (if a = si_channel info
          then drop (length errs) (queue_at (p_channels p) a) else queue_at (p_channels p) a))
    \<and> p_generator p' = p_generator p \<and> p_subscribers p' = p_subscribers p"
proof -
  have "datagrams_for bc addr = (\<lambda>q err. case udp_to_bytes bc (Quote q) of
      Inr bytes \<Rightarrow> if err = None then [(addr, bytes)] else [] | Inl _ \<Rightarrow> [])" for addr
    by (simp add: fun_eq_iff datagrams_for_def)
  then show ?thesis using stream_run [OF assms, of bc sent] by auto
qed

definition example_quote :: "u64 \<Rightarrow> stock_quote" where
  "example_quote n = \<lparr>q_ticker = ''XYZ'', q_price = F64 0x3FF0000000000000, q_volume = 100, q_timestamp = n\<rparr>"

lemma example_quote_fits: "quote_fits (example_quote n)"
  by (simp add: quote_fits_def example_quote_def)

theorem stream_in_order_witness:
  "\<exists>p'. run_loop (stream_step reference_bincode
        \<lparr>si_id = 0, si_channel = 0, si_udp_addr = (Ipv4 127 0 0 1, 8091), si_shutdown = 0\<rparr>)
      (subscribed_processor\<lparr>p_channels :=
         [0 \<mapsto> \<lparr>ch_queue = map example_quote [1, 2, 3], ch_tx = True, ch_rx = True\<rparr>]\<rparr>, [])
      [None, Some (IoError OtherKind None ''''), None]
    = Continue (p', [((Ipv4 127 0 0 1, 8091), write_udp (Quote (example_quote 1))),
        ((Ipv4 127 0 0 1, 8091), write_udp (Quote (example_quote 3)))])"
proof -
  let ?info = "\<lparr>si_id = 0, si_channel = 0, si_udp_addr = (Ipv4 127 0 0 1, 8091), si_shutdown = 0\<rparr>"
  let ?p = "subscribed_processor\<lparr>p_channels :=
    [0 \<mapsto> \<lparr>ch_queue = map example_quote [1, 2, 3], ch_tx = True, ch_rx = True\<rparr>]\<rparr>"
  have queue: "queue_at (p_channels ?p) (si_channel ?info) = map example_quote [1, 2, 3]"
    by (simp add: queue_at_def)
  have running: "\<not> flag_set ?p (si_shutdown ?info)"
    by (simp add: flag_set_def subscribed_processor_facts)
  have enough: "length [None, Some (IoError OtherKind None ''''), None]
      \<le> length (queue_at (p_channels ?p) (si_channel ?info))"
    by (simp add: queue_at_def)
  obtain p' where run: "run_loop (stream_step reference_bincode ?info) (?p, [])
      [None, Some (IoError OtherKind None ''''), None] = Continue (p',
        [] @ concat (map2 (\<lambda>q err. case udp_to_bytes reference_bincode (Quote q) of
              Inr bytes \<Rightarrow> if err = None then [(si_udp_addr ?info, bytes)] else []
            | Inl _ \<Rightarrow> []) (queue_at (p_channels ?p) (si_channel ?info))
          [None, Some (IoError OtherKind None ''''), None]))"
    using stream_in_order [OF running enough, of reference_bincode "[]"] by blast
  show ?thesis
    unfolding run queue by (simp add: example_quote_fits del: write_udp.simps)
qed

text \<open>
  However a streaming thread returns (its socket cannot be bound, its flag is
  set, its channel is disconnected; with a monitor that returned or panicked), it returns
  without an error and leaves no trace of its subscriber: no handle, no subscription, its
  end of the channel closed, everyone else's subscriptions untouched and the registries in
  agreement.
\<close>

lemma streaming_cleans_up:
  assumes "processor_inv p" "hash_order_ok h" "join = JoinedOk \<or> join = JoinedPanic"
    and "start_streaming bc h bind (Inr ()) info events join p = Break (r, p', sent)"
  shows "r = Value (Inr ()) \<and> processor_inv p' \<and> p_subscribers p' (si_id info) = None
    \<and> (\<forall>i t. subscribed (p_generator p') i t = (i \<noteq> si_id info \<and> subscribed (p_generator p) i t))
    \<and> \<not> rx_alive (p_channels p') (si_channel info)"
proof (cases bind)
  case (Inl e)
  with assms(4) have "r = Value (Inr ())"
    and p': "p' = (remove_subscriber h (si_id info) p)\<lparr>p_channels :=
        drop_receiver (si_channel info) (p_channels (remove_subscriber h (si_id info) p))\<rparr>"
    by (auto simp: start_streaming_def Let_def)
  then show ?thesis
    using remove_subscriber_inv [OF assms(1,2)] remove_subscriber_subs [OF assms(1,2)]
    by (simp add: drop_receiver_effect)
next
  case (Inr u)
  with assms(4) obtain p1 where run: "run_loop (stream_step bc info) (p, []) events = Break (p1, sent)"
    and r: "r = Value (fst (stream_end h info join p1))" "p' = snd (stream_end h info join p1)"
    by (auto simp: start_streaming_def split: control.splits prod.splits)
  have "processor_inv p1"
    using stream_thread.run_break [OF _ _ run] assms(1) by (simp add: list.pred_True)
  moreover have "p_generator p1 = p_generator p"
    using stream_generator.run_break [OF _ _ run] by (simp add: list.pred_True)
  ultimately show ?thesis
    using stream_end_deregisters [OF _ assms(2,3), of p1 info] by (simp add: r)
qed

text \<open>Some event of a list, with those before it, satisfies a predicate.\<close>

definition somewhere :: "('e list \<Rightarrow> 'e \<Rightarrow> bool) \<Rightarrow> 'e list \<Rightarrow> bool" where
  "somewhere P es \<longleftrightarrow> (\<exists>before ev after. es = before @ ev # after \<and> P before ev)"

lemma somewhere_simps [simp]:
  "\<not> somewhere P []"
  "somewhere P (e # es) \<longleftrightarrow> P [] e \<or> somewhere (\<lambda>before. P (e # before)) es"
  by (auto simp: somewhere_def Cons_eq_append_conv)

lemma declared_dead_somewhere:
  "declared_dead bc start lp es \<longleftrightarrow>
     somewhere (\<lambda>before ev. case ev of
         RecvErr e now \<Rightarrow> is_timeout e \<and> gone_silent start (last_ping_at bc lp before) now
       | _ \<Rightarrow> False) es"
proof (induction es arbitrary: lp)
  case (Cons ev es)
  then show ?case by (cases ev) simp_all
qed simp

lemma declared_dead_iff:
  "declared_dead bc start lp es \<longleftrightarrow>
     (\<exists>before e now after. es = before @ RecvErr e now # after \<and> is_timeout e
        \<and> gone_silent start (last_ping_at bc lp before) now)"
  unfolding declared_dead_somewhere somewhere_def by (fastforce split: udp_event.splits)

text \<open>
  Claim C21. When the monitor gives a subscriber up: exactly at a read timeout that comes
  more than 5 s after the last ping or, while there has been no ping at all, more than
  15 s after the start. Then it sets the flag it shares with the streaming thread and
  returns; otherwise it runs on, even when that flag was set before: it never reads it.
\<close>

theorem monitor_verdict:
  assumes "\<forall>t. \<exists>bs. serialize_udp bc (Pong t) = Inr bs"
  shows "if \<exists>before e now after. es = before @ RecvErr e now # after \<and> is_timeout e
             \<and> (case last_ping_at bc None before of
                  Some t \<Rightarrow> t + 5000000000 < now
                | None \<Rightarrow> start + 15000000000 < now)
         then \<exists>m. monitor_connection bc (Inr ()) start shutdown es = Break (Returned, m) \<and> m_shutdown m
         else \<exists>m. monitor_connection bc (Inr ()) start shutdown es = Continue m \<and> m_shutdown m = shutdown"
proof -
  have ok: "pongs_serialize bc" using assms by (simp add: pongs_serialize_def)
  have "declared_dead bc start None es \<longleftrightarrow>
      (\<exists>before e now after. es = before @ RecvErr e now # after \<and> is_timeout e
             \<and> (case last_ping_at bc None before of
                  Some t \<Rightarrow> t + 5000000000 < now
                | None \<Rightarrow> start + 15000000000 < now))"
    by (simp only: declared_dead_iff gone_silent_def)
  with monitor_run [OF ok, of "new_monitor start shutdown" es] show ?thesis
    by (auto simp: monitor_connection_def new_monitor_def)
qed

text \<open>A subscriber that pings once, one second after the start of the monitor.\<close>

definition example_events :: "udp_event list" where
  "example_events =
     [Datagram (write_udp (Ping 77)) (Ipv4 127 0 0 1, 8091) 1000000000,
      RecvErr (IoError WouldBlock None '''') 6000000000]"

lemma reference_pongs: "\<forall>t. \<exists>bs. serialize_udp reference_bincode (Pong t) = Inr bs"
  by (simp add: reference_bincode_def)

lemma example_ping: "ping_of reference_bincode (write_udp (Ping t)) = Some t"
proof -
  have "take monitor_buf (write_udp (Ping t)) = write_udp (Ping t)"
    by (simp add: monitor_buf_def del: write_udp.simps add: length_write_udp)
  then show ?thesis by (simp add: ping_of_def reference_decodes del: write_udp.simps)
qed

theorem monitor_verdict_witness:
  "(\<exists>m. monitor_connection reference_bincode (Inr ()) 0 True example_events = Continue m)
   \<and> (\<exists>m. monitor_connection reference_bincode (Inr ()) 0 False
        (example_events @ [RecvErr (IoError WouldBlock None '''') 6000000001]) = Break (Returned, m)
        \<and> m_shutdown m)"
proof
  have late: "declared_dead reference_bincode 0 None es \<longleftrightarrow>
      (\<exists>before e now after. es = before @ RecvErr e now # after \<and> is_timeout e
             \<and> (case last_ping_at reference_bincode None before of
                  Some t \<Rightarrow> t + 5000000000 < now
                | None \<Rightarrow> 0 + 15000000000 < now))" for es
    by (simp only: declared_dead_iff gone_silent_def)
  have "\<not> declared_dead reference_bincode 0 None example_events"
    by (simp add: example_events_def example_ping gone_silent_def del: write_udp.simps)
  then show "\<exists>m. monitor_connection reference_bincode (Inr ()) 0 True example_events = Continue m"
    using monitor_verdict [OF reference_pongs, of example_events 0 True]
    unfolding late [symmetric] by (simp only: if_False) blast
  have "declared_dead reference_bincode 0 None
      (example_events @ [RecvErr (IoError WouldBlock None '''') 6000000001])"
    by (simp add: example_events_def example_ping gone_silent_def is_timeout_def del: write_udp.simps)
  then show "\<exists>m. monitor_connection reference_bincode (Inr ()) 0 False
      (example_events @ [RecvErr (IoError WouldBlock None '''') 6000000001]) = Break (Returned, m)
      \<and> m_shutdown m"
    using monitor_verdict [OF reference_pongs,
        of "example_events @ [RecvErr (IoError WouldBlock None '''') 6000000001]" 0 False]
    unfolding late [symmetric] by (simp only: if_True)
qed

text \<open>
  While the monitor runs it answers every ping, and nothing else, with one pong
  that carries the ping's timestamp, sent to the address the ping came from, in the order
  of arrival; and it remembers the time of the last ping.
\<close>

lemma monitor_answers_pings:
  assumes "\<forall>t. \<exists>bs. serialize_udp bc (Pong t) = Inr bs"
    and "monitor_connection bc (Inr ()) start shutdown es = Continue m"
  shows "map (\<lambda>(src, bytes). (src, Inr bytes)) (m_pongs m) =
      concat (map (\<lambda>ev. case ev of
          Datagram bytes src now \<Rightarrow>
            (case udp_from_bytes bc (take 1000 bytes) of
               Inr (Ping t) \<Rightarrow> [(src, udp_to_bytes bc (Pong t))]
             | _ \<Rightarrow> [])
        | RecvErr e now \<Rightarrow> []) es)
    \<and> m_last_ping m = last_ping_at bc None es"
proof -
  have ok: "pongs_serialize bc" using assms(1) by (simp add: pongs_serialize_def)
  have m: "m = (new_monitor start shutdown)\<lparr>m_last_ping := last_ping_at bc None es,
      m_pongs := map (\<lambda>(src, t). (src, pong_bytes bc t)) (pongs_for bc es)\<rparr>"
    using assms(2) monitor_run [OF ok, of "new_monitor start shutdown" es]
    by (cases "declared_dead bc start None es") (auto simp: monitor_connection_def new_monitor_def)
  have "map (\<lambda>(src, t). (src, udp_to_bytes bc (Pong t))) (pongs_for bc es) =
      concat (map (\<lambda>ev. case ev of
          Datagram bytes src now \<Rightarrow>
            (case udp_from_bytes bc (take 1000 bytes) of
               Inr (Ping t) \<Rightarrow> [(src, udp_to_bytes bc (Pong t))]
             | _ \<Rightarrow> [])
        | RecvErr e now \<Rightarrow> []) es)"
    by (induction bc es rule: pongs_for.induct)
       (auto simp: ping_of_def monitor_buf_def split: sum.splits udp_message.splits)
  then show ?thesis
    by (simp add: m pong_serialized [OF ok] comp_def split_def)
qed

text \<open>
  Once its listener is set up the server never stops: with room for the ids, any
  sequence of connections (well formed, malformed, refused, interrupted) and accept errors
  leaves the accept loop running and the registries in agreement. Nothing it runs ever sets
  the shutdown flag that would end the loop.
\<close>

lemma server_keeps_serving:
  assumes "processor_inv p" "\<not> p_shutdown p" "unat (p_next_id p) + length events < 2 ^ 64"
  shows "\<exists>p'. start_tcp_server sd (Inr ()) (Inr ()) p events = Continue p'
    \<and> processor_inv p' \<and> \<not> p_shutdown p'"
  using accept_run [OF assms(1,3,2), of sd] by (auto simp: start_tcp_server_def)

text \<open>
  A processor is built exactly when its tickers can be loaded, and starts in
  order: over the loaded generator, without subscribers, channels or threads, with the
  first id 0 and the shutdown flag clear.
\<close>

lemma new_processor_ok:
  assumes "\<forall>i. rng_ok (rngs i)"
  shows "case new_from_file rngs tickers of
      Inl e \<Rightarrow> new_processor port rngs tickers = Inl (GenErr e)
    | Inr g \<Rightarrow> \<exists>p. new_processor port rngs tickers = Inr p \<and> processor_inv p \<and> p_generator p = g
        \<and> p_subscribers p = Map.empty \<and> p_channels p = Map.empty \<and> p_spawned p = []
        \<and> p_next_id p = 0 \<and> \<not> p_shutdown p \<and> p_port p = port"
proof (cases "new_from_file rngs tickers")
  case (Inl e)
  then show ?thesis by (simp add: new_processor_def)
next
  case (Inr g)
  then obtain ts where "g = new_generator rngs ts"
    by (auto simp: new_from_file_def and_then_eq_Inr split: prod.splits)
  then have "generator_ok g" "receivers g = Map.empty"
    using new_generator_generator_ok [OF assms] by (simp_all add: new_generator_fields)
  with Inr show ?thesis by (simp add: new_processor_def processor_inv_def)
qed

text \<open>
  Claim C26. When the counter of ids has wrapped to an id in use: the new subscription takes
  over the id and its receiver, so the sender of the old one is dropped while the old tickers
  stay listed under the id. The old streaming thread, as soon as its channel is empty, finds
  it disconnected, ends, and by its clean-up removes the new subscription: its receiver and
  handle are gone and its shutdown flag is set.
\<close>

theorem reused_id_takes_over:
  assumes "receivers (p_generator p) (p_next_id p) = Some old" "first_unknown p cmd = None"
    and "ri_channel old < p_next_addr p" "si_shutdown info < p_next_addr p"
    and "si_id info = p_next_id p" "si_channel info = ri_channel old"
    and "queue_at (p_channels p) (ri_channel old) = []"
    and "add_subscriber cmd p = (r, p1)" "stream_end h info JoinedOk p1 = (r', p2)"
  shows "r = Inr (p_next_id p)
    \<and> receivers (p_generator p1) (p_next_id p) = Some \<lparr>ri_channel = p_next_addr p, ri_tickers = set (sc_tickers cmd)\<rparr>
    \<and> (listed (p_generator p) (p_next_id p) t \<longrightarrow> listed (p_generator p1) (p_next_id p) t)
    \<and> stream_step bc info (p1, sent) err = Break (p1, sent)
    \<and> receivers (p_generator p2) (p_next_id p) = None \<and> p_subscribers p2 (p_next_id p) = None
    \<and> \<not> flag_set p1 (p_next_addr p) \<and> flag_set p2 (p_next_addr p)"
proof -
  note reused = add_subscriber_reused [OF assms(1,2) less_imp_neq [OF assms(3)], unfolded assms(8) fst_conv snd_conv]
  have "fst (chan_recv (p_channels p1) (si_channel info)) = RecvDisconnected"
    using reused(3,4) assms(6,7) by (simp add: recv_result)
  moreover from this have "snd (chan_recv (p_channels p1) (si_channel info)) = p_channels p1"
    by (auto simp: chan_recv_def split: option.splits list.splits if_splits)
  ultimately have "chan_recv (p_channels p1) (si_channel info) = (RecvDisconnected, p_channels p1)"
    by (metis prod.collapse)
  then have "stream_step bc info (p1, sent) err = Break (p1, sent)"
    by (simp add: stream_step_def)
  moreover have "receivers (p_generator p2) (p_next_id p) = None \<and> p_subscribers p2 (p_next_id p) = None
      \<and> flag_set p2 (p_next_addr p)"
    using reused(6) assms(5) arg_cong [OF assms(9), of snd]
    by (auto simp: stream_end_def remove_subscriber_def remove_receiver_gen flag_set_def Let_def case_prod_beta)
  ultimately show ?thesis using reused(1,2,5,7) by simp
qed

theorem reused_id_takes_over_witness:
  "\<exists>p1 p2. add_subscriber example_command (subscribed_processor\<lparr>p_next_id := 0\<rparr>) = (Inr 0, p1)
     \<and> stream_end sorted_order \<lparr>si_id = 0, si_channel = 0, si_udp_addr = (Ipv4 127 0 0 1, 8091), si_shutdown = 0\<rparr>
         JoinedOk p1 = (Inr (), p2)
     \<and> receivers (p_generator p1) 0 \<noteq> None \<and> receivers (p_generator p2) 0 = None \<and> flag_set p2 1"
proof -
  let ?p = "subscribed_processor\<lparr>p_next_id := 0\<rparr>"
  let ?info = "\<lparr>si_id = 0, si_channel = 0, si_udp_addr = (Ipv4 127 0 0 1, 8091), si_shutdown = 0\<rparr>"
  obtain r p1 where p1: "add_subscriber example_command ?p = (r, p1)" by force
  obtain r' p2 where p2: "stream_end sorted_order ?info JoinedOk p1 = (r', p2)" by force
  have old: "receivers (p_generator ?p) (p_next_id ?p) = Some \<lparr>ri_channel = 0, ri_tickers = {''XYZ''}\<rparr>"
    "first_unknown ?p example_command = None" "p_next_addr ?p = 1" "queue_at (p_channels ?p) 0 = []"
    by (simp_all add: subscribed_registries subscribed_next)
  from reused_id_takes_over [OF old(1,2) _ _ _ _ _ p1 p2, of "''XYZ''" reference_bincode "[]" None] old(3,4)
  have "r = Inr 0" "receivers (p_generator p1) 0 \<noteq> None" "receivers (p_generator p2) 0 = None" "flag_set p2 1"
    by simp_all
  moreover have "r' = Inr ()" using p2 by (simp add: stream_end_def Let_def)
  ultimately show ?thesis using p1 p2 by blast
qed

end
