(* ===== verification/Tests.thy ===== *)
theory Tests
  imports Processor
begin

text \<open>
  The unit tests of \<open>server/src/types.rs\<close>, \<open>generator.rs\<close> and \<open>processor.rs\<close>, run on the
  model: a test is the conjunction of its assertions, an \<open>unwrap\<close> of an error and a
  \<open>panic!\<close> make it false. What a test draws from the random generator, the clock or
  \<open>bincode\<close> is an argument, and the test passes for all of them that keep their contract.
\<close>

section \<open>types.rs\<close>

text \<open>\<open>==\<close> of two \<open>f64\<close>.\<close>

definition f64_eq :: "f64 \<Rightarrow> f64 \<Rightarrow> bool" where
  "f64_eq a b \<longleftrightarrow> \<not> is_nan a \<and> \<not> is_nan b \<and> f64_key a = f64_key b"

definition test_stock_quote_to_from_string :: bool where
  "test_stock_quote_to_from_string \<longleftrightarrow>
     (let quote = \<lparr>q_ticker = ''AAPL'', q_price = f64_lit 15025 100, q_volume = 1000000,
                   q_timestamp = 1234567890\<rparr>;
          s = quote_to_string quote in
      s = ''AAPL|150.25|1000000|1234567890''
      \<and> (case quote_from_string s of
           None \<Rightarrow> False
         | Some parsed \<Rightarrow>
             q_ticker parsed = ''AAPL'' \<and> f64_eq (q_price parsed) (f64_lit 15025 100)
             \<and> q_volume parsed = 1000000 \<and> q_timestamp parsed = 1234567890))"

definition test_stock_quote_to_from_bytes :: "'b bincode \<Rightarrow> bool" where
  "test_stock_quote_to_from_bytes bc \<longleftrightarrow>
     (let quote = \<lparr>q_ticker = ''GOOGL'', q_price = f64_lit 280050 100, q_volume = 500000,
                   q_timestamp = 9876543210\<rparr> in
      case quote_to_bytes bc quote of
        Inl _ \<Rightarrow> False
      | Inr bytes \<Rightarrow>
          (case quote_from_bytes bc bytes of
             Inl _ \<Rightarrow> False
           | Inr parsed \<Rightarrow>
               q_ticker parsed = ''GOOGL'' \<and> f64_eq (q_price parsed) (f64_lit 280050 100)
               \<and> q_volume parsed = 500000 \<and> q_timestamp parsed = 9876543210))"

definition test_subscribe_command_from_str_valid :: bool where
  "test_subscribe_command_from_str_valid \<longleftrightarrow>
     (case subscribe_from_str ''STREAM|UDP|192.168.1.1|8080|AAPL,GOOGL,MSFT'' of
        Inl _ \<Rightarrow> False
      | Inr cmd \<Rightarrow>
          sc_cmd cmd = Stream \<and> sc_protocol cmd = Udp \<and> sc_ip cmd = Ipv4 192 168 1 1
          \<and> sc_port cmd = 8080 \<and> sc_tickers cmd = [''AAPL'', ''GOOGL'', ''MSFT''])"

definition test_subscribe_command_display :: bool where
  "test_subscribe_command_display \<longleftrightarrow>
     display_subscribe \<lparr>sc_cmd = Stream, sc_protocol = Udp, sc_ip = Ipv4 10 0 0 1, sc_port = 9000,
       sc_tickers = [''TSLA'', ''NVDA'']\<rparr> = ''STREAM|UDP|10.0.0.1|9000|TSLA,NVDA''"

definition test_subscribe_command_invalid_ip :: bool where
  "test_subscribe_command_invalid_ip \<longleftrightarrow>
     (case subscribe_from_str ''STREAM|UDP|999.999.999.999|8080|AAPL'' of Inl _ \<Rightarrow> True | Inr _ \<Rightarrow> False)"

definition test_subscribe_command_not_enough_args :: bool where
  "test_subscribe_command_not_enough_args \<longleftrightarrow>
     (case subscribe_from_str ''STREAM|UDP|192.168.1.1'' of Inl NotEnoughArguments \<Rightarrow> True | _ \<Rightarrow> False)"

definition test_subscribe_command_invalid_port :: bool where
  "test_subscribe_command_invalid_port \<longleftrightarrow>
     (case subscribe_from_str ''STREAM|UDP|192.168.1.1|invalid|AAPL'' of Inl InvalidPort \<Rightarrow> True | _ \<Rightarrow> False)"

definition test_udp_message_quote_round_trip :: "'b bincode \<Rightarrow> bool" where
  "test_udp_message_quote_round_trip bc \<longleftrightarrow>
     (let quote = \<lparr>q_ticker = ''TSLA'', q_price = f64_lit 25075 100, q_volume = 15000,
                   q_timestamp = 1234567890\<rparr> in
      case udp_to_bytes bc (Quote quote) of
        Inl _ \<Rightarrow> False
      | Inr bytes \<Rightarrow>
          (case udp_from_bytes bc bytes of
             Inr (Quote q) \<Rightarrow>
               q_ticker q = ''TSLA'' \<and> f64_eq (q_price q) (f64_lit 25075 100)
               \<and> q_volume q = 15000 \<and> q_timestamp q = 1234567890
           | _ \<Rightarrow> False))"

definition test_udp_message_ping_pong_round_trip :: "'b bincode \<Rightarrow> bool" where
  "test_udp_message_ping_pong_round_trip bc \<longleftrightarrow>
     (case udp_to_bytes bc (Ping 9876543210) of
        Inl _ \<Rightarrow> False
      | Inr bytes1 \<Rightarrow>
          (case udp_from_bytes bc bytes1 of
             Inr (Ping timestamp) \<Rightarrow> timestamp = 9876543210
           | _ \<Rightarrow> False))
     \<and> (case udp_to_bytes bc (Pong 1111111111) of
          Inl _ \<Rightarrow> False
        | Inr bytes2 \<Rightarrow>
            (case udp_from_bytes bc bytes2 of
               Inr (Pong timestamp) \<Rightarrow> timestamp = 1111111111
             | _ \<Rightarrow> False))"

definition test_tcp_message_ack_round_trip :: bool where
  "test_tcp_message_ack_round_trip \<longleftrightarrow>
     (let serialized = tcp_to_string Ack in
      serialized = ''ACK'' \<and> (case tcp_from_string serialized of Inr Ack \<Rightarrow> True | _ \<Rightarrow> False))"

definition test_tcp_message_cmd_round_trip :: bool where
  "test_tcp_message_cmd_round_trip \<longleftrightarrow>
     (let cmd = \<lparr>sc_cmd = Stream, sc_protocol = Udp, sc_ip = Ipv4 192 168 1 100, sc_port = 5000,
                 sc_tickers = [''AAPL'', ''GOOGL'']\<rparr>;
          serialized = tcp_to_string (Cmd cmd) in
      serialized = ''CMD|STREAM|UDP|192.168.1.100|5000|AAPL,GOOGL''
      \<and> (case tcp_from_string serialized of
           Inr (Cmd parsed_cmd) \<Rightarrow>
             sc_cmd parsed_cmd = Stream \<and> sc_protocol parsed_cmd = Udp
             \<and> sc_ip parsed_cmd = Ipv4 192 168 1 100 \<and> sc_port parsed_cmd = 5000
             \<and> sc_tickers parsed_cmd = [''AAPL'', ''GOOGL'']
         | _ \<Rightarrow> False))"

definition test_tcp_message_err_round_trip :: bool where
  "test_tcp_message_err_round_trip \<longleftrightarrow>
     (let serialized = tcp_to_string (Err ''Connection timeout'') in
      serialized = ''ERR|Connection timeout''
      \<and> (case tcp_from_string serialized of Inr (Err e) \<Rightarrow> e = ''Connection timeout'' | _ \<Rightarrow> False))"

definition test_tcp_message_err_with_pipe_character :: bool where
  "test_tcp_message_err_with_pipe_character \<longleftrightarrow>
     (let serialized = tcp_to_string (Err ''Invalid format|expected 5 parts'') in
      serialized = ''ERR|Invalid format|expected 5 parts''
      \<and> (case tcp_from_string serialized of
           Inr (Err e) \<Rightarrow> e = ''Invalid format|expected 5 parts'' | _ \<Rightarrow> False))"

definition test_tcp_message_unknown_type :: bool where
  "test_tcp_message_unknown_type \<longleftrightarrow>
     (case tcp_from_string ''UNKNOWN|some data'' of Inl UnknownCommand \<Rightarrow> True | _ \<Rightarrow> False)"

definition test_tcp_message_cmd_missing_data :: bool where
  "test_tcp_message_cmd_missing_data \<longleftrightarrow>
     (case tcp_from_string ''CMD'' of Inl NotEnoughArguments \<Rightarrow> True | _ \<Rightarrow> False)"

definition test_tcp_message_err_missing_data :: bool where
  "test_tcp_message_err_missing_data \<longleftrightarrow>
     (case tcp_from_string ''ERR'' of Inl NotEnoughArguments \<Rightarrow> True | _ \<Rightarrow> False)"

definition test_tcp_message_cmd_invalid_command_format :: bool where
  "test_tcp_message_cmd_invalid_command_format \<longleftrightarrow>
     (case tcp_from_string ''CMD|INVALID|DATA'' of Inl _ \<Rightarrow> True | Inr _ \<Rightarrow> False)"

section \<open>generator.rs\<close>

definition generate_new_price_stays_within_bounds :: "rng list \<Rightarrow> bool" where
  "generate_new_price_stays_within_bounds rngs \<longleftrightarrow>
     (let price = f64_lit 100 1 in
      list_all (\<lambda>r. let new = generate_new_price r price in
        price * (1 - MAX_CHANGE_PERCENT) \<le> new \<and> new \<le> price * (1 + MAX_CHANGE_PERCENT)) rngs)"

definition generate_new_price_never_below_min :: "rng list \<Rightarrow> bool" where
  "generate_new_price_never_below_min rngs \<longleftrightarrow>
     list_all (\<lambda>r. MIN_PRICE \<le> generate_new_price r MIN_PRICE) rngs"

definition new_creates_entries_for_all_tickers :: "(nat \<Rightarrow> rng) \<Rightarrow> bool" where
  "new_creates_entries_for_all_tickers rngs \<longleftrightarrow>
     (let tickers = [''AAPL'', ''MSFT'', ''TSLA''];
          ps = prices (new_generator rngs tickers) in
      card (dom ps) = 3 \<and> list_all (\<lambda>t. ps t \<noteq> None) tickers)"

definition new_initializes_last_change_to_zero :: "(nat \<Rightarrow> rng) \<Rightarrow> bool" where
  "new_initializes_last_change_to_zero rngs \<longleftrightarrow>
     (case prices (new_generator rngs [''AAPL'']) ''AAPL'' of
        None \<Rightarrow> False | Some data \<Rightarrow> pc_last_change data = 0)"

definition new_with_empty_iterator :: "(nat \<Rightarrow> rng) \<Rightarrow> bool" where
  "new_with_empty_iterator rngs \<longleftrightarrow> prices (new_generator rngs []) = Map.empty"

text \<open>The file \<open>server/src/data/tickers.txt\<close>; its last line has no newline.\<close>

definition tickers_txt :: "string list" where
  "tickers_txt =
   [
    ''AAPL'', ''MSFT'', ''GOOGL'', ''AMZN'', ''NVDA'', ''META'', ''TSLA'', ''JPM'', ''JNJ'',
    ''V'', ''PG'', ''UNH'', ''HD'', ''DIS'', ''PYPL'', ''NFLX'', ''ADBE'', ''CRM'', ''INTC'',
    ''CSCO'', ''PFE'', ''ABT'', ''TMO'', ''ABBV'', ''LLY'', ''PEP'', ''COST'', ''TXN'',
    ''AVGO'', ''ACN'', ''QCOM'', ''DHR'', ''MDT'', ''NKE'', ''UPS'', ''RTX'', ''HON'',
    ''ORCL'', ''LIN'', ''AMGN'', ''LOW'', ''SBUX'', ''SPGI'', ''INTU'', ''ISRG'', ''T'',
    ''BMY'', ''DE'', ''PLD'', ''CI'', ''CAT'', ''GS'', ''UNP'', ''AMT'', ''AXP'', ''MS'',
    ''BLK'', ''GE'', ''SYK'', ''GILD'', ''MMM'', ''MO'', ''LMT'', ''FISV'', ''ADI'', ''BKNG'',
    ''C'', ''SO'', ''NEE'', ''ZTS'', ''TGT'', ''DUK'', ''ICE'', ''BDX'', ''PNC'', ''CMCSA'',
    ''SCHW'', ''MDLZ'', ''TJX'', ''USB'', ''CL'', ''EMR'', ''APD'', ''COF'', ''FDX'', ''AON'',
    ''WM'', ''ECL'', ''ITW'', ''VRTX'', ''D'', ''NSC'', ''PGR'', ''ETN'', ''FIS'', ''PSA'',
    ''KLAC'', ''MCD'', ''ADP'', ''APTV'', ''AEP'', ''MCO'', ''SHW'', ''DD'', ''ROP'', ''SLB'',
    ''HUM'', ''BSX'', ''NOC'', ''EW'']"

definition new_from_file_loads_tickers :: "(nat \<Rightarrow> rng) \<Rightarrow> bool" where
  "new_from_file_loads_tickers rngs \<longleftrightarrow>
     (case new_from_file rngs (Inr (as_bytes (join_with [newline] tickers_txt), None)) of
        Inl _ \<Rightarrow> False
      | Inr qg \<Rightarrow>
          prices qg ''AAPL'' \<noteq> None \<and> prices qg ''MSFT'' \<noteq> None \<and> prices qg ''TSLA'' \<noteq> None
          \<and> card (dom (prices qg)) = 110)"

definition new_from_file_nonexistent_returns_error :: "(nat \<Rightarrow> rng) \<Rightarrow> io_error \<Rightarrow> bool" where
  "new_from_file_nonexistent_returns_error rngs e \<longleftrightarrow>
     (case new_from_file rngs (Inl e) of Inl _ \<Rightarrow> True | Inr _ \<Rightarrow> False)"

definition generate_quote_returns_valid_quote :: "(nat \<Rightarrow> rng) \<Rightarrow> rng \<Rightarrow> int \<Rightarrow> bool" where
  "generate_quote_returns_valid_quote rngs r now \<longleftrightarrow>
     (case generate_quote r now (prices (new_generator rngs [''AAPL''])) ''AAPL'' of
        Value (Some quote, _) \<Rightarrow>
          q_ticker quote = ''AAPL'' \<and> 0 < q_price quote \<and> 1000 \<le> q_volume quote \<and> 0 < q_timestamp quote
      | _ \<Rightarrow> False)"

definition generate_quote_updates_stored_price :: "(nat \<Rightarrow> rng) \<Rightarrow> rng \<Rightarrow> int \<Rightarrow> bool" where
  "generate_quote_updates_stored_price rngs r now \<longleftrightarrow>
     (case generate_quote r now (prices (new_generator rngs [''MSFT''])) ''MSFT'' of
        Value (_, updated) \<Rightarrow>
          (case updated ''MSFT'' of None \<Rightarrow> False | Some data \<Rightarrow> 0 < pc_last_change data)
      | Panic \<Rightarrow> False)"

definition generate_quote_unknown_ticker_returns_none :: "(nat \<Rightarrow> rng) \<Rightarrow> rng \<Rightarrow> int \<Rightarrow> bool" where
  "generate_quote_unknown_ticker_returns_none rngs r now \<longleftrightarrow>
     (case generate_quote r now (prices (new_generator rngs [''AAPL''])) ''UNKNOWN'' of
        Value (None, _) \<Rightarrow> True | _ \<Rightarrow> False)"

text \<open>
  \<open>let (tx, _) = mpsc::channel()\<close> drops the receiving end at once. The channels of a test are
  numbered as they are made.
\<close>

definition dropped_channel :: "nat \<Rightarrow> quote_channels \<Rightarrow> quote_channels" where
  "dropped_channel a ch = drop_receiver a (ch(a \<mapsto> new_channel))"

definition add_receiver_creates_subscription :: "(nat \<Rightarrow> rng) \<Rightarrow> bool" where
  "add_receiver_creates_subscription rngs \<longleftrightarrow>
     (case add_receiver 1 0 [''AAPL''] (new_generator rngs [''AAPL'']) [0 \<mapsto> new_channel] of
        (Inl _, _) \<Rightarrow> False
      | (Inr _, qg, _) \<Rightarrow>
          (case receivers qg 1 of None \<Rightarrow> False | Some info \<Rightarrow> ''AAPL'' \<in> ri_tickers info)
          \<and> (case tickers_to_receivers qg ''AAPL'' of
               None \<Rightarrow> False | Some ids \<Rightarrow> card ids = 1 \<and> 1 \<in> ids))"

text \<open>Two subscribers of one ticker, as two tests start; \<open>None\<close> is a failed \<open>unwrap\<close>.\<close>

definition two_receivers :: "(nat \<Rightarrow> rng) \<Rightarrow> (quote_generator \<times> quote_channels) option" where
  "two_receivers rngs =
     (let ch = dropped_channel 1 (dropped_channel 0 Map.empty) in
      case add_receiver 1 0 [''AAPL''] (new_generator rngs [''AAPL'']) ch of
        (Inl _, _) \<Rightarrow> None
      | (Inr _, qg1, ch1) \<Rightarrow>
          (case add_receiver 2 1 [''AAPL''] qg1 ch1 of
             (Inl _, _) \<Rightarrow> None
           | (Inr _, qg2, ch2) \<Rightarrow> Some (qg2, ch2)))"

definition add_multiple_receivers_same_ticker :: "(nat \<Rightarrow> rng) \<Rightarrow> bool" where
  "add_multiple_receivers_same_ticker rngs \<longleftrightarrow>
     (case two_receivers rngs of
        None \<Rightarrow> False
      | Some (qg, _) \<Rightarrow>
          card (dom (receivers qg)) = 2 \<and> receivers qg 1 \<noteq> None \<and> receivers qg 2 \<noteq> None
          \<and> (case tickers_to_receivers qg ''AAPL'' of None \<Rightarrow> False | Some ids \<Rightarrow> card ids = 2))"

definition remove_receiver_removes_correct_subscription :: "(nat \<Rightarrow> rng) \<Rightarrow> hash_order \<Rightarrow> bool" where
  "remove_receiver_removes_correct_subscription rngs h \<longleftrightarrow>
     (case two_receivers rngs of
        None \<Rightarrow> False
      | Some (qg, ch) \<Rightarrow>
          (case remove_receiver h 1 qg ch of
             (qg', _) \<Rightarrow>
               receivers qg' 1 = None \<and> receivers qg' 2 \<noteq> None
               \<and> (case tickers_to_receivers qg' ''AAPL'' of
                    None \<Rightarrow> False | Some aapl_subs \<Rightarrow> card aapl_subs = 1 \<and> 2 \<in> aapl_subs)))"

text \<open>One subscriber of all of a generator's tickers, as the other tests start.\<close>

definition one_receiver :: "(nat \<Rightarrow> rng) \<Rightarrow> string list \<Rightarrow> (quote_generator \<times> quote_channels) option" where
  "one_receiver rngs tickers =
     (case add_receiver 1 0 tickers (new_generator rngs tickers) (dropped_channel 0 Map.empty) of
        (Inl _, _) \<Rightarrow> None | (Inr _, qg, ch) \<Rightarrow> Some (qg, ch))"

definition remove_receiver_nonexistent_id_does_nothing :: "(nat \<Rightarrow> rng) \<Rightarrow> hash_order \<Rightarrow> bool" where
  "remove_receiver_nonexistent_id_does_nothing rngs h \<longleftrightarrow>
     (case one_receiver rngs [''AAPL''] of
        None \<Rightarrow> False
      | Some (qg, ch) \<Rightarrow>
          (case remove_receiver h 999 qg ch of
             (qg', _) \<Rightarrow>
               receivers qg' 1 \<noteq> None \<and> card (dom (receivers qg')) = 1
               \<and> (case tickers_to_receivers qg' ''AAPL'' of None \<Rightarrow> False | Some ids \<Rightarrow> card ids = 1)))"

definition add_receiver_multiple_tickers_same_receiver :: "(nat \<Rightarrow> rng) \<Rightarrow> bool" where
  "add_receiver_multiple_tickers_same_receiver rngs \<longleftrightarrow>
     (case one_receiver rngs [''AAPL'', ''MSFT''] of
        None \<Rightarrow> False
      | Some (qg, _) \<Rightarrow>
          card (dom (receivers qg)) = 1
          \<and> (case receivers qg 1 of
               None \<Rightarrow> False
             | Some recv \<Rightarrow> ''AAPL'' \<in> ri_tickers recv \<and> ''MSFT'' \<in> ri_tickers recv)
          \<and> list_all (\<lambda>t. case tickers_to_receivers qg t of None \<Rightarrow> False | Some ids \<Rightarrow> 1 \<in> ids)
              [''AAPL'', ''MSFT''])"

definition removes_from_all :: "(nat \<Rightarrow> rng) \<Rightarrow> hash_order \<Rightarrow> string list \<Rightarrow> bool" where
  "removes_from_all rngs h tickers \<longleftrightarrow>
     (case one_receiver rngs tickers of
        None \<Rightarrow> False
      | Some (qg, ch) \<Rightarrow>
          (case remove_receiver h 1 qg ch of
             (qg', _) \<Rightarrow>
               receivers qg' 1 = None
               \<and> list_all (\<lambda>t. case tickers_to_receivers qg' t of None \<Rightarrow> False | Some ids \<Rightarrow> 1 \<notin> ids)
                   tickers))"

definition remove_receiver_removes_from_all_subscriptions :: "(nat \<Rightarrow> rng) \<Rightarrow> hash_order \<Rightarrow> bool" where
  "remove_receiver_removes_from_all_subscriptions rngs h \<longleftrightarrow>
     removes_from_all rngs h [''AAPL'', ''MSFT'']"

definition remove_receiver_removes_from_multiple_tickers :: "(nat \<Rightarrow> rng) \<Rightarrow> hash_order \<Rightarrow> bool" where
  "remove_receiver_removes_from_multiple_tickers rngs h \<longleftrightarrow>
     removes_from_all rngs h [''AAPL'', ''MSFT'', ''TSLA'']"

text \<open>
  The ticker thread runs beside the test. \<open>before\<close>, \<open>between\<close> and \<open>after\<close> are its iterations
  up to the first receive, up to the second one and up to the store of the flag, \<open>final\<close>
  the one that sees the flag. A receive that finds nothing runs into its timeout, and the
  test fails.
\<close>

definition start_for_quote_sends_quotes_to_receivers ::
    "(nat \<Rightarrow> rng) \<Rightarrow> tick_env list \<Rightarrow> tick_env list \<Rightarrow> tick_env list \<Rightarrow> tick_env \<Rightarrow> bool" where
  "start_for_quote_sends_quotes_to_receivers rngs before between after final \<longleftrightarrow>
     (let qg = new_generator rngs [''AAPL''];
          qg1 = qg\<lparr>receivers := (receivers qg)(1 \<mapsto> \<lparr>ri_channel = 0, ri_tickers = {''AAPL''}\<rparr>),
                   tickers_to_receivers := (tickers_to_receivers qg)(''AAPL'' \<mapsto> {1})\<rparr> in
      case start_for_quote ''AAPL'' qg1 [0 \<mapsto> new_channel] before of
        Break _ \<Rightarrow> False
      | Continue (g1, ch1, dead1) \<Rightarrow>
          (case chan_recv ch1 0 of
             (Received quote1, ch2) \<Rightarrow>
               (case run_loop (start_for_quote_step ''AAPL'') (g1, ch2, dead1) between of
                  Break _ \<Rightarrow> False
                | Continue (g2, ch3, dead2) \<Rightarrow>
                    (case chan_recv ch3 0 of
                       (Received quote2, ch4) \<Rightarrow>
                         q_ticker quote1 = ''AAPL'' \<and> q_ticker quote2 = ''AAPL''
                         \<and> 0 < q_price quote1 \<and> 0 < q_price quote2
                         \<and> q_timestamp quote1 \<le> q_timestamp quote2
                         \<and> (case run_loop (start_for_quote_step ''AAPL'') (g2, ch4, dead2) after of
                              Break _ \<Rightarrow> False
                            | Continue (g3, ch5, dead3) \<Rightarrow>
                                (case start_for_quote_step ''AAPL'' (g3\<lparr>gen_shutdown := True\<rparr>, ch5, dead3) final of
                                   Break (Returned, _) \<Rightarrow> True | _ \<Rightarrow> False))
                     | _ \<Rightarrow> False))
           | _ \<Rightarrow> False))"

section \<open>processor.rs\<close>

text \<open>
  The pair of connected streams: what one end has written the other end can read; \<open>e\<close> is
  what a read gets after that.
\<close>

definition tcp_end :: out_stream where
  "tcp_end = \<lparr>written = [], room = None, out_end = IoError OtherKind None ''''\<rparr>"

definition other_end :: "out_stream \<Rightarrow> io_error \<Rightarrow> in_stream" where
  "other_end out e = \<lparr>avail = written out, in_end = e\<rparr>"

definition test_send_and_read_tcp_message_ack :: "io_error \<Rightarrow> bool" where
  "test_send_and_read_tcp_message_ack e \<longleftrightarrow>
     (case send_tcp_message tcp_end Ack of
        (Inl _, _) \<Rightarrow> False
      | (Inr _, server) \<Rightarrow>
          (case fst (read_tcp_message (other_end server e)) of Inr Ack \<Rightarrow> True | _ \<Rightarrow> False))"

definition test_send_and_read_tcp_message_err :: "io_error \<Rightarrow> bool" where
  "test_send_and_read_tcp_message_err e \<longleftrightarrow>
     (case send_tcp_message tcp_end (Err ''Test error message'') of
        (Inl _, _) \<Rightarrow> False
      | (Inr _, server) \<Rightarrow>
          (case fst (read_tcp_message (other_end server e)) of
             Inr (Err msg) \<Rightarrow> msg = ''Test error message'' | _ \<Rightarrow> False))"

definition test_read_tcp_message_with_size_limit :: "io_error \<Rightarrow> bool" where
  "test_read_tcp_message_with_size_limit e \<longleftrightarrow>
     (case write_all (to_be_bytes 11000000) tcp_end of
        (Inl _, _) \<Rightarrow> False
      | (Inr _, server) \<Rightarrow>
          (case fst (read_tcp_message (other_end server e)) of Inl _ \<Rightarrow> True | Inr _ \<Rightarrow> False))"

definition test_read_tcp_message_empty_disconnect :: "io_error \<Rightarrow> bool" where
  "test_read_tcp_message_empty_disconnect e \<longleftrightarrow>
     (case fst (read_tcp_message (other_end tcp_end e)) of Inl _ \<Rightarrow> True | Inr _ \<Rightarrow> False)"

definition test_tcp_message_round_trip_cmd :: "io_error \<Rightarrow> bool" where
  "test_tcp_message_round_trip_cmd e \<longleftrightarrow>
     (let cmd = \<lparr>sc_cmd = Stream, sc_protocol = Udp, sc_ip = Ipv4 127 0 0 1, sc_port = 8080,
                 sc_tickers = [''AAPL'', ''GOOGL'']\<rparr> in
      case send_tcp_message tcp_end (Cmd cmd) of
        (Inl _, _) \<Rightarrow> False
      | (Inr _, client) \<Rightarrow>
          (case fst (read_tcp_message (other_end client e)) of
             Inr (Cmd received_cmd) \<Rightarrow>
               sc_cmd received_cmd = Stream \<and> sc_protocol received_cmd = Udp
               \<and> sc_ip received_cmd = Ipv4 127 0 0 1 \<and> sc_port received_cmd = 8080
               \<and> sc_tickers received_cmd = [''AAPL'', ''GOOGL'']
           | _ \<Rightarrow> False))"

definition test_message_length_validation :: "io_error \<Rightarrow> bool" where
  "test_message_length_validation e \<longleftrightarrow>
     (case send_tcp_message tcp_end Ack of
        (Inl _, _) \<Rightarrow> False
      | (Inr _, server) \<Rightarrow>
          (case read_tcp_message (other_end server e) of
             (Inr Ack, client) \<Rightarrow>
               (case send_tcp_message server (Err (replicate 1000000 (CHR ''x''))) of
                  (Inl _, _) \<Rightarrow> False
                | (Inr _, server') \<Rightarrow>
                    (case fst (read_tcp_message (client\<lparr>avail := avail client
                        @ drop (length (written server)) (written server')\<rparr>)) of
                       Inr (Err msg) \<Rightarrow> length msg = 1000000 | _ \<Rightarrow> False))
           | _ \<Rightarrow> False))"

section \<open>The tests pass\<close>

lemma f64_eq_refl: "\<not> is_nan x \<Longrightarrow> f64_eq x x"
  by (simp add: f64_eq_def)

lemma literal_not_nan: "\<not> is_nan (f64_lit p q)"
  by (simp add: f64_lit_def is_nan_def not_less)

text \<open>The double nearest to 150.25, and the five digits that are enough for it.\<close>

lemma price_150_25: "f64_lit 15025 100 = F64 0x4062C80000000000"
proof -
  have "round_mag (15025 * f64_scale) 100 = 0x4062C80000000000"
    by (rule round_mag_eqI [where s = 1029 and m = "0x12C80000000000"])
       (simp_all add: f64_scale_def inf_bits_def)
  then show ?thesis by (simp add: f64_lit_eqI)
qed

lemmas show_ascii = show_word_def show_nat.simps digit_char_def char_of_def bit_Suc_0_iff

lemma show_150_25: "display_f64 (f64_lit 15025 100) = ''150.25''"
proof -
  have "shortest_digits 0x4062C80000000000 = (15025, dec_places - 2)"
    by (rule exact_digits) (simp_all add: inf_bits_def dec_places_def f64_scale_def mag_def)
  then show ?thesis
    by (simp add: price_150_25 display_f64_def is_nan_def is_infinite_def F64_facts inf_bits_def sign_bit_def
        show_digits_def dec_places_def show_ascii)
qed

lemma quote_text_test: test_stock_quote_to_from_string
proof -
  let ?q = "\<lparr>q_ticker = ''AAPL'', q_price = f64_lit 15025 100, q_volume = 1000000, q_timestamp = 1234567890\<rparr>"
  have "quote_to_string ?q = ''AAPL|150.25|1000000|1234567890''"
    by (simp add: quote_to_string_def show_150_25 show_ascii)
  moreover have "quote_from_string (quote_to_string ?q) = Some ?q"
    by (rule quote_text_back) (simp_all add: literal_not_nan)
  ultimately show ?thesis
    by (simp add: test_stock_quote_to_from_string_def Let_def f64_eq_refl literal_not_nan)
qed

text \<open>\<open>bincode\<close> writes every message whose ticker is shorter than \<open>2 ^ 64\<close> bytes.\<close>

definition serializes :: "'b bincode \<Rightarrow> bool" where
  "serializes bc \<longleftrightarrow>
     (\<forall>q. quote_fits q \<longrightarrow> (\<exists>bytes. quote_to_bytes bc q = Inr bytes))
     \<and> (\<forall>m. (case m of Quote q \<Rightarrow> quote_fits q | _ \<Rightarrow> True) \<longrightarrow> (\<exists>bytes. udp_to_bytes bc m = Inr bytes))"

lemma reference_serializes: "serializes reference_bincode"
  by (auto simp: serializes_def quote_to_bytes_def udp_to_bytes_def reference_bincode_def
      split: udp_message.splits)

lemma binary_tests:
  assumes "bincode_ok bc" "serializes bc"
  shows "test_stock_quote_to_from_bytes bc" "test_udp_message_quote_round_trip bc"
    "test_udp_message_ping_pong_round_trip bc"
proof -
  have quote: "\<exists>bytes. quote_to_bytes bc q = Inr bytes \<and> quote_from_bytes bc bytes = Inr q" if "quote_fits q" for q
    using assms(2) quote_bytes_back [OF assms(1)] that unfolding serializes_def by blast
  have udp: "\<exists>bytes. udp_to_bytes bc m = Inr bytes \<and> udp_from_bytes bc bytes = Inr m"
    if "case m of Quote q \<Rightarrow> quote_fits q | _ \<Rightarrow> True" for m
    using assms(2) udp_bytes_back [OF assms(1)] that unfolding serializes_def by blast
  show "test_stock_quote_to_from_bytes bc"
    using quote [of "\<lparr>q_ticker = ''GOOGL'', q_price = f64_lit 280050 100, q_volume = 500000, q_timestamp = 9876543210\<rparr>"]
    by (auto simp: test_stock_quote_to_from_bytes_def f64_eq_refl literal_not_nan quote_fits_def)
  show "test_udp_message_quote_round_trip bc"
    using udp [of "Quote \<lparr>q_ticker = ''TSLA'', q_price = f64_lit 25075 100, q_volume = 15000, q_timestamp = 1234567890\<rparr>"]
    by (auto simp: test_udp_message_quote_round_trip_def f64_eq_refl literal_not_nan quote_fits_def)
  show "test_udp_message_ping_pong_round_trip bc"
    using udp [of "Ping 9876543210"] udp [of "Pong 1111111111"]
    by (auto simp: test_udp_message_ping_pong_round_trip_def)
qed

lemma subscribe_valid_test: test_subscribe_command_from_str_valid
proof -
  let ?c = "\<lparr>sc_cmd = Stream, sc_protocol = Udp, sc_ip = Ipv4 192 168 1 1, sc_port = 8080,
    sc_tickers = [''AAPL'', ''GOOGL'', ''MSFT'']\<rparr>"
  have "display_subscribe ?c = ''STREAM|UDP|192.168.1.1|8080|AAPL,GOOGL,MSFT''"
    by (simp add: display_subscribe_def show_ascii)
  moreover have "subscribe_from_str (display_subscribe ?c) = Inr ?c"
    by (rule subscribe_roundtrip) (simp add: subscribe_wf_def)
  ultimately show ?thesis by (simp add: test_subscribe_command_from_str_valid_def)
qed

lemmas parse_evaluation = subscribe_from_str_def Let_def ipv4_from_str_def parse_octet_def
  commands_from_str_def protocol_from_str_def eq_ignore_ascii_case_def ascii_lower_def
  parse_word_def parse_nat_def is_digit_def digit_val_def tcp_from_string_def

lemma subscribe_tests:
  test_subscribe_command_display
  test_subscribe_command_invalid_ip
  test_subscribe_command_not_enough_args
  test_subscribe_command_invalid_port
  by (simp_all add: test_subscribe_command_display_def test_subscribe_command_invalid_ip_def
      test_subscribe_command_not_enough_args_def test_subscribe_command_invalid_port_def
      display_subscribe_def show_ascii parse_evaluation)

lemma tcp_cmd_test: test_tcp_message_cmd_round_trip
proof -
  let ?m = "Cmd \<lparr>sc_cmd = Stream, sc_protocol = Udp, sc_ip = Ipv4 192 168 1 100, sc_port = 5000,
    sc_tickers = [''AAPL'', ''GOOGL'']\<rparr>"
  have "tcp_from_string (tcp_to_string ?m) = Inr ?m"
    by (rule tcp_roundtrip) (simp add: subscribe_wf_def)
  moreover have "tcp_to_string ?m = ''CMD|STREAM|UDP|192.168.1.100|5000|AAPL,GOOGL''"
    by (simp add: display_subscribe_def show_ascii)
  ultimately show ?thesis by (simp add: test_tcp_message_cmd_round_trip_def del: tcp_to_string.simps)
qed

lemma tcp_text_tests:
  test_tcp_message_ack_round_trip
  test_tcp_message_err_round_trip
  test_tcp_message_err_with_pipe_character
  test_tcp_message_unknown_type
  test_tcp_message_cmd_missing_data
  test_tcp_message_err_missing_data
  test_tcp_message_cmd_invalid_command_format
  by (simp_all add: test_tcp_message_ack_round_trip_def test_tcp_message_err_round_trip_def
      test_tcp_message_err_with_pipe_character_def test_tcp_message_unknown_type_def
      test_tcp_message_cmd_missing_data_def test_tcp_message_err_missing_data_def
      test_tcp_message_cmd_invalid_command_format_def parse_evaluation)

lemma price_tests:
  assumes "list_all rng_ok rs"
  shows "generate_new_price_stays_within_bounds rs" "generate_new_price_never_below_min rs"
proof -
  have "is_finite (f64_lit 100 1)" "MIN_PRICE \<le> f64_lit 100 1" "is_finite MIN_PRICE" "MIN_PRICE \<le> MIN_PRICE"
    using price_constants unfolding MAX_START_PRICE_def [symmetric]
    by (simp_all add: less_eq_f64_def finite_not_nan f64_key_def mag_def)
  then show "generate_new_price_stays_within_bounds rs" "generate_new_price_never_below_min rs"
    using assms new_price_bounds
    by (auto simp: generate_new_price_stays_within_bounds_def generate_new_price_never_below_min_def
        list_all_iff Let_def)
qed

lemma new_tests:
  "new_creates_entries_for_all_tickers rngs"
  "new_initializes_last_change_to_zero rngs"
  "new_with_empty_iterator rngs"
  "new_from_file_nonexistent_returns_error rngs e"
  by (simp_all add: new_creates_entries_for_all_tickers_def new_initializes_last_change_to_zero_def
      new_with_empty_iterator_def new_from_file_nonexistent_returns_error_def new_generator_def
      new_from_file_def Let_def)

lemma file_test: "new_from_file_loads_tickers rngs"
proof -
  define ls r where "ls = butlast tickers_txt" and "r = last tickers_txt"
  have all: "list_all (\<lambda>t. t \<noteq> [] \<and> list_all graphic t) tickers_txt" "tickers_txt \<noteq> []"
    "distinct tickers_txt" "length tickers_txt = 110"
    by (simp_all add: tickers_txt_def graphic_def)
  have line: "clean_line t \<and> trim t = t" if "list_all graphic t" for t
  proof -
    have "list_all is_ascii t" "newline \<notin> set t" "carriage_return \<notin> set t"
      using that by (auto simp: list_all_iff graphic_def is_ascii_def newline_def carriage_return_def)
    with that show ?thesis by (simp add: clean_line_def valid_str_ascii trim_graphic list_all_iff)
  qed
  have split: "tickers_txt = ls @ [r]" using all(2) by (simp add: ls_def r_def)
  have "list_all (\<lambda>t. t \<noteq> [] \<and> list_all graphic t) (ls @ [r])" using all(1) by (simp only: split)
  then have lines: "\<forall>l \<in> set ls. clean_line l" "clean_line r" "r \<noteq> []"
    using line by (auto simp: list_all_iff)
  have "join_with [newline] (ps @ [q]) = concat (map (\<lambda>l. l @ [newline]) ps) @ q" for ps q
    by (induction ps rule: induct_list012) auto
  then have "join_with [newline] tickers_txt = concat (map (\<lambda>l. l @ [newline]) ls) @ r" by (simp add: split)
  moreover have "map trim (ls @ [r]) = ls @ [r]" "filter (\<lambda>x. x \<noteq> []) (ls @ [r]) = ls @ [r]"
    using all(1) line unfolding split [symmetric] by (simp_all add: list_all_iff map_idI)
  ultimately have loaded: "new_from_file rngs (Inr (as_bytes (join_with [newline] tickers_txt), None))
      = Inr (new_generator rngs tickers_txt)"
    using file_tickers [OF lines(1,2), of rngs] lines(3) by (simp add: split)
  have dom: "dom (prices (new_generator rngs tickers_txt)) = set tickers_txt" by (rule new_generator_dom)
  have "card (set tickers_txt) = 110" using all(3,4) by (simp add: distinct_card)
  moreover have "\<forall>t \<in> set [''AAPL'', ''MSFT'', ''TSLA'']. t \<in> set tickers_txt" by (simp add: tickers_txt_def)
  then have "\<forall>t \<in> set [''AAPL'', ''MSFT'', ''TSLA'']. prices (new_generator rngs tickers_txt) t \<noteq> None"
    unfolding dom [symmetric] dom_def by blast
  ultimately show ?thesis
    by (simp add: new_from_file_loads_tickers_def loaded dom)
qed

lemma uint_stamp:
  assumes "0 \<le> now" "now < 1000000 * 2 ^ 64"
  shows "uint (word_of_int (now div 1000000) :: u64) = now div 1000000"
proof -
  have "now div 1000000 < 2 ^ 64" "0 \<le> now div 1000000" using assms by simp_all
  then show ?thesis by (simp add: uint_word_of_int)
qed

lemma new_price_positive: "0 < generate_new_price r p"
proof -
  have "MIN_PRICE \<le> generate_new_price r p" by (rule min_le_new_price)
  moreover have "0 < f64_key MIN_PRICE" "\<not> is_nan 0" "f64_key 0 = 0"
    by (simp_all add: price_constants f64_key_def mag_def zero_f64_def is_nan_def)
  ultimately show ?thesis by (auto simp: less_eq_f64_def less_f64_def)
qed

lemma generate_quote_tests:
  assumes "rng_ok r" "1000000 \<le> now" "now < 1000000 * 2 ^ 64"
  shows "generate_quote_returns_valid_quote rngs r now" "generate_quote_updates_stored_price rngs r now"
    "generate_quote_unknown_ticker_returns_none rngs r now"
proof -
  have "1 \<le> now div 1000000" using zdiv_mono1 [OF assms(2), of 1000000] by simp
  then have stamp: "0 < (word_of_int (now div 1000000) :: u64)"
    using uint_stamp [OF _ assms(3)] assms(2) by (simp add: word_less_def)
  have volume: "1000 \<le> random_volume r ''AAPL''"
    using volume_in_band [OF assms(1), of "''AAPL''"] by (simp add: word_le_nat_alt)
  show "generate_quote_returns_valid_quote rngs r now" "generate_quote_updates_stored_price rngs r now"
    "generate_quote_unknown_ticker_returns_none rngs r now"
    using assms(2) new_price_positive stamp volume
    by (simp_all add: generate_quote_returns_valid_quote_def generate_quote_updates_stored_price_def
      generate_quote_unknown_ticker_returns_none_def new_generator_def generate_quote_def unix_millis_def Let_def)
qed

lemma removed:
  assumes "hash_order_ok h" "\<forall>info. receivers g rid = Some info \<longrightarrow> finite (ri_tickers info)"
  shows "receivers (fst (remove_receiver h rid g ch)) = (receivers g)(rid := None)"
    "tickers_to_receivers (fst (remove_receiver h rid g ch)) t =
      (case receivers g rid of
         None \<Rightarrow> tickers_to_receivers g t
       | Some info \<Rightarrow>
           if t \<in> ri_tickers info then map_option (\<lambda>ids. ids - {rid}) (tickers_to_receivers g t)
           else tickers_to_receivers g t)"
  using assms
  by (auto simp: remove_receiver_def Let_def unsubscribe_from_apply hash_order_ok_def split: option.splits)

lemmas receiver_evaluation = add_receiver_def new_generator_def subscribe_to_apply Let_def
  two_receivers_def one_receiver_def dropped_channel_def case_prod_beta

lemma add_tests:
  "add_receiver_creates_subscription rngs"
  "add_multiple_receivers_same_ticker rngs"
  "add_receiver_multiple_tickers_same_receiver rngs"
  by (simp_all add: add_receiver_creates_subscription_def add_multiple_receivers_same_ticker_def
      add_receiver_multiple_tickers_same_receiver_def receiver_evaluation)

lemma remove_tests:
  assumes "hash_order_ok h"
  shows 
    "remove_receiver_removes_correct_subscription rngs h"
    "remove_receiver_nonexistent_id_does_nothing rngs h"
    "remove_receiver_removes_from_all_subscriptions rngs h"
    "remove_receiver_removes_from_multiple_tickers rngs h"
  by (simp_all add: removed [OF assms] remove_receiver_removes_correct_subscription_def remove_receiver_nonexistent_id_does_nothing_def
    remove_receiver_removes_from_all_subscriptions_def remove_receiver_removes_from_multiple_tickers_def
    removes_from_all_def receiver_evaluation)

text \<open>The ticker thread of that test, as long as the flag is not set.\<close>

definition tick_env_ok :: "tick_env \<Rightarrow> bool" where
  "tick_env_ok env \<longleftrightarrow> hash_order_ok (te_order env) \<and> 0 \<le> te_now env \<and> te_now env < 1000000 * 2 ^ 64"

definition ticking :: "quote_generator \<Rightarrow> quote_channels \<Rightarrow> stock_quote list \<Rightarrow> bool" where
  "ticking g ch waiting \<longleftrightarrow> \<not> gen_shutdown g \<and> prices g ''AAPL'' \<noteq> None
     \<and> receivers g = [1 \<mapsto> \<lparr>ri_channel = 0, ri_tickers = {''AAPL''}\<rparr>] \<and> tickers_to_receivers g ''AAPL'' = Some {1}
     \<and> (\<exists>c. ch 0 = Some c \<and> ch_rx c \<and> ch_queue c = waiting)"

definition ticked :: "tick_env \<Rightarrow> stock_quote \<Rightarrow> bool" where
  "ticked env q \<longleftrightarrow> q_ticker q = ''AAPL'' \<and> 0 < q_price q \<and> q_timestamp q = word_of_int (te_now env div 1000000)"

lemma order_single:
  assumes "hash_order_ok h"
  shows "id_order h {i} = [i]"
proof -
  have "set (id_order h {i}) = {i}" "distinct (id_order h {i})" using assms by (simp_all add: hash_order_ok_def)
  then show ?thesis by (cases "id_order h {i}" rule: list.exhaust [case_names Nil Cons]; cases "tl (id_order h {i})") auto
qed

lemma tick_once:
  assumes "ticking g ch waiting" "tick_env_ok env"
  shows "\<exists>g' ch' q. start_for_quote_step ''AAPL'' (g, ch, {}) env = Continue (g', ch', {})
    \<and> ticking g' ch' (waiting @ [q]) \<and> ticked env q"
  using assms order_single new_price_positive
  by (auto simp: ticking_def tick_env_ok_def ticked_def start_for_quote_step_def generate_quote_def unix_millis_def
      Let_def chan_send_def)

lemma tick_often:
  "ticking g ch waiting \<Longrightarrow> list_all tick_env_ok envs \<Longrightarrow>
     \<exists>g' ch' qs. run_loop (start_for_quote_step ''AAPL'') (g, ch, {}) envs = Continue (g', ch', {})
       \<and> ticking g' ch' (waiting @ qs) \<and> list_all2 ticked envs qs"
proof (induction envs arbitrary: g ch waiting)
  case (Cons env envs)
  then have "tick_env_ok env" by simp
  from tick_once [OF Cons.prems(1) this] obtain g1 ch1 q where one: "start_for_quote_step ''AAPL'' (g, ch, {}) env = Continue (g1, ch1, {})"
    "ticking g1 ch1 (waiting @ [q])" "ticked env q" by blast
  from Cons.IH [OF this(2)] Cons.prems(2) obtain g' ch' qs where
    "run_loop (start_for_quote_step ''AAPL'') (g1, ch1, {}) envs = Continue (g', ch', {})"
    "ticking g' ch' ((waiting @ [q]) @ qs)" "list_all2 ticked envs qs" by auto
  with one show ?case by (intro exI [of _ g'] exI [of _ ch'] exI [of _ "q # qs"]) simp
qed auto

lemma ticking_recv:
  "ticking g ch (q # qs) \<Longrightarrow> \<exists>ch'. chan_recv ch 0 = (Received q, ch') \<and> ticking g ch' qs"
  by (auto simp: ticking_def chan_recv_def)

lemma ticked_stamps:
  assumes "ticked env1 q1" "ticked env2 q2" "tick_env_ok env1" "tick_env_ok env2" "te_now env1 \<le> te_now env2"
  shows "q_timestamp q1 \<le> q_timestamp q2"
proof -
  have "te_now env1 div 1000000 \<le> te_now env2 div 1000000" using assms(5) by (rule zdiv_mono1) simp
  with assms uint_stamp show ?thesis by (simp add: ticked_def tick_env_ok_def word_le_def)
qed

lemma start_for_quote_test:
  assumes "list_all tick_env_ok (before @ between @ after)" "sorted (map te_now (before @ between))"
    and "before \<noteq> []" "2 \<le> length (before @ between)"
  shows "start_for_quote_sends_quotes_to_receivers rngs before between after final"
proof -
  let ?run = "run_loop (start_for_quote_step ''AAPL'')"
  let ?g = "(new_generator rngs [''AAPL''])\<lparr>receivers := [1 \<mapsto> \<lparr>ri_channel = 0, ri_tickers = {''AAPL''}\<rparr>],
    tickers_to_receivers := (tickers_to_receivers (new_generator rngs [''AAPL'']))(''AAPL'' \<mapsto> {1})\<rparr>"
  have "ticking ?g [0 \<mapsto> new_channel] []" by (simp add: ticking_def new_generator_def new_channel_def)
  from tick_often [OF this, of before] assms(1) obtain g1 ch1 qs1 where
    first: "?run (?g, [0 \<mapsto> new_channel], {}) before = Continue (g1, ch1, {})" "ticking g1 ch1 qs1"
      "list_all2 ticked before qs1" by auto
  then obtain env1 envs1 q1 rest1 where one: "before = env1 # envs1" "qs1 = q1 # rest1" "ticked env1 q1"
    "list_all2 ticked envs1 rest1" using assms(3) by (cases before; cases qs1) auto
  from first(2) one(2) obtain ch2 where recv1: "chan_recv ch1 0 = (Received q1, ch2)" "ticking g1 ch2 rest1"
    using ticking_recv by blast
  from tick_often [OF recv1(2), of between] assms(1) obtain g2 ch3 qs2 where
    second: "?run (g1, ch2, {}) between = Continue (g2, ch3, {})" "ticking g2 ch3 (rest1 @ qs2)"
      "list_all2 ticked between qs2" by auto
  have "list_all2 ticked (envs1 @ between) (rest1 @ qs2)" using one(4) second(3) by (rule list_all2_appendI)
  moreover have "envs1 @ between \<noteq> []" using assms(4) one(1) by auto
  ultimately obtain env2 envs2 q2 rest2 where two: "envs1 @ between = env2 # envs2" "rest1 @ qs2 = q2 # rest2"
    "ticked env2 q2" by (cases "envs1 @ between"; cases "rest1 @ qs2") auto
  from second(2) two(2) obtain ch4 where recv2: "chan_recv ch3 0 = (Received q2, ch4)" "ticking g2 ch4 rest2"
    using ticking_recv by metis
  from tick_often [OF recv2(2), of after] assms(1) obtain g3 ch5 qs3 where
    third: "?run (g2, ch4, {}) after = Continue (g3, ch5, {})" by auto
  have all: "before @ between = env1 # env2 # envs2" using one(1) two(1) by simp
  then have "env1 \<in> set (before @ between)" "env2 \<in> set (before @ between)" by simp_all
  then have "tick_env_ok env1" "tick_env_ok env2" using assms(1) by (auto simp: list_all_iff)
  moreover have "te_now env1 \<le> te_now env2" using assms(2) unfolding all by simp
  ultimately have "q_timestamp q1 \<le> q_timestamp q2" using ticked_stamps one(3) two(3) by blast
  moreover have "receivers (new_generator rngs [''AAPL'']) = Map.empty" by (simp add: new_generator_def)
  ultimately show ?thesis
    using first(1) second(1) third one(3) two(3)
    by (simp add: start_for_quote_sends_quotes_to_receivers_def start_for_quote_def recv1(1) recv2(1) ticked_def
        start_for_quote_step_def)
qed

lemma tcp_end: "room tcp_end = None" "written tcp_end = []"
  by (simp_all add: tcp_end_def)

lemma send_tcp_end: "send_tcp_message tcp_end m = (Inr (), tcp_end\<lparr>written := frame (tcp_to_string m)\<rparr>)"
  by (simp add: send_unlimited tcp_end)

lemma read_other_end:
  assumes "tcp_wf m" "tcp_utf8 m" "length (tcp_to_string m) \<le> max_message"
  shows "read_tcp_message (other_end (tcp_end\<lparr>written := frame (tcp_to_string m)\<rparr>) e) =
    (Inr m, \<lparr>avail = [], in_end = e\<rparr>)"
  using read_sent [OF assms, of "other_end (tcp_end\<lparr>written := frame (tcp_to_string m)\<rparr>) e" "[]"]
  by (simp add: other_end_def del: tcp_to_string.simps)

lemma message_tests:
  "test_send_and_read_tcp_message_ack e"
  "test_send_and_read_tcp_message_err e"
  "test_tcp_message_round_trip_cmd e"
proof -
  let ?c = "Cmd \<lparr>sc_cmd = Stream, sc_protocol = Udp, sc_ip = Ipv4 127 0 0 1, sc_port = 8080,
    sc_tickers = [''AAPL'', ''GOOGL'']\<rparr>"
  have valid: "valid_str ''Test error message''" "valid_str ''AAPL''" "valid_str ''GOOGL''"
    by (rule valid_str_ascii, simp add: is_ascii_def)+
  have "length (tcp_to_string Ack) \<le> max_message"
    "length (tcp_to_string (Err ''Test error message'')) \<le> max_message"
    "length (tcp_to_string ?c) \<le> max_message"
    by (simp_all add: max_message_def display_subscribe_def show_ascii)
  then have "m \<in> {Ack, Err ''Test error message'', ?c} \<Longrightarrow>
      read_tcp_message (other_end (tcp_end\<lparr>written := frame (tcp_to_string m)\<rparr>) e) =
        (Inr m, \<lparr>avail = [], in_end = e\<rparr>)" for m
    using valid by (intro read_other_end) (auto simp: subscribe_wf_def)
  then show "test_send_and_read_tcp_message_ack e" "test_send_and_read_tcp_message_err e"
    "test_tcp_message_round_trip_cmd e"
    by (simp_all add: test_send_and_read_tcp_message_ack_def test_send_and_read_tcp_message_err_def
        test_tcp_message_round_trip_cmd_def send_tcp_end del: tcp_to_string.simps)
qed

lemma bad_stream_tests:
  "test_read_tcp_message_with_size_limit e"
  "test_read_tcp_message_empty_disconnect e"
  by (simp_all add: test_read_tcp_message_with_size_limit_def test_read_tcp_message_empty_disconnect_def
      write_all_def tcp_end other_end_def read_tcp_message_def read_frame_def read_exact_def Let_def
      max_message_def from_to_be_bytes)

lemma length_test: "test_message_length_validation e"
proof -
  define msg where "msg = replicate 1000000 (CHR ''x'')"
  have len: "length msg = 1000000" unfolding msg_def by (rule length_replicate)
  have "list_all is_ascii msg" unfolding msg_def list_all_iff set_replicate_conv_if by (simp add: is_ascii_def)
  then have large: "tcp_wf (Err msg)" "tcp_utf8 (Err msg)" "length (tcp_to_string (Err msg)) \<le> max_message"
    using len by (simp_all add: valid_str_ascii max_message_def)
  let ?server = "tcp_end\<lparr>written := frame (tcp_to_string Ack)\<rparr>"
  have first: "read_tcp_message (other_end ?server e) = (Inr Ack, \<lparr>avail = [], in_end = e\<rparr>)"
    by (rule read_other_end) (simp_all add: max_message_def)
  have "send_tcp_message ?server (Err msg) =
      (Inr (), ?server\<lparr>written := written ?server @ frame (tcp_to_string (Err msg))\<rparr>)"
    by (rule send_unlimited) (simp add: tcp_end)
  moreover have "read_tcp_message \<lparr>avail = frame (tcp_to_string (Err msg)), in_end = e\<rparr> =
      (Inr (Err msg), \<lparr>avail = [], in_end = e\<rparr>)"
    using read_sent [OF large, of "\<lparr>avail = frame (tcp_to_string (Err msg)), in_end = e\<rparr>" "[]"] by simp
  ultimately show ?thesis
    unfolding test_message_length_validation_def msg_def [symmetric]
    using len by (simp add: send_tcp_end first del: tcp_to_string.simps)
qed

text \<open>All of them together, for whatever the tests draw from their environment.\<close>

definition types_tests :: "'b bincode \<Rightarrow> bool" where
  "types_tests bc \<longleftrightarrow>
     test_stock_quote_to_from_string \<and> test_stock_quote_to_from_bytes bc
     \<and> test_subscribe_command_from_str_valid \<and> test_subscribe_command_display
     \<and> test_subscribe_command_invalid_ip \<and> test_subscribe_command_not_enough_args
     \<and> test_subscribe_command_invalid_port \<and> test_udp_message_quote_round_trip bc
     \<and> test_udp_message_ping_pong_round_trip bc \<and> test_tcp_message_ack_round_trip
     \<and> test_tcp_message_cmd_round_trip \<and> test_tcp_message_err_round_trip
     \<and> test_tcp_message_err_with_pipe_character \<and> test_tcp_message_unknown_type
     \<and> test_tcp_message_cmd_missing_data \<and> test_tcp_message_err_missing_data
     \<and> test_tcp_message_cmd_invalid_command_format"

definition generator_tests ::
    "rng list \<Rightarrow> (nat \<Rightarrow> rng) \<Rightarrow> rng \<Rightarrow> int \<Rightarrow> hash_order \<Rightarrow> io_error
      \<Rightarrow> tick_env list \<Rightarrow> tick_env list \<Rightarrow> tick_env list \<Rightarrow> tick_env \<Rightarrow> bool" where
  "generator_tests rs rngs r now h e before between after final \<longleftrightarrow>
     generate_new_price_stays_within_bounds rs \<and> generate_new_price_never_below_min rs
     \<and> new_creates_entries_for_all_tickers rngs \<and> new_initializes_last_change_to_zero rngs
     \<and> new_with_empty_iterator rngs \<and> new_from_file_loads_tickers rngs
     \<and> new_from_file_nonexistent_returns_error rngs e
     \<and> generate_quote_returns_valid_quote rngs r now
     \<and> generate_quote_updates_stored_price rngs r now
     \<and> generate_quote_unknown_ticker_returns_none rngs r now
     \<and> add_receiver_creates_subscription rngs \<and> add_multiple_receivers_same_ticker rngs
     \<and> remove_receiver_removes_correct_subscription rngs h
     \<and> remove_receiver_nonexistent_id_does_nothing rngs h
     \<and> add_receiver_multiple_tickers_same_receiver rngs
     \<and> remove_receiver_removes_from_all_subscriptions rngs h
     \<and> remove_receiver_removes_from_multiple_tickers rngs h
     \<and> start_for_quote_sends_quotes_to_receivers rngs before between after final"

definition processor_tests :: "io_error \<Rightarrow> bool" where
  "processor_tests e \<longleftrightarrow>
     test_send_and_read_tcp_message_ack e \<and> test_send_and_read_tcp_message_err e
     \<and> test_read_tcp_message_with_size_limit e \<and> test_read_tcp_message_empty_disconnect e
     \<and> test_tcp_message_round_trip_cmd e \<and> test_message_length_validation e"

text \<open>
  Claim C39. The repository's unit tests hold of the model: those of \<open>types.rs\<close> and
  \<open>processor.rs\<close> all, those of \<open>generator.rs\<close> all but the two that compare averages of random
  draws; for every random numbers, iteration orders and errors, and every bincode that keeps
  its contract, provided that the clock is past its first millisecond, within 64 bits and
  does not run backwards. The test that starts a ticker thread passes under every schedule
  of the two threads in which neither receive times out, that is, in which one iteration
  comes before the first receive and two come before the second.
\<close>

theorem unit_tests_pass:
  assumes "bincode_ok bc" "serializes bc"
    and "list_all rng_ok rs" "rng_ok r" "1000000 \<le> now" "now < 1000000 * 2 ^ 64"
    and "hash_order_ok h"
    and "list_all tick_env_ok (before @ between @ after)" "sorted (map te_now (before @ between))"
    and "before \<noteq> []" "2 \<le> length (before @ between)"
  shows "types_tests bc \<and> generator_tests rs rngs r now h e before between after final \<and> processor_tests e"
  unfolding types_tests_def generator_tests_def processor_tests_def
  by (simp only: simp_thms quote_text_test binary_tests [OF assms(1,2)] subscribe_valid_test subscribe_tests
      tcp_cmd_test tcp_text_tests price_tests [OF assms(3)] new_tests file_test
      generate_quote_tests [OF assms(4-6)] add_tests remove_tests [OF assms(7)]
      start_for_quote_test [OF assms(8-11)] message_tests bad_stream_tests length_test)

theorem unit_tests_pass_witness:
  "types_tests reference_bincode
   \<and> generator_tests [low_rng, low_rng] (\<lambda>_. low_rng) low_rng 5000000 sorted_order
       (IoError OtherKind None '''') [\<lparr>te_rng = low_rng, te_now = 5000000, te_order = sorted_order\<rparr>]
       [\<lparr>te_rng = low_rng, te_now = 6000000, te_order = sorted_order\<rparr>]
       [\<lparr>te_rng = low_rng, te_now = 7000000, te_order = sorted_order\<rparr>]
       \<lparr>te_rng = low_rng, te_now = 8000000, te_order = sorted_order\<rparr>
   \<and> processor_tests (IoError UnexpectedEof None '''')"
  using unit_tests_pass [OF reference_bincode_ok reference_serializes, of "[low_rng, low_rng]" low_rng 5000000
      sorted_order "[\<lparr>te_rng = low_rng, te_now = 5000000, te_order = sorted_order\<rparr>]"
      "[\<lparr>te_rng = low_rng, te_now = 6000000, te_order = sorted_order\<rparr>]"
      "[\<lparr>te_rng = low_rng, te_now = 7000000, te_order = sorted_order\<rparr>]"]
  by (simp add: low_rng_ok sorted_order_ok tick_env_ok_def)

end
