(* ===== verification/Rounding.thy ===== *)
theory Rounding
  imports Float64 Complex_Main
begin

text \<open>
  What an operation on \<open>f64\<close> may lose: the real number that a finite value stands for, and
  how far the rounded sum, difference and product of two values are from the exact ones.
\<close>

section \<open>The error of one rounding\<close>

definition f64_value :: "f64 \<Rightarrow> real" where
  "f64_value a = real_of_int (f64_key a) / real f64_scale"

lemma scale_pos [simp]: "0 < f64_scale"
  by (simp add: f64_scale_def)

lemma scale_real: "0 < real f64_scale"
  by simp

lemma mag_significand:
  assumes "r \<le> 2 ^ 53" "0 < s \<Longrightarrow> 2 ^ 52 \<le> r"
  shows "mag (s * 2 ^ 52 + r) = r * 2 ^ s"
proof -
  consider "r < 2 ^ 52" | "2 ^ 52 \<le> r" "r < 2 ^ 53" | "r = 2 ^ 53" using assms(1) by linarith
  then show ?thesis
  proof cases
    case 1
    with assms(2) have "s = 0" by force
    with 1 show ?thesis by (simp add: mag_def)
  next
    case 2
    then have "(s * 2 ^ 52 + r) div 2 ^ 52 = s + 1" "(s * 2 ^ 52 + r) mod 2 ^ 52 = r - 2 ^ 52"
      by (auto simp: div_nat_eqI le_mod_geq)
    with 2 show ?thesis by (simp add: mag_def)
  next
    case 3
    then have "(s * 2 ^ 52 + r) div 2 ^ 52 = s + 2" "(s * 2 ^ 52 + r) mod 2 ^ 52 = 0" by auto
    with 3 show ?thesis by (simp add: mag_def)
  qed
qed

lemma round_mag_error:
  assumes "0 < d" "n < 2 ^ b * d" "54 \<le> b" "b \<le> 2000"
  shows "round_mag n d < inf_bits" "\<bar>real (mag (round_mag n d)) - real n / real d\<bar> \<le> 2 ^ (b - 54)"
proof -
  define s where "s = bitlen (n div d) - 53"
  define r where "r = round_div n (d * 2 ^ s)"
  have "bitlen (n div d) \<le> b" using assms(1,2) by (simp add: bitlen_le div_less_iff_less_mult)
  then have s: "s \<le> b - 53" by (simp add: s_def)
  note sig = round_mag_significand [OF assms(1) s_def, folded r_def]
  have "s * 2 ^ 52 + r < inf_bits" using s assms(4) sig(1) by (simp add: inf_bits_def)
  then have round: "round_mag n d = s * 2 ^ 52 + r"
    by (simp add: round_mag_def Let_def s_def [symmetric] r_def [symmetric])
  with \<open>s * 2 ^ 52 + r < inf_bits\<close> show "round_mag n d < inf_bits" by simp
  have "0 < d * 2 ^ s" using assms(1) by simp
  note bounds = round_div_bounds(1,2) [OF this, of n, folded r_def]
  then have "real (2 * r * (d * 2 ^ s)) \<le> real (2 * n + d * 2 ^ s)"
    "real (2 * n) \<le> real (2 * r * (d * 2 ^ s) + d * 2 ^ s)" by (simp_all only: of_nat_le_iff)
  then have "2 * (real r * 2 ^ s) \<le> 2 * (real n / real d) + 2 ^ s" "2 * (real n / real d) \<le> 2 * (real r * 2 ^ s) + 2 ^ s"
    using assms(1) by (simp_all add: field_simps)
  moreover have "(2 :: real) ^ s \<le> 2 ^ Suc (b - 54)"
    by (rule power_increasing) (use s assms(3) in simp_all)
  moreover have "real (mag (round_mag n d)) = real r * 2 ^ s"
    using mag_significand [OF sig] by (simp add: round)
  ultimately show "\<bar>real (mag (round_mag n d)) - real n / real d\<bar> \<le> 2 ^ (b - 54)"
    by (simp add: abs_le_iff)
qed

text \<open>In units of \<open>1.0\<close>: a result below \<open>2 ^ k\<close> is off by at most \<open>2 ^ k / 2 ^ 54\<close>.\<close>

lemma round_value:
  assumes "0 < d" "real n / real d < 2 ^ k * real f64_scale" "k \<le> 900"
  shows "round_mag n d < inf_bits"
    "\<bar>real (mag (round_mag n d)) / real f64_scale - real n / real d / real f64_scale\<bar> \<le> 2 ^ k / 2 ^ 54"
proof -
  have scale: "real f64_scale = 2 ^ 1020 * 2 ^ 54" by (simp only: f64_scale_def of_nat_power of_nat_numeral power_add [symmetric]) simp
  have pow: "2 ^ k * real f64_scale = 2 ^ (k + 1074)" by (simp only: f64_scale_def of_nat_power of_nat_numeral power_add)
  have "real n < 2 ^ (k + 1074) * real d" using assms(1,2) unfolding pow by (simp only: pos_divide_less_eq of_nat_0_less_iff)
  then have "real n < real (2 ^ (k + 1074) * d)" by (simp only: of_nat_power of_nat_numeral of_nat_mult)
  then have n: "n < 2 ^ (k + 1074) * d" by (simp only: of_nat_less_iff)
  show "round_mag n d < inf_bits" by (rule round_mag_error(1) [OF assms(1) n]) (use assms(3) in simp_all)
  have "\<bar>real (mag (round_mag n d)) - real n / real d\<bar> \<le> 2 ^ (k + 1074 - 54)"
    by (rule round_mag_error(2) [OF assms(1) n]) (use assms(3) in simp_all)
  also have "k + 1074 - 54 = k + 1020" by simp
  finally have "\<bar>real (mag (round_mag n d)) - real n / real d\<bar> / real f64_scale \<le> 2 ^ (k + 1020) / real f64_scale"
    by (rule divide_right_mono) simp
  also have "(2 :: real) ^ (k + 1020) / real f64_scale = 2 ^ k / 2 ^ 54"
    unfolding scale power_add by (simp only: divide_simps) simp
  finally show "\<bar>real (mag (round_mag n d)) / real f64_scale - real n / real d / real f64_scale\<bar> \<le> 2 ^ k / 2 ^ 54"
    by (simp only: diff_divide_distrib [symmetric] abs_divide abs_of_nat)
qed

section \<open>Values of results\<close>

lemma value_of: "k < sign_bit \<Longrightarrow> f64_value (f64_of neg k) = (if neg then - (real (mag k) / real f64_scale) else real (mag k) / real f64_scale)"
  by (simp add: f64_value_def f64_key_def)

lemma abs_value: "\<bar>f64_value a\<bar> = real (mag (mag_bits a)) / real f64_scale"
  by (simp add: f64_value_def f64_key_def)

lemma signed_error:
  assumes "\<bar>m - \<bar>y\<bar>\<bar> \<le> e" "y = (if neg then - \<bar>y\<bar> else \<bar>y\<bar>)" "x = (if neg then - m else m)"
  shows "\<bar>x - y\<bar> \<le> (e :: real)"
proof (cases neg)
  case True
  then have "y = - \<bar>y\<bar>" "x = - m" using assms(2,3) by (simp_all only: if_True)
  with assms(1) show ?thesis by linarith
next
  case False
  then have "y = \<bar>y\<bar>" "x = m" using assms(2,3) by (simp_all only: if_False)
  with assms(1) show ?thesis by linarith
qed

lemma value_nonneg: "\<not> is_negative a \<Longrightarrow> f64_value a = real (mag (mag_bits a)) / real f64_scale"
  by (simp add: f64_value_def f64_key_def)

lemma value_uminus [simp]: "f64_value (- a) = - f64_value a"
  by (simp add: f64_value_def)

lemma value_le: "is_finite a \<Longrightarrow> is_finite b \<Longrightarrow> a \<le> b \<longleftrightarrow> f64_value a \<le> f64_value b"
  by (simp add: less_eq_f64_def finite_not_nan f64_value_def divide_le_cancel)

lemma value_less: "is_finite a \<Longrightarrow> is_finite b \<Longrightarrow> a < b \<longleftrightarrow> f64_value a < f64_value b"
  by (simp add: less_f64_def finite_not_nan f64_value_def divide_less_cancel)

lemma value_leD: "a \<le> b \<Longrightarrow> f64_value a \<le> f64_value b"
  by (simp add: less_eq_f64_def f64_value_def divide_le_cancel)

lemma plus_value:
  assumes "is_finite a" "is_finite b" "\<bar>f64_value a + f64_value b\<bar> < 2 ^ k" "k \<le> 900"
  shows "is_finite (a + b)" "\<bar>f64_value (a + b) - (f64_value a + f64_value b)\<bar> \<le> 2 ^ k / 2 ^ 54"
proof -
  define v where "v = f64_key a + f64_key b"
  have sum: "f64_value a + f64_value b = real_of_int v / real f64_scale"
    by (simp add: f64_value_def v_def add_divide_distrib)
  have "is_finite (a + b) \<and> \<bar>f64_value (a + b) - (f64_value a + f64_value b)\<bar> \<le> 2 ^ k / 2 ^ 54"
  proof (cases "v = 0")
    case True
    then have "a + b = f64_of (is_negative a \<and> is_negative b) 0"
      using assms(1,2) by (simp add: plus_f64_def v_def is_finite_def is_nan_def is_infinite_def)
    then show ?thesis by (simp add: sum True value_of is_finite_def inf_bits_def sign_bit_def)
  next
    case False
    then have plus: "a + b = f64_of (v < 0) (round_mag (nat \<bar>v\<bar>) 1)"
      using plus_finite [OF assms(1,2)] by (simp add: v_def)
    have n: "real (nat \<bar>v\<bar>) / real 1 = \<bar>real_of_int v\<bar>" by simp
    have "\<bar>real_of_int v\<bar> < 2 ^ k * real f64_scale"
      using assms(3) unfolding sum by (simp add: pos_divide_less_eq)
    with n have "real (nat \<bar>v\<bar>) / real 1 < 2 ^ k * real f64_scale" by simp
    note round = round_value [OF _ this assms(4)]
    have "\<bar>real (mag (round_mag (nat \<bar>v\<bar>) 1)) / real f64_scale - \<bar>real_of_int v\<bar> / real f64_scale\<bar> \<le> 2 ^ k / 2 ^ 54"
      using round(2) by (simp only: n)
    then have "\<bar>real (mag (round_mag (nat \<bar>v\<bar>) 1)) / real f64_scale - \<bar>real_of_int v / real f64_scale\<bar>\<bar> \<le> 2 ^ k / 2 ^ 54"
      by simp
    then have "\<bar>f64_value (a + b) - (f64_value a + f64_value b)\<bar> \<le> 2 ^ k / 2 ^ 54"
      unfolding sum by (rule signed_error [where neg = "v < 0"]) (simp_all add: plus value_of divide_nonpos_pos)
    moreover have "is_finite (a + b)" using round(1) by (simp add: plus is_finite_def)
    ultimately show ?thesis by simp
  qed
  then show "is_finite (a + b)" "\<bar>f64_value (a + b) - (f64_value a + f64_value b)\<bar> \<le> 2 ^ k / 2 ^ 54" by simp_all
qed

lemma minus_value:
  assumes "is_finite a" "is_finite b" "\<bar>f64_value a - f64_value b\<bar> < 2 ^ k" "k \<le> 900"
  shows "is_finite (a - b)" "\<bar>f64_value (a - b) - (f64_value a - f64_value b)\<bar> \<le> 2 ^ k / 2 ^ 54"
  using plus_value [of a "- b" k] assms by (simp_all add: minus_f64_def)

lemma times_value:
  assumes "is_finite a" "is_finite b" "\<bar>f64_value a * f64_value b\<bar> < 2 ^ k" "k \<le> 900"
  shows "is_finite (a * b)" "\<bar>f64_value (a * b) - f64_value a * f64_value b\<bar> \<le> 2 ^ k / 2 ^ 54"
proof -
  let ?n = "mag (mag_bits a) * mag (mag_bits b)"
  have prod: "real ?n / real f64_scale / real f64_scale = \<bar>f64_value a * f64_value b\<bar>"
    by (simp add: abs_mult abs_value)
  have "real ?n / real f64_scale / real f64_scale < 2 ^ k" using assms(3) by (simp only: prod)
  from iffD1 [OF pos_divide_less_eq [OF scale_real] this]
  have "real ?n / real f64_scale < 2 ^ k * real f64_scale" .
  note round = round_value [OF _ this assms(4)]
  note key = key_times [OF assms(1,2)]
  show "is_finite (a * b)" using round(1) by (simp add: is_finite_def key f64_scale_def)
  have "\<bar>real (mag (mag_bits (a * b))) / real f64_scale - \<bar>f64_value a * f64_value b\<bar>\<bar> \<le> 2 ^ k / 2 ^ 54"
    using round(2) by (simp only: key prod) (simp add: f64_scale_def)
  then show "\<bar>f64_value (a * b) - f64_value a * f64_value b\<bar> \<le> 2 ^ k / 2 ^ 54"
  proof (rule signed_error [where neg = "is_negative (a * b)"])
    show "f64_value a * f64_value b = (if is_negative (a * b) then - \<bar>f64_value a * f64_value b\<bar> else \<bar>f64_value a * f64_value b\<bar>)"
      by (simp add: key(3) prod [symmetric]) (simp add: f64_value_def f64_key_def)
  qed (simp add: f64_value_def f64_key_def)
qed

end
