(* ===== verification/Averages.thy ===== *)
theory Averages
  imports Tests Rounding
begin

text \<open>
  The two unit tests of \<open>generator.rs\<close> that compare averages of random draws, with the
  operations on \<open>f64\<close> that only they use: absolute value, conversion of an unsigned integer,
  division and summation. Sums of integers are exact, and so is the comparison of their
  hundredths; the averages of price changes are within a known error of the exact ones. So
  what the tests say of the draws can be said without rounding.
\<close>

section \<open>Arithmetic of averages\<close>

definition f64_abs :: "f64 \<Rightarrow> f64" where
  "f64_abs a = f64_of False (mag_bits a)"

text \<open>\<open>as f64\<close> of an unsigned integer.\<close>

definition f64_from_nat :: "nat \<Rightarrow> f64" where
  "f64_from_nat n = f64_of False (round_mag (n * f64_scale) 1)"

definition f64_div :: "f64 \<Rightarrow> f64 \<Rightarrow> f64" where
  "f64_div a b =
     (let neg = is_negative a \<noteq> is_negative b in
      if is_nan a \<or> is_nan b then f64_nan
      else if is_infinite a then (if is_infinite b then f64_nan else f64_of neg inf_bits)
      else if is_infinite b then f64_of neg 0
      else if mag_bits b = 0 then (if mag_bits a = 0 then f64_nan else f64_of neg inf_bits)
      else f64_of neg (round_mag (mag (mag_bits a) * f64_scale) (mag (mag_bits b))))"

text \<open>
  \<open>iter().sum()\<close>. The sum starts from \<open>0.0\<close> or \<open>-0.0\<close>, as the version of the library has
  it; for the terms of the tests, which have no sign, both give the same.
\<close>

definition f64_sum :: "f64 list \<Rightarrow> f64" where
  "f64_sum xs = foldl (+) 0 xs"

section \<open>Integers are exact\<close>

lemma mag_multiple:
  assumes "m < 2 ^ 53" "j \<le> 1074"
  shows "mag (round_mag (m * 2 ^ j) 1) = m * 2 ^ j" "round_mag (m * 2 ^ j) 1 < inf_bits"
proof -
  define s where "s = bitlen (m * 2 ^ j) - 53"
  define r where "r = m * 2 ^ (j - s)"
  have "m * 2 ^ j < 2 ^ (53 + j)" using assms(1) by (simp add: power_add)
  then have "bitlen (m * 2 ^ j) \<le> 53 + j" by (simp add: bitlen_le)
  then have s: "s \<le> j" "bitlen (m * 2 ^ j) \<le> 53 + s" by (simp_all add: s_def)
  then have val: "m * 2 ^ j = r * 2 ^ s" by (simp add: r_def power_add [symmetric])
  have hi: "r < 2 ^ 53"
    using s(2) unfolding val bitlen_le by (simp add: power_add)
  have exact: "round_div (m * 2 ^ j) (1 * 2 ^ s) = r" by (simp add: val round_div_exact)
  have lo: "2 ^ 52 \<le> r" if "0 < s"
    using round_mag_significand(2) [of 1 s "m * 2 ^ j"] that unfolding exact
    by (simp add: s_def [symmetric])
  from exact have round: "round_mag (m * 2 ^ j) 1 = min inf_bits (s * 2 ^ 52 + r)"
    by (simp add: round_mag_def Let_def s_def)
  have "s * 2 ^ 52 + r < inf_bits" using hi s(1) assms(2) by (simp add: inf_bits_def)
  with round show "round_mag (m * 2 ^ j) 1 < inf_bits" by simp
  have "mag (s * 2 ^ 52 + r) = r * 2 ^ s" using hi lo by (intro mag_significand) simp_all
  with round \<open>s * 2 ^ 52 + r < inf_bits\<close> show "mag (round_mag (m * 2 ^ j) 1) = m * 2 ^ j"
    by (simp add: val)
qed

lemma from_nat_facts:
  assumes "n < 2 ^ 53"
  shows "\<not> is_negative (f64_from_nat n)" "is_finite (f64_from_nat n)"
    "mag (mag_bits (f64_from_nat n)) = n * f64_scale" "f64_key (f64_from_nat n) = int (n * f64_scale)"
proof -
  note mag = mag_multiple [OF assms order_refl, folded f64_scale_def]
  show "\<not> is_negative (f64_from_nat n)" "is_finite (f64_from_nat n)"
    using mag(2) by (simp_all add: f64_from_nat_def is_finite_def)
  show "mag (mag_bits (f64_from_nat n)) = n * f64_scale" "f64_key (f64_from_nat n) = int (n * f64_scale)"
    using mag(1) by (simp_all add: f64_from_nat_def f64_key_def)
qed

lemma from_nat_plus:
  assumes "m < 2 ^ 53" "n < 2 ^ 53"
  shows "f64_from_nat m + f64_from_nat n = f64_from_nat (m + n)"
proof (cases "m + n = 0")
  case True
  then show ?thesis
    by (simp add: f64_from_nat_def plus_f64_def f64_key_def round_mag_0 is_nan_def is_infinite_def inf_bits_def)
next
  case False
  have "f64_key (f64_from_nat m) + f64_key (f64_from_nat n) = int ((m + n) * f64_scale)"
    using assms by (simp add: from_nat_facts algebra_simps)
  moreover have "0 < (m + n) * f64_scale" using False by (simp add: f64_scale_def)
  ultimately show ?thesis
    using plus_pos [of "f64_from_nat m" "f64_from_nat n"] from_nat_facts(2) assms
    by (simp add: f64_from_nat_def)
qed

lemma sum_from_nat:
  assumes "sum_list ns < 2 ^ 53"
  shows "f64_sum (map f64_from_nat ns) = f64_from_nat (sum_list ns)"
proof -
  have "foldl (+) (f64_from_nat a) (map f64_from_nat ns) = f64_from_nat (a + sum_list ns)"
    if "a + sum_list ns < 2 ^ 53" for a
    using that
  proof (induction ns arbitrary: a)
    case (Cons n ns)
    then show ?case using Cons.IH [of "a + n"] by (simp add: from_nat_plus add.assoc)
  qed simp
  from this [of 0] assms show ?thesis
    by (simp add: f64_sum_def f64_from_nat_def round_mag_0 zero_f64_def)
qed

text \<open>A division by 100 keeps integers below \<open>2 ^ 40\<close> apart.\<close>

lemma hundredths:
  assumes "m < 2 ^ 40" "n < 2 ^ 40"
  shows "f64_div (f64_from_nat m) (f64_lit 100 1) < f64_div (f64_from_nat n) (f64_lit 100 1) \<longleftrightarrow> m < n"
proof -
  define quot where "quot k = round_mag (k * f64_scale * f64_scale) (100 * f64_scale)" for k
  have lit: "f64_lit 100 1 = f64_from_nat 100" by (simp add: f64_lit_def f64_from_nat_def)
  have scale: "0 < f64_scale" by (simp add: f64_scale_def)
  have div: "f64_div (f64_from_nat k) (f64_lit 100 1) = f64_of False (quot k)" if "k < 2 ^ 40" for k
  proof -
    have "k < 2 ^ 53" using that by simp
    note facts = from_nat_facts [OF this] from_nat_facts [of 100]
    moreover have "mag_bits (f64_from_nat 100) \<noteq> 0"
      using from_nat_facts(3) [of 100] scale by (intro notI) simp
    ultimately show ?thesis
      unfolding lit by (simp add: f64_div_def Let_def quot_def is_finite_def is_nan_def is_infinite_def)
  qed
  have less: "f64_of False (quot m) < f64_of False (quot n) \<longleftrightarrow> quot m < quot n" for m n
    using mag_le_iff [of "quot n" "quot m"] round_mag_le_inf
    by (auto simp: less_f64_def f64_key_def is_nan_def quot_def not_less [symmetric] simp del: not_less)
  have up: "quot m < quot n" if "m < n" "n < 2 ^ 40" for m n
  proof -
    define k where "k = (m * 1024 + 99) div 100"
    have k: "m * 1024 \<le> 100 * k" "100 * (k + 1) \<le> n * 1024" "k + 1 < 2 ^ 53"
      using that by (auto simp: k_def)
    have pow: "f64_scale = 1024 * 2 ^ 1064" by (simp add: f64_scale_def)
    note lower = mag_multiple [of k 1064] and upper = mag_multiple [of "k + 1" 1064]
    have "quot m \<le> round_mag (k * 2 ^ 1064) 1"
      unfolding quot_def
    proof (rule round_mag_mono)
      have "m * 1024 * (2 ^ 1064 * f64_scale) \<le> 100 * k * (2 ^ 1064 * f64_scale)"
        using k(1) by (rule mult_le_mono1)
      then show "m * f64_scale * f64_scale * 1 \<le> k * 2 ^ 1064 * (100 * f64_scale)"
        by (subst (1) pow) (simp only: mult_ac)
    qed (simp_all add: scale)
    also have "\<dots> < round_mag ((k + 1) * 2 ^ 1064) 1"
      using lower upper k(3) mag_le_iff [of "round_mag ((k + 1) * 2 ^ 1064) 1" "round_mag (k * 2 ^ 1064) 1"]
      by (simp add: not_le [symmetric] del: not_le)
    also have "\<dots> \<le> quot n"
      unfolding quot_def
    proof (rule round_mag_mono)
      have "100 * (k + 1) * (2 ^ 1064 * f64_scale) \<le> n * 1024 * (2 ^ 1064 * f64_scale)"
        using k(2) by (rule mult_le_mono1)
      then show "(k + 1) * 2 ^ 1064 * (100 * f64_scale) \<le> n * f64_scale * f64_scale * 1"
        by (subst (3) pow) (simp only: mult_ac)
    qed (simp_all add: scale)
    finally show ?thesis .
  qed
  show ?thesis
    unfolding div [OF assms(1)] div [OF assms(2)] less
    using up [of m n] up [of n m] assms by (cases m n rule: linorder_cases) auto
qed

section \<open>The tests\<close>

text \<open>
  \<open>draws\<close> are the random numbers of the iterations, and for the quotes the clock.
\<close>

definition generate_new_price_proportional_to_price :: "(rng \<times> rng) list \<Rightarrow> bool" where
  "generate_new_price_proportional_to_price draws \<longleftrightarrow>
     (let small_diffs = map (\<lambda>(r, _). f64_abs (generate_new_price r (f64_lit 10 1) - f64_lit 10 1)) draws;
          large_diffs = map (\<lambda>(_, r). f64_abs (generate_new_price r (f64_lit 1000 1) - f64_lit 1000 1)) draws;
          avg_small = f64_div (f64_sum small_diffs) (f64_from_nat (length small_diffs));
          avg_large = f64_div (f64_sum large_diffs) (f64_from_nat (length large_diffs))
      in avg_small * f64_lit 10 1 < avg_large)"

fun draw_volumes :: "((rng \<times> int) \<times> (rng \<times> int)) list \<Rightarrow> (string \<rightharpoonup> price_change) \<Rightarrow> (u32 list \<times> u32 list) option" where
  "draw_volumes [] ps = Some ([], [])"
| "draw_volumes (((r1, now1), (r2, now2)) # draws) ps =
     (case generate_quote r1 now1 ps ''AAPL'' of
        Value (Some popular, ps1) \<Rightarrow>
          (case generate_quote r2 now2 ps1 ''XYZ'' of
             Value (Some regular, ps2) \<Rightarrow>
               map_option (\<lambda>(vs, ws). (q_volume popular # vs, q_volume regular # ws)) (draw_volumes draws ps2)
           | _ \<Rightarrow> None)
      | _ \<Rightarrow> None)"

definition generate_quote_popular_stock_higher_volume ::
    "(nat \<Rightarrow> rng) \<Rightarrow> ((rng \<times> int) \<times> (rng \<times> int)) list \<Rightarrow> bool" where
  "generate_quote_popular_stock_higher_volume rngs draws \<longleftrightarrow>
     (case draw_volumes draws (prices (new_generator rngs [''AAPL'', ''XYZ''])) of
        None \<Rightarrow> False
      | Some (popular_volumes, regular_volumes) \<Rightarrow>
          let avg_popular = f64_div (f64_sum (map (\<lambda>v. f64_from_nat (unat v)) popular_volumes)) (f64_lit 100 1);
              avg_regular = f64_div (f64_sum (map (\<lambda>v. f64_from_nat (unat v)) regular_volumes)) (f64_lit 100 1)
          in avg_regular < avg_popular)"

lemma generate_quote_keeps:
  assumes "ps ticker \<noteq> None" "0 \<le> now"
  obtains q ps' where "generate_quote r now ps ticker = Value (Some q, ps')"
    "q_volume q = random_volume r ticker" "dom ps' = dom ps"
  using generate_quote_cases [of ps ticker _ now r] assms that by fastforce

lemma draw_volumes_all:
  assumes "{''AAPL'', ''XYZ''} \<subseteq> dom ps" "\<forall>((_, now1), (_, now2)) \<in> set draws. 0 \<le> now1 \<and> 0 \<le> now2"
  shows "draw_volumes draws ps = Some (map (\<lambda>((r, _), _). random_volume r ''AAPL'') draws,
    map (\<lambda>(_, (r, _)). random_volume r ''XYZ'') draws)"
  using assms
proof (induction draws arbitrary: ps)
  case (Cons d draws)
  obtain r1 now1 r2 now2 where d: "d = ((r1, now1), (r2, now2))" by (metis prod.exhaust)
  have known: "ps ''AAPL'' \<noteq> None" "0 \<le> now1" "0 \<le> now2" using Cons.prems d by auto
  obtain q1 ps1 where q1: "generate_quote r1 now1 ps ''AAPL'' = Value (Some q1, ps1)"
    "q_volume q1 = random_volume r1 ''AAPL''" "dom ps1 = dom ps"
    using generate_quote_keeps [of ps "''AAPL''" now1 r1] known by blast
  then have "''XYZ'' \<in> dom ps1" using Cons.prems(1) by simp
  then have "ps1 ''XYZ'' \<noteq> None" by (simp add: domIff)
  then obtain q2 ps2 where q2: "generate_quote r2 now2 ps1 ''XYZ'' = Value (Some q2, ps2)"
    "q_volume q2 = random_volume r2 ''XYZ''" "dom ps2 = dom ps1"
    using generate_quote_keeps [of ps1 "''XYZ''" now2 r2] known(3) by blast
  show ?case
    using Cons.IH [of ps2] Cons.prems q1 q2 by (simp add: d)
qed simp

lemma volumes_sum: "sum_list (map (\<lambda>v. unat (v :: u32)) vs) \<le> length vs * 2 ^ 32"
proof (induction vs)
  case (Cons v vs)
  have "unat v < 2 ^ 32" using unsigned_less [of v, where ?'a = nat] by simp
  with Cons show ?case by simp
qed simp

lemma volume_test:
  assumes "length draws \<le> 100" "\<forall>((_, now1), (_, now2)) \<in> set draws. 0 \<le> now1 \<and> 0 \<le> now2"
  shows "generate_quote_popular_stock_higher_volume rngs draws \<longleftrightarrow>
    (\<Sum>d \<leftarrow> draws. unat (random_volume (fst (snd d)) ''XYZ'')) < (\<Sum>d \<leftarrow> draws. unat (random_volume (fst (fst d)) ''AAPL''))"
proof -
  define vs where "vs = map (\<lambda>((r, _), _). random_volume r ''AAPL'') draws"
  define ws where "ws = map (\<lambda>(_, (r, _)). random_volume r ''XYZ'') draws"
  have small: "sum_list (map unat us) < 2 ^ 40" if "length us = length draws" for us :: "u32 list"
    using volumes_sum [of us] that assms(1) by simp
  have draws: "draw_volumes draws (prices (new_generator rngs [''AAPL'', ''XYZ''])) = Some (vs, ws)"
    unfolding vs_def ws_def by (rule draw_volumes_all [OF _ assms(2)]) (simp add: new_generator_def)
  have sums: "f64_sum (map (\<lambda>v. f64_from_nat (unat v)) us) = f64_from_nat (sum_list (map unat us))"
    if "length us = length draws" for us :: "u32 list"
    using sum_from_nat [of "map unat us"] small [OF that] by (simp add: comp_def)
  have len: "length vs = length draws" "length ws = length draws" by (simp_all add: vs_def ws_def)
  have "generate_quote_popular_stock_higher_volume rngs draws \<longleftrightarrow> sum_list (map unat ws) < sum_list (map unat vs)"
    unfolding generate_quote_popular_stock_higher_volume_def draws
    by (simp add: sums len hundredths [OF small [OF len(2)] small [OF len(1)]] del: One_nat_def)
  then show ?thesis by (simp add: vs_def ws_def comp_def case_prod_beta)
qed

section \<open>The averages of the price changes\<close>

lemma div_value:
  assumes "is_finite a" "is_finite b" "f64_value b \<noteq> 0" "\<bar>f64_value a / f64_value b\<bar> < 2 ^ k" "k \<le> 900"
  shows "is_finite (f64_div a b)" "\<bar>f64_value (f64_div a b) - f64_value a / f64_value b\<bar> \<le> 2 ^ k / 2 ^ 54"
proof -
  let ?m = "mag (mag_bits a)" and ?d = "mag (mag_bits b)"
  have d: "0 < ?d"
  proof (rule gr0I)
    assume "?d = 0"
    with assms(3) show False by (simp add: f64_value_def f64_key_def split: if_splits)
  qed
  then have b: "mag_bits b \<noteq> 0" by (intro notI) simp
  have quot: "real (?m * f64_scale) / real ?d / real f64_scale = \<bar>f64_value a / f64_value b\<bar>"
    using d by (simp add: abs_value)
  have "real (?m * f64_scale) / real ?d / real f64_scale < 2 ^ k" using assms(4) by (simp only: quot)
  from iffD1 [OF pos_divide_less_eq [OF scale_real] this]
  have "real (?m * f64_scale) / real ?d < 2 ^ k * real f64_scale" .
  note round = round_value [OF d this assms(5)]
  define neg where "neg \<longleftrightarrow> is_negative a \<noteq> is_negative b"
  have div: "f64_div a b = f64_of neg (round_mag (?m * f64_scale) ?d)"
    using assms(1,2) b by (simp add: f64_div_def Let_def is_finite_def is_nan_def is_infinite_def neg_def)
  show "is_finite (f64_div a b)" using round(1) by (simp add: div is_finite_def)
  have "\<bar>real (mag (round_mag (?m * f64_scale) ?d)) / real f64_scale - \<bar>f64_value a / f64_value b\<bar>\<bar> \<le> 2 ^ k / 2 ^ 54"
    using round(2) by (simp only: quot)
  then show "\<bar>f64_value (f64_div a b) - f64_value a / f64_value b\<bar> \<le> 2 ^ k / 2 ^ 54"
  proof (rule signed_error [where neg = neg])
    show "f64_value a / f64_value b = (if neg then - \<bar>f64_value a / f64_value b\<bar> else \<bar>f64_value a / f64_value b\<bar>)"
      by (simp add: quot [symmetric] neg_def) (simp add: f64_value_def f64_key_def)
  qed (simp add: div value_of)
qed

lemma abs_facts: "is_finite (f64_abs a) = is_finite a" "f64_value (f64_abs a) = \<bar>f64_value a\<bar>"
  using mag_bits_less [of a] by (simp_all add: f64_abs_def is_finite_def value_of abs_value)

text \<open>A sum of at most a thousand terms, none of them above 32 in absolute value.\<close>

lemma errors_add:
  "\<bar>c - (b + r)\<bar> \<le> d \<Longrightarrow> \<bar>b - (a + x)\<bar> \<le> e \<Longrightarrow> \<bar>c - (a + (x + r))\<bar> \<le> e + (d :: real)"
  by linarith

lemma foldl_value:
  assumes "\<And>x. x \<in> set xs \<Longrightarrow> is_finite x \<and> \<bar>f64_value x\<bar> \<le> 32"
    and "is_finite a" "\<bar>f64_value a\<bar> \<le> 33 * n" "n + real (length xs) \<le> 1000"
  shows "is_finite (foldl (+) a xs)
    \<and> \<bar>f64_value (foldl (+) a xs) - (f64_value a + sum_list (map f64_value xs))\<bar> \<le> real (length xs) / 100000000000"
  using assms
proof (induction xs arbitrary: a n)
  case (Cons x xs)
  have x: "is_finite x" "\<bar>f64_value x\<bar> \<le> 32" using Cons.prems(1) by auto
  have "\<bar>f64_value a + f64_value x\<bar> < 2 ^ 16"
    using x(2) Cons.prems(3,4) by (simp add: abs_le_iff abs_less_iff)
  note step = plus_value [OF Cons.prems(2) x(1) this]
  have err: "\<bar>f64_value (a + x) - (f64_value a + f64_value x)\<bar> \<le> 1 / 100000000000"
    by (rule order_trans [OF step(2)]) simp_all
  then have "\<bar>f64_value (a + x)\<bar> \<le> 33 * (n + 1)" using x(2) Cons.prems(3) unfolding abs_le_iff by argo
  from Cons.IH [OF _ _ this] Cons.prems(1,4) step(1)
  have "is_finite (foldl (+) (a + x) xs) \<and> \<bar>f64_value (foldl (+) (a + x) xs)
      - (f64_value (a + x) + sum_list (map f64_value xs))\<bar> \<le> real (length xs) / 100000000000" by simp
  with errors_add [OF _ err] show ?case by (simp add: add_divide_distrib)
qed simp

lemma sum_value:
  assumes "\<And>x. x \<in> set xs \<Longrightarrow> is_finite x \<and> \<bar>f64_value x\<bar> \<le> 32" "length xs \<le> 1000"
  shows "is_finite (f64_sum xs)" "\<bar>f64_value (f64_sum xs) - sum_list (map f64_value xs)\<bar> \<le> 1 / 100000000"
proof -
  have zero: "is_finite (0 :: f64)" "f64_value 0 = 0"
    by (simp_all add: zero_f64_def is_finite_def inf_bits_def value_of)
  have "is_finite (f64_sum xs)
      \<and> \<bar>f64_value (f64_sum xs) - sum_list (map f64_value xs)\<bar> \<le> real (length xs) / 100000000000"
    using foldl_value [of xs 0 0] zero assms by (simp add: f64_sum_def)
  moreover have "real (length xs) / 100000000000 \<le> 1 / 100000000" using assms(2) by simp
  ultimately show "is_finite (f64_sum xs)" "\<bar>f64_value (f64_sum xs) - sum_list (map f64_value xs)\<bar> \<le> 1 / 100000000"
    by (simp_all add: abs_le_iff)
qed

text \<open>The draw of a price step, and the sum of many without their signs.\<close>

abbreviation drawn_change :: "rng \<Rightarrow> f64" where
  "drawn_change r \<equiv> range_f64_incl r (- MAX_CHANGE_PERCENT) MAX_CHANGE_PERCENT"

definition drawn_changes :: "rng list \<Rightarrow> real" where
  "drawn_changes rs = (\<Sum>r \<leftarrow> rs. \<bar>f64_value (drawn_change r)\<bar>)"

lemma constants_value:
  "\<bar>f64_value MAX_CHANGE_PERCENT - 2 / 100\<bar> \<le> 1 / 1000000000000" "f64_value MIN_PRICE \<le> 1" "f64_value 1 = 1"
proof -
  have scale: "real f64_scale = 2 ^ 62 * (2 ^ 1012)" by (simp add: f64_scale_def)
  show "f64_value MIN_PRICE \<le> 1"
    using price_constants(4,7) by (simp add: value_nonneg mag_def f64_scale_def)
  show "f64_value 1 = 1" using f64_one by (simp add: value_nonneg)
  show "\<bar>f64_value MAX_CHANGE_PERCENT - 2 / 100\<bar> \<le> 1 / 1000000000000"
    using price_constants(5,8) by (simp add: value_nonneg mag_def f64_scale_def)
qed

lemma drawn_value:
  assumes "rng_ok r"
  shows "is_finite (drawn_change r)" "\<bar>f64_value (drawn_change r)\<bar> \<le> 3 / 100"
proof -
  have le: "- MAX_CHANGE_PERCENT \<le> MAX_CHANGE_PERCENT"
    using price_constants(2,5) by (simp add: less_eq_f64_def finite_not_nan f64_key_def)
  with assms have "- MAX_CHANGE_PERCENT \<le> drawn_change r" "drawn_change r \<le> MAX_CHANGE_PERCENT"
    by (auto simp: rng_ok_def)
  note between = f64_between_finite [OF this] value_leD [OF this(1)] value_leD [OF this(2)]
  show "is_finite (drawn_change r)" using between(1) price_constants(2) by simp
  show "\<bar>f64_value (drawn_change r)\<bar> \<le> 3 / 100"
    using between(2,3) constants_value(1) unfolding value_uminus by linarith
qed


lemma f64_max_left: "b \<le> a \<Longrightarrow> f64_max a b = a"
  by (simp add: f64_max_def less_eq_f64_def)

lemma price_moves:
  assumes "rng_ok r" "is_finite p" "f64_value p = n" "10 \<le> n" "n \<le> 1000"
  defines "d \<equiv> f64_abs (generate_new_price r p - p)"
  shows "is_finite d" "\<bar>f64_value d - n * \<bar>f64_value (drawn_change r)\<bar>\<bar> \<le> 1 / 100000000000"
    "\<bar>f64_value d\<bar> \<le> 32"
proof -
  let ?c = "f64_value (drawn_change r)" and ?u = "1 + drawn_change r"
  note c = drawn_value [OF assms(1)]
  have "\<bar>f64_value 1 + ?c\<bar> < 2 ^ 1" using c(2) unfolding constants_value(3) by simp
  note plus = plus_value [OF f64_one(1) c(1) this, unfolded constants_value(3)]
  have u: "\<bar>f64_value ?u - (1 + ?c)\<bar> \<le> 1 / 1000000000000000"
    by (rule order_trans [OF plus(2)]) simp_all
  have "\<bar>n * (f64_value ?u - (1 + ?c))\<bar> \<le> 1000 * (1 / 1000000000000000)"
    unfolding abs_mult using assms(4,5) u by (intro mult_mono) simp_all
  then have scaled: "\<bar>n * f64_value ?u - (n + n * ?c)\<bar> \<le> 1 / 1000000000000"
    by (simp add: algebra_simps)
  have "\<bar>n * ?c\<bar> \<le> n * (3 / 100)" unfolding abs_mult using assms(4) c(2) by (intro mult_mono) simp_all
  then have move: "\<bar>n * ?c\<bar> \<le> 30" "\<bar>n * ?c\<bar> \<le> n - 9" using assms(4,5) by (simp_all)
  have "\<bar>f64_value p * f64_value ?u\<bar> < 2 ^ 11"
    using scaled move(1) assms(4,5) unfolding assms(3) by simp argo
  note times = times_value [OF assms(2) plus(1) this, unfolded assms(3)]
  have prod: "\<bar>f64_value (p * ?u) - n * f64_value ?u\<bar> \<le> 1 / 1000000000000"
    by (rule order_trans [OF times(2)]) simp_all
  then have sum: "\<bar>f64_value (p * ?u) - n - n * ?c\<bar> \<le> 2 / 1000000000000" using scaled by argo
  then have "1 \<le> f64_value (p * ?u)" using move(2) by argo
  then have "MIN_PRICE \<le> p * ?u"
    using constants_value(2) times(1) by (simp add: value_le price_constants(1))
  then have new: "generate_new_price r p = p * ?u"
    by (simp add: generate_new_price_def f64_max_left)
  have "\<bar>f64_value (p * ?u) - f64_value p\<bar> < 2 ^ 5"
    using sum move(1) unfolding assms(3) by simp argo
  note minus = minus_value [OF times(1) assms(2) this]
  have "\<bar>f64_value (p * ?u - p) - (f64_value (p * ?u) - n)\<bar> \<le> 1 / 1000000000000"
    by (rule order_trans [OF minus(2) [unfolded assms(3)]]) simp_all
  with sum have diff: "\<bar>f64_value (p * ?u - p) - n * ?c\<bar> \<le> 1 / 100000000000" by argo
  show "is_finite d" using minus(1) by (simp add: d_def new abs_facts)
  have "n * \<bar>?c\<bar> = \<bar>n * ?c\<bar>" using assms(4) by (simp add: abs_mult)
  then show "\<bar>f64_value d - n * \<bar>?c\<bar>\<bar> \<le> 1 / 100000000000"
    using diff unfolding d_def new abs_facts(2) by argo
  show "\<bar>f64_value d\<bar> \<le> 32" using diff move(1) unfolding d_def new abs_facts(2) by argo
qed


lemma from_nat_value:
  "n < 2 ^ 53 \<Longrightarrow> f64_value (f64_from_nat n) = real n"
  "is_finite (f64_lit n 1) = is_finite (f64_from_nat n)" "f64_value (f64_lit n 1) = f64_value (f64_from_nat n)"
  by (simp_all add: f64_value_def from_nat_facts) (simp_all add: f64_lit_def f64_from_nat_def)

lemma sums_close:
  "(\<And>x. x \<in> set xs \<Longrightarrow> \<bar>f x - g x\<bar> \<le> e) \<Longrightarrow> \<bar>sum_list (map f xs) - sum_list (map g xs)\<bar> \<le> real (length xs) * (e :: real)"
proof (induction xs)
  case (Cons x xs)
  then have "\<bar>f x - g x\<bar> \<le> e" "\<bar>sum_list (map f xs) - sum_list (map g xs)\<bar> \<le> real (length xs) * e" by simp_all
  then show ?case by (simp add: algebra_simps)
qed simp

lemma average_value:
  assumes "length rs = 1000" "\<forall>r \<in> set rs. rng_ok r" "is_finite p" "f64_value p = n" "10 \<le> n" "n \<le> 1000"
  defines "avg \<equiv> f64_div (f64_sum (map (\<lambda>r. f64_abs (generate_new_price r p - p)) rs)) (f64_from_nat 1000)"
  shows "is_finite avg"
    "\<bar>f64_value avg - n * drawn_changes rs / 1000\<bar> \<le> 1 / 10000000000"
    "\<bar>f64_value avg\<bar> \<le> 33"
proof -
  let ?d = "\<lambda>r. f64_abs (generate_new_price r p - p)"
  define sum where "sum = f64_sum (map ?d rs)"
  define T where "T = n * drawn_changes rs"
  note moves = price_moves [OF bspec [OF assms(2)] assms(3-6)]
  define D where "D = (\<Sum>r \<leftarrow> rs. f64_value (?d r))"
  have fin: "is_finite sum" and rounded: "\<bar>f64_value sum - D\<bar> \<le> 1 / 100000000"
    using sum_value [of "map ?d rs"] assms(1) moves(1,3) by (auto simp: sum_def D_def comp_def)
  have "\<bar>D - (\<Sum>r \<leftarrow> rs. n * \<bar>f64_value (drawn_change r)\<bar>)\<bar> \<le> real (length rs) * (1 / 100000000000)"
    unfolding D_def by (rule sums_close) (rule moves(2))
  then have sum: "\<bar>f64_value sum - T\<bar> \<le> 2 / 100000000"
    using rounded unfolding T_def drawn_changes_def sum_list_const_mult assms(1) by simp argo
  have "\<bar>D - (\<Sum>r \<leftarrow> rs. 0)\<bar> \<le> real (length rs) * 32"
    unfolding D_def by (rule sums_close) (use moves(3) in simp)
  then have small: "\<bar>f64_value sum\<bar> \<le> 32001" using rounded by (simp add: assms(1)) argo
  have k: "is_finite (f64_from_nat 1000)" "f64_value (f64_from_nat 1000) = 1000" using from_nat_value(1) [of 1000] from_nat_facts(2) [of 1000] by simp_all
  have "\<bar>f64_value sum / f64_value (f64_from_nat 1000)\<bar> < 2 ^ 6"
    using small by (simp add: k)
  note div = div_value [OF fin k(1) _ this, unfolded k(2)]
  have err: "\<bar>f64_value avg - f64_value sum / 1000\<bar> \<le> 1 / 100000000000"
    unfolding avg_def sum_def [symmetric] by (rule order_trans [OF div(2)]) simp_all
  show "is_finite avg" unfolding avg_def sum_def [symmetric] using div(1) by simp
  show "\<bar>f64_value avg - n * drawn_changes rs / 1000\<bar> \<le> 1 / 10000000000"
    using err sum unfolding T_def [symmetric] by argo
  show "\<bar>f64_value avg\<bar> \<le> 33" using err small by argo
qed

text \<open>The two tests, of the draws themselves.\<close>

lemma drawn_volume:
  assumes "rng_ok r"
  shows "unat (random_volume r ''XYZ'') = 100 + unat (range_u32 r 0 1000)"
    "unat (random_volume r ''AAPL'') = 1000 + unat (range_u32 r 0 5000)"
proof -
  have "range_u32 r 0 1000 < 1000" "range_u32 r 0 5000 < 5000" using assms by (simp_all add: rng_ok_def)
  then show "unat (random_volume r ''XYZ'') = 100 + unat (range_u32 r 0 1000)"
    "unat (random_volume r ''AAPL'') = 1000 + unat (range_u32 r 0 5000)"
    by (simp_all add: random_volume_def unat_word_ariths word_less_nat_alt)
qed

lemma price_test:
  assumes "length draws = 1000" "\<forall>(r1, r2) \<in> set draws. rng_ok r1 \<and> rng_ok r2"
  shows "drawn_changes (map fst draws) / 10 + 1 / 100000000 \<le> drawn_changes (map snd draws)
      \<Longrightarrow> generate_new_price_proportional_to_price draws"
    and "drawn_changes (map snd draws) + 1 / 100000000 \<le> drawn_changes (map fst draws) / 10
      \<Longrightarrow> \<not> generate_new_price_proportional_to_price draws"
proof -
  define avg where "avg p rs = f64_div (f64_sum (map (\<lambda>r. f64_abs (generate_new_price r p - p)) rs)) (f64_from_nat 1000)" for p rs
  have rngs: "\<forall>r \<in> set (map fst draws). rng_ok r" "\<forall>r \<in> set (map snd draws). rng_ok r" using assms(2) by auto
  have lit: "is_finite (f64_lit 10 1)" "is_finite (f64_lit 1000 1)" "f64_value (f64_lit 10 1) = 10" "f64_value (f64_lit 1000 1) = 1000"
    by (simp_all add: from_nat_value from_nat_facts del: One_nat_def)
  note small = average_value [OF _ rngs(1) lit(1,3), folded avg_def]
  note large = average_value [OF _ rngs(2) lit(2,4), folded avg_def]
  have "\<bar>f64_value (avg (f64_lit 10 1) (map fst draws)) * f64_value (f64_lit 10 1)\<bar> < 2 ^ 9"
    using small(3) assms(1) unfolding lit(3) by (simp del: One_nat_def)
  note times = times_value [OF small(1) lit(1) this]
  have scaled: "\<bar>f64_value (avg (f64_lit 10 1) (map fst draws) * f64_lit 10 1)
      - f64_value (avg (f64_lit 10 1) (map fst draws)) * 10\<bar> \<le> 1 / 1000000000"
    by (rule order_trans [OF times(2) [unfolded lit(3)]]) (simp_all add: assms(1))
  have test: "generate_new_price_proportional_to_price draws \<longleftrightarrow>
      f64_value (avg (f64_lit 10 1) (map fst draws) * f64_lit 10 1) < f64_value (avg (f64_lit 1000 1) (map snd draws))"
    using times(1) large(1) assms(1)
    by (simp add: value_less generate_new_price_proportional_to_price_def avg_def case_prod_unfold Let_def comp_def)
  let ?s = "drawn_changes (map fst draws)" and ?l = "drawn_changes (map snd draws)"
  have "\<bar>f64_value (avg (f64_lit 10 1) (map fst draws)) - 10 * ?s / 1000\<bar> \<le> 1 / 10000000000"
    "\<bar>f64_value (avg (f64_lit 1000 1) (map snd draws)) - 1000 * ?l / 1000\<bar> \<le> 1 / 10000000000"
    using small(2) large(2) assms(1) by simp_all
  with scaled show "?s / 10 + 1 / 100000000 \<le> ?l \<Longrightarrow> generate_new_price_proportional_to_price draws"
    and "?l + 1 / 100000000 \<le> ?s / 10 \<Longrightarrow> \<not> generate_new_price_proportional_to_price draws"
    unfolding test by argo+
qed

section \<open>Concrete draws\<close>

definition high_rng :: rng where
  "high_rng = \<lparr>range_f64 = \<lambda>lo hi. lo, range_f64_incl = \<lambda>lo hi. hi, range_u32 = \<lambda>lo hi. hi - 1\<rparr>"

definition still_rng :: rng where
  "still_rng = low_rng\<lparr>range_f64_incl := \<lambda>lo hi. if lo \<le> 0 \<and> 0 \<le> hi then 0 else lo\<rparr>"

lemma example_rngs_ok: "rng_ok high_rng" "rng_ok still_rng"
proof -
  have "lo \<le> hi - 1 \<and> hi - 1 < hi" if "lo < hi" for lo hi :: u32
  proof -
    have "hi \<noteq> 0" using that by auto
    then have "unat (hi - 1) = unat hi - 1" by (rule unat_minus_one)
    with that show ?thesis by (simp add: word_le_nat_alt word_less_nat_alt)
  qed
  then show "rng_ok high_rng" "rng_ok still_rng"
    by (auto simp: rng_ok_def high_rng_def still_rng_def low_rng_def less_f64_def less_eq_f64_def)
qed

lemma example_changes:
  "f64_value (drawn_change still_rng) = 0" "1 / 100 \<le> \<bar>f64_value (drawn_change high_rng)\<bar>"
proof -
  have "- MAX_CHANGE_PERCENT \<le> 0" "0 \<le> MAX_CHANGE_PERCENT"
    using price_constants(2,5,8)
    by (simp_all add: less_eq_f64_def finite_not_nan zero_f64_def is_nan_def inf_bits_def sign_bit_def f64_key_def)
  then show "f64_value (drawn_change still_rng) = 0"
    by (simp add: still_rng_def zero_f64_def value_of)
  show "1 / 100 \<le> \<bar>f64_value (drawn_change high_rng)\<bar>"
    using constants_value(1) by (simp add: high_rng_def) argo
qed

section \<open>Properties\<close>

text \<open>
  Claim C40. The two unit tests that compare averages of random draws are decided by the
  draws. The test of the volumes passes if and only if the hundred volumes of the popular
  stock, 1000 plus a draw below 5000 each, sum up to more than those of the regular one, 100
  plus a draw below 1000 each; rounding never matters. The test of the price changes passes if the
  thousand changes drawn for the price of 1000 sum up to more, in absolute value, than a
  tenth of those drawn for the price of 10, and fails if they sum up to less; only if the two
  are less than 1 / 10^8 apart does it depend on rounding.
\<close>

theorem averages_follow_draws:
  assumes "length vdraws = 100"
    and "\<forall>((r1, now1), (r2, now2)) \<in> set vdraws. rng_ok r1 \<and> rng_ok r2 \<and> 0 \<le> now1 \<and> 0 \<le> now2"
    and "length pdraws = 1000" "\<forall>(r1, r2) \<in> set pdraws. rng_ok r1 \<and> rng_ok r2"
  shows "(generate_quote_popular_stock_higher_volume rngs vdraws \<longleftrightarrow>
      (\<Sum>((_, _), (r2, _)) \<leftarrow> vdraws. 100 + unat (range_u32 r2 0 1000))
        < (\<Sum>((r1, _), (_, _)) \<leftarrow> vdraws. 1000 + unat (range_u32 r1 0 5000)))
    \<and> (drawn_changes (map fst pdraws) / 10 + 1 / 100000000 \<le> drawn_changes (map snd pdraws) \<longrightarrow>
        generate_new_price_proportional_to_price pdraws)
    \<and> (drawn_changes (map snd pdraws) + 1 / 100000000 \<le> drawn_changes (map fst pdraws) / 10 \<longrightarrow>
        \<not> generate_new_price_proportional_to_price pdraws)"
proof -
  have clocks: "\<forall>((_, now1), (_, now2)) \<in> set vdraws. 0 \<le> now1 \<and> 0 \<le> now2" using assms(2) by auto
  have volumes: "(\<Sum>d \<leftarrow> vdraws. unat (random_volume (fst (snd d)) ''XYZ''))
      = (\<Sum>((_, _), (r2, _)) \<leftarrow> vdraws. 100 + unat (range_u32 r2 0 1000))"
    "(\<Sum>d \<leftarrow> vdraws. unat (random_volume (fst (fst d)) ''AAPL''))
      = (\<Sum>((r1, _), (_, _)) \<leftarrow> vdraws. 1000 + unat (range_u32 r1 0 5000))"
    using assms(2) by (auto intro!: arg_cong [where f = sum_list] map_cong simp: drawn_volume)
  show ?thesis
    using volume_test [OF _ clocks, of rngs] price_test [OF assms(3,4)] assms(1) unfolding volumes by simp
qed

theorem averages_follow_draws_witness:
  "rng_ok low_rng \<and> rng_ok high_rng \<and> rng_ok still_rng
   \<and> generate_quote_popular_stock_higher_volume (\<lambda>_. low_rng) (replicate 100 ((low_rng, 5), (low_rng, 6)))
   \<and> \<not> generate_quote_popular_stock_higher_volume (\<lambda>_. low_rng) (replicate 100 ((low_rng, 5), (high_rng, 6)))
   \<and> generate_new_price_proportional_to_price (replicate 1000 (high_rng, high_rng))
   \<and> \<not> generate_new_price_proportional_to_price (replicate 1000 (high_rng, still_rng))"
proof -
  note low = averages_follow_draws [of "replicate 100 ((low_rng, 5 :: int), (low_rng, 6 :: int))" "replicate 1000 (high_rng, high_rng)" "\<lambda>_. low_rng"]
  note high = averages_follow_draws [of "replicate 100 ((low_rng, 5 :: int), (high_rng, 6 :: int))" "replicate 1000 (high_rng, still_rng)" "\<lambda>_. low_rng"]
  have "unat (range_u32 low_rng 0 n) = 0" "unat (range_u32 high_rng 0 1000) = 999" for n
    by (simp_all add: low_rng_def high_rng_def)
  with low high example_changes show ?thesis
    by (simp add: low_rng_ok example_rngs_ok sum_list_replicate drawn_changes_def)
qed

end
