(* ===== verification/Worker.thy ===== *)
theory Worker
  imports Framing Bincode
begin

text \<open>
  \<open>client/src/worker.rs\<close>: the client's worker. It subscribes over TCP, prints the quotes
  that arrive over UDP, and pings the server from a second thread. The fields behind \<open>Arc\<close>,
  the shutdown flag and the log of pings, are fields of one record; each loop is the fold
  of one iteration over what its blocking calls returned.
\<close>

section \<open>State\<close>

definition MAX_DATAGRAM_SIZE :: nat where
  "MAX_DATAGRAM_SIZE = 65536"

definition MAX_PING_LOGS :: nat where
  "MAX_PING_LOGS = 10"

definition BASE_PING_DELAY :: nat where
  "BASE_PING_DELAY = 2"

record ping_record =
  pr_timestamp :: u64
  pr_rtt_ms :: "u64 option"

record worker =
  w_master_addr :: ipv4
  w_master_tcp_port :: u16
  w_worker_udp_port :: u16
  w_shutdown :: bool
  w_pings :: "ping_record list"

definition new_worker :: "string \<Rightarrow> u16 \<Rightarrow> u16 \<Rightarrow> addr_parse_error + worker" where
  "new_worker master_addr tcp_port udp_port =
     and_then (ipv4_from_str master_addr) (\<lambda>addr.
     Inr \<lparr>w_master_addr = addr, w_master_tcp_port = tcp_port, w_worker_udp_port = udp_port,
          w_shutdown = False, w_pings = []\<rparr>)"

section \<open>The log of pings\<close>

text \<open>What the pinging thread does after a ping was sent.\<close>

definition log_ping :: "u64 \<Rightarrow> ping_record list \<Rightarrow> ping_record list" where
  "log_ping timestamp pings =
     (if MAX_PING_LOGS \<le> length pings then tl pings else pings)
     @ [\<lparr>pr_timestamp = timestamp, pr_rtt_ms = None\<rparr>]"

text \<open>What the listener does with a pong: the first ping of that timestamp gets its round trip.\<close>

fun match_pong :: "u64 \<Rightarrow> u64 \<Rightarrow> ping_record list \<Rightarrow> ping_record list" where
  "match_pong now_ms timestamp [] = []"
| "match_pong now_ms timestamp (p # ps) =
     (if pr_timestamp p = timestamp
      then p\<lparr>pr_rtt_ms := Some (saturating_sub now_ms timestamp)\<rparr> # ps
      else p # match_pong now_ms timestamp ps)"

definition unanswered :: "ping_record list \<Rightarrow> nat" where
  "unanswered pings = length (filter (\<lambda>p. pr_rtt_ms p = None) pings)"

section \<open>The subscribe command\<close>

definition subscribe_message :: "worker \<Rightarrow> string list \<Rightarrow> tcp_message" where
  "subscribe_message w tickers =
     Cmd \<lparr>sc_cmd = Stream, sc_protocol = Udp, sc_ip = Ipv4 127 0 0 1,
          sc_port = w_worker_udp_port w, sc_tickers = tickers\<rparr>"

definition send_command ::
    "worker \<Rightarrow> out_stream \<Rightarrow> string list \<Rightarrow> (worker_error + unit) \<times> out_stream" where
  "send_command w stream tickers =
     (let cmd_bytes = as_bytes (tcp_to_string (subscribe_message w tickers));
          data_len = to_be_bytes (word_of_nat (length cmd_bytes)) in
      case write_all data_len stream of
        (Inl e, s1) \<Rightarrow> (Inl (WorkerIo e), s1)
      | (Inr _, s1) \<Rightarrow>
          (case write_all cmd_bytes s1 of
             (Inl e, s2) \<Rightarrow> (Inl (WorkerIo e), s2)
           | (Inr _, s2) \<Rightarrow> (Inr (), s2)))"

text \<open>
  One attempt of the loop in \<open>start\<close>. The event says how it went: the connection was
  refused; the stream could not be cloned; or it was made, with its two halves, \<open>None\<close> for
  the incoming one when the reading thread panicked. \<open>at_sleeps\<close> records the pauses between
  attempts in seconds, \<open>at_sent\<close> the bytes written by each attempt.
\<close>

datatype attempt =
    ConnectErr io_error
  | CloneErr io_error
  | Connected out_stream "in_stream option"

record attempts =
  at_sleeps :: "nat list"
  at_sent :: "u8 list list"

definition start_step ::
    "worker \<Rightarrow> string list \<Rightarrow> attempts \<Rightarrow> attempt \<Rightarrow> (attempts, attempts outcome) control" where
  "start_step w tickers s ev =
     (case ev of
        ConnectErr e \<Rightarrow> Continue (s\<lparr>at_sleeps := at_sleeps s @ [5]\<rparr>)
      | CloneErr e \<Rightarrow> Break Panic
      | Connected out inp \<Rightarrow>
          (case send_command w out tickers of
             (res, out') \<Rightarrow>
               let s1 = s\<lparr>at_sent := at_sent s @ [written out']\<rparr>;
                   retry = Continue (s1\<lparr>at_sleeps := at_sleeps s1 @ [3]\<rparr>) in
               (case res of
                  Inl e \<Rightarrow> retry
                | Inr _ \<Rightarrow>
                    (case map_option (\<lambda>i. fst (read_tcp_message i)) inp of
                       Some (Inr Ack) \<Rightarrow> Break (Value s1)
                     | Some (Inr (Err err)) \<Rightarrow> retry
                     | Some (Inr msg) \<Rightarrow> retry
                     | Some (Inl e) \<Rightarrow> retry
                     | None \<Rightarrow> retry))))"

text \<open>\<open>start\<close>, with the listener thread it spawns first left to \<open>udp_listener_loop\<close>.\<close>

definition start :: "worker \<Rightarrow> string list \<Rightarrow> attempt list \<Rightarrow> (attempts, attempts outcome) control" where
  "start w tickers events = run_loop (start_step w tickers) \<lparr>at_sleeps = [], at_sent = []\<rparr> events"

section \<open>The UDP listener\<close>

text \<open>
  What \<open>recv_from\<close> returned. A datagram comes with its source address, with what cloning
  the socket would return (it is cloned only for the first packet of the server) and with
  the clock in nanoseconds since the epoch, negative when it is set before it.
\<close>

datatype source = FromV4 socket_addr | FromV6

datatype packet =
    Packet "u8 list" source "io_error + unit" int
  | PacketErr io_error

record listener =
  l_worker :: worker
  l_src_addr :: "socket_addr option"
  l_printed :: "stock_quote list"

definition handle_message :: "udp_message \<Rightarrow> int \<Rightarrow> listener \<Rightarrow> (listener, thread_end \<times> listener) control" where
  "handle_message msg clock l =
     (case msg of
        Quote quote \<Rightarrow> Continue (l\<lparr>l_printed := l_printed l @ [quote]\<rparr>)
      | Pong timestamp \<Rightarrow>
          (case unix_millis clock of
             Panic \<Rightarrow> Break (Panicked, l)
           | Value now_ms \<Rightarrow>
               Continue (l\<lparr>l_worker := (l_worker l)\<lparr>w_pings :=
                 match_pong now_ms timestamp (w_pings (l_worker l))\<rparr>\<rparr>))
      | _ \<Rightarrow> Continue l)"

definition listen_step ::
    "'b bincode \<Rightarrow> listener \<Rightarrow> packet \<Rightarrow> (listener, thread_end \<times> listener) control" where
  "listen_step bc l ev =
     (if w_shutdown (l_worker l) then Break (Returned, l)
      else case ev of
        Packet bytes src clone clock \<Rightarrow>
          (case udp_from_bytes bc (take MAX_DATAGRAM_SIZE bytes) of
             Inl e \<Rightarrow> Continue l
           | Inr msg \<Rightarrow>
               (case l_src_addr l of
                  Some _ \<Rightarrow> handle_message msg clock l
                | None \<Rightarrow>
                    (case src of
                       FromV6 \<Rightarrow> Continue l
                     | FromV4 addr \<Rightarrow>
                         if fst addr = w_master_addr (l_worker l) then
                           (case clone of
                              Inl e \<Rightarrow> Break (Panicked, l)
                            | Inr _ \<Rightarrow> handle_message msg clock (l\<lparr>l_src_addr := Some addr\<rparr>))
                         else Continue l)))
      | PacketErr e \<Rightarrow>
          if is_timeout e then
            (if MAX_PING_LOGS \<le> unanswered (w_pings (l_worker l)) then
               Break (Returned, l\<lparr>l_worker := (l_worker l)\<lparr>w_shutdown := True\<rparr>\<rparr>)
             else Continue l)
          else Continue l)"

definition new_listener :: "worker \<Rightarrow> listener" where
  "new_listener w = \<lparr>l_worker = w, l_src_addr = None, l_printed = []\<rparr>"

text \<open>
  What the listener returns after its loop: it joins the pinging thread, if it started one.
  That thread's result is \<open>None\<close> when it panicked.
\<close>

definition listener_result ::
    "thread_end \<Rightarrow> listener \<Rightarrow> (worker_error + unit) option \<Rightarrow> (worker_error + unit) outcome" where
  "listener_result end l ping_result =
     (case end of
        Panicked \<Rightarrow> Panic
      | Returned \<Rightarrow>
          if l_src_addr l = None then Value (Inr ())
          else (case ping_result of Some res \<Rightarrow> Value res | None \<Rightarrow> Value (Inr ())))"

definition udp_listener_loop ::
    "'b bincode \<Rightarrow> io_error + unit \<Rightarrow> io_error + unit \<Rightarrow> worker \<Rightarrow> packet list
      \<Rightarrow> (worker_error + unit) option \<Rightarrow> (listener, (worker_error + unit) outcome \<times> listener) control" where
  "udp_listener_loop bc bind set_timeout w events ping_result =
     (case bind of
        Inl e \<Rightarrow> Break (Value (Inl (WorkerIo e)), new_listener w)
      | Inr _ \<Rightarrow>
          (case set_timeout of
             Inl e \<Rightarrow> Break (Value (Inl (WorkerIo e)), new_listener w)
           | Inr _ \<Rightarrow>
               (case run_loop (listen_step bc) (new_listener w) events of
                  Continue l \<Rightarrow> Continue l
                | Break (end, l) \<Rightarrow> Break (listener_result end l ping_result, l))))"

section \<open>The pinging thread\<close>

text \<open>
  One iteration of \<open>start_pinging\<close> in its two atomic parts: check the flag, read the clock
  and send; then, after a successful send, write the log. Between them the other threads
  may run: \<open>Client\<close> interleaves the parts, \<open>ping_step\<close> runs them in one go.
\<close>

datatype ping_sent = PingEnd thread_end | PingFailed | PingSent u64 "u8 list"

definition ping_send :: "'b bincode \<Rightarrow> worker \<Rightarrow> int \<times> io_error option \<Rightarrow> ping_sent" where
  "ping_send bc w ev =
     (if w_shutdown w then PingEnd Returned
      else case unix_millis (fst ev) of
        Panic \<Rightarrow> PingEnd Panicked
      | Value timestamp \<Rightarrow>
          (case udp_to_bytes bc (Ping timestamp) of
             Inl _ \<Rightarrow> PingEnd Panicked
           | Inr bytes \<Rightarrow> (case snd ev of None \<Rightarrow> PingSent timestamp bytes | Some e \<Rightarrow> PingFailed)))"

definition ping_log :: "u64 \<Rightarrow> worker \<Rightarrow> worker" where
  "ping_log timestamp w = w\<lparr>w_pings := log_ping timestamp (w_pings w)\<rparr>"

definition ping_step ::
    "'b bincode \<Rightarrow> socket_addr \<Rightarrow> worker \<times> sent_datagrams \<Rightarrow> int \<times> io_error option
      \<Rightarrow> (worker \<times> sent_datagrams, thread_end \<times> worker \<times> sent_datagrams) control" where
  "ping_step bc src_addr st ev =
     (case st of (w, sent) \<Rightarrow>
        (case ping_send bc w ev of
           PingEnd end \<Rightarrow> Break (end, w, sent)
         | PingFailed \<Rightarrow> Continue (w, sent)
         | PingSent timestamp bytes \<Rightarrow> Continue (ping_log timestamp w, sent @ [(src_addr, bytes)])))"

definition start_pinging ::
    "'b bincode \<Rightarrow> socket_addr \<Rightarrow> worker \<Rightarrow> (int \<times> io_error option) list
      \<Rightarrow> (worker \<times> sent_datagrams, thread_end \<times> worker \<times> sent_datagrams) control" where
  "start_pinging bc src_addr w events = run_loop (ping_step bc src_addr) (w, []) events"

section \<open>Bounded logs\<close>

text \<open>
  The contract of a log that keeps the last \<open>cap\<close> entries, which the pinging thread relies
  on: pushing drops the oldest entry when the log is full.
\<close>

definition last_n :: "nat \<Rightarrow> 'x list \<Rightarrow> 'x list" where
  "last_n n xs = drop (length xs - n) xs"

lemma length_last_n [simp]: "length (last_n n xs) = min n (length xs)"
  by (simp add: last_n_def)

lemma last_n_small: "length xs \<le> n \<Longrightarrow> last_n n xs = xs"
  by (simp add: last_n_def)

lemma last_n_push: "last_n n (last_n n xs @ ys) = last_n n (xs @ ys)"
  by (cases "length xs \<le> n") (simp_all add: last_n_def drop_append add.commute)

locale bounded_log =
  fixes cap :: nat
    and entries :: "'l \<Rightarrow> 'x list"
    and push :: "'x \<Rightarrow> 'l \<Rightarrow> 'l"
  assumes push_entries: "length (entries l) \<le> cap \<Longrightarrow> entries (push x l) = last_n cap (entries l @ [x])"
begin

lemma push_all:
  "length (entries l) \<le> cap \<Longrightarrow> entries (fold push xs l) = last_n cap (entries l @ xs)"
proof (induction xs arbitrary: l)
  case Nil
  then show ?case by (simp add: last_n_small)
next
  case (Cons x xs)
  then have "length (entries (push x l)) \<le> cap" by (simp add: push_entries)
  with Cons.IH Cons.prems show ?case by (simp add: push_entries last_n_push)
qed

lemma push_bounded: "length (entries l) \<le> cap \<Longrightarrow> length (entries (push x l)) \<le> cap"
  by (simp add: push_entries)

end

interpretation ping_log: bounded_log MAX_PING_LOGS "map pr_timestamp" log_ping
  by unfold_locales
     (auto simp: log_ping_def last_n_def MAX_PING_LOGS_def map_tl drop_Suc Suc_diff_le)

section \<open>Facts about the log and the loops\<close>

lemma match_pong_stamps [simp]: "map pr_timestamp (match_pong now_ms t ps) = map pr_timestamp ps"
  by (induction ps) auto

lemma match_pong_length [simp]: "length (match_pong now_ms t ps) = length ps"
  by (induction ps) auto

lemma match_pong_absent: "t \<notin> set (map pr_timestamp ps) \<Longrightarrow> match_pong now_ms t ps = ps"
  by (induction ps) auto

lemma match_pong_first:
  "t \<notin> set (map pr_timestamp pre) \<Longrightarrow> pr_timestamp p = t \<Longrightarrow>
     match_pong now_ms t (pre @ p # post) = pre @ p\<lparr>pr_rtt_ms := Some (saturating_sub now_ms t)\<rparr> # post"
  by (induction pre) auto

lemma unanswered_le: "unanswered ps \<le> length ps"
  by (simp add: unanswered_def)

lemma unanswered_match_pong: "unanswered (match_pong now_ms t ps) \<le> unanswered ps"
  by (induction ps) (auto simp: unanswered_def)

lemma unanswered_log_ping:
  "length ps = MAX_PING_LOGS \<Longrightarrow> unanswered (log_ping t ps) \<le> unanswered ps + 1"
  "unanswered (log_ping t ps) \<noteq> 0"
  by (cases ps; auto simp: log_ping_def unanswered_def)+

text \<open>The pings that an iteration logs, and the datagrams it sends.\<close>

definition ping_stamps :: "(int \<times> io_error option) list \<Rightarrow> u64 list" where
  "ping_stamps events = concat (map (\<lambda>(clock, err).
     if err = None then [word_of_int (clock div 1000000)] else []) events)"

lemma ping_step_running:
  assumes "\<not> w_shutdown w" "0 \<le> clock" "\<forall>t. \<exists>bs. serialize_udp bc (Ping t) = Inr bs"
  shows "ping_step bc addr (w, sent) (clock, err) =
    Continue (fold ping_log (ping_stamps [(clock, err)]) w,
      sent @ concat (map (\<lambda>t. case udp_to_bytes bc (Ping t) of Inr bs \<Rightarrow> [(addr, bs)] | Inl _ \<Rightarrow> [])
        (ping_stamps [(clock, err)])))"
proof -
  obtain bs where "serialize_udp bc (Ping (word_of_int (clock div 1000000))) = Inr bs"
    using assms(3) by blast
  with assms(1,2) show ?thesis
    by (cases err) (simp_all add: ping_step_def ping_send_def unix_millis_def ping_stamps_def udp_to_bytes_def)
qed

lemma ping_log_frame:
  "w_shutdown (fold ping_log ts w) = w_shutdown w"
  "w_pings (fold ping_log ts w) = fold log_ping ts (w_pings w)"
  by (induction ts arbitrary: w) (simp_all add: ping_log_def)

lemma ping_run:
  assumes "\<not> w_shutdown w" "\<forall>(clock, err) \<in> set events. 0 \<le> clock"
    and "\<forall>t. \<exists>bs. serialize_udp bc (Ping t) = Inr bs"
  shows "run_loop (ping_step bc addr) (w, sent) events =
    Continue (fold ping_log (ping_stamps events) w,
      sent @ concat (map (\<lambda>t. case udp_to_bytes bc (Ping t) of Inr bs \<Rightarrow> [(addr, bs)] | Inl _ \<Rightarrow> [])
        (ping_stamps events)))"
  using assms(1,2)
proof (induction events arbitrary: w sent)
  case Nil
  then show ?case by (simp add: ping_stamps_def)
next
  case (Cons ev events)
  obtain clock err where ev: "ev = (clock, err)" by (cases ev)
  have stamps: "ping_stamps (ev # events) = ping_stamps [(clock, err)] @ ping_stamps events"
    by (simp add: ping_stamps_def ev)
  have "0 \<le> clock" using Cons.prems(2) ev by auto
  note step = ping_step_running [OF Cons.prems(1) this assms(3), of addr sent err]
  show ?case
    using Cons.IH [of "fold ping_log (ping_stamps [(clock, err)]) w"] Cons.prems
    by (simp add: ev step ping_log_frame) (simp add: stamps [unfolded ev])
qed

text \<open>An attempt of \<open>start\<close> succeeds when the command was written and \<open>ACK\<close> was read.\<close>

definition attempt_succeeds :: "worker \<Rightarrow> string list \<Rightarrow> attempt \<Rightarrow> bool" where
  "attempt_succeeds w tickers ev =
     (case ev of
        Connected out (Some inp) \<Rightarrow>
          fst (send_command w out tickers) = Inr () \<and> fst (read_tcp_message inp) = Inr Ack
      | _ \<Rightarrow> False)"

definition attempt_pause :: "attempt \<Rightarrow> nat" where
  "attempt_pause ev = (case ev of ConnectErr e \<Rightarrow> 5 | _ \<Rightarrow> 3)"

lemma start_step_fails:
  assumes "\<not> attempt_succeeds w tickers ev" "\<forall>e. ev \<noteq> CloneErr e"
  shows "\<exists>s'. start_step w tickers s ev = Continue s' \<and> at_sleeps s' = at_sleeps s @ [attempt_pause ev]"
proof (cases ev)
  case (Connected out inp)
  obtain res out' where send: "send_command w out tickers = (res, out')" by fastforce
  show ?thesis
  proof (cases res)
    case (Inl e)
    with Connected send show ?thesis by (simp add: start_step_def attempt_pause_def Let_def)
  next
    case (Inr u)
    with assms(1) Connected send have "\<forall>i. inp = Some i \<longrightarrow> fst (read_tcp_message i) \<noteq> Inr Ack"
      by (auto simp: attempt_succeeds_def split: option.splits)
    with Connected send Inr show ?thesis
      by (auto simp: start_step_def attempt_pause_def Let_def
          split: option.splits sum.splits tcp_message.splits)
  qed
qed (use assms in \<open>simp_all add: start_step_def attempt_pause_def\<close>)

lemma start_step_succeeds:
  "attempt_succeeds w tickers ev \<Longrightarrow>
     \<exists>s'. start_step w tickers s ev = Break (Value s') \<and> at_sleeps s' = at_sleeps s"
  by (auto simp: attempt_succeeds_def start_step_def Let_def split: attempt.splits option.splits prod.splits)

lemma start_run_fails:
  assumes "\<forall>e. CloneErr e \<notin> set events" "\<forall>ev \<in> set events. \<not> attempt_succeeds w tickers ev"
  shows "\<exists>s'. run_loop (start_step w tickers) s events = Continue s'
      \<and> at_sleeps s' = at_sleeps s @ map attempt_pause events"
  using assms
proof (induction events arbitrary: s)
  case Nil
  then show ?case by simp
next
  case (Cons ev events)
  then obtain s1 where s1: "start_step w tickers s ev = Continue s1"
    "at_sleeps s1 = at_sleeps s @ [attempt_pause ev]"
    using start_step_fails [of w tickers ev s] by auto
  with Cons.IH [of s1] Cons.prems show ?case by auto
qed

lemma start_run_succeeds:
  assumes "\<forall>e. CloneErr e \<notin> set before" "\<forall>e \<in> set before. \<not> attempt_succeeds w tickers e"
    and "attempt_succeeds w tickers ev"
  shows "\<exists>s'. run_loop (start_step w tickers) s (before @ ev # after) = Break (Value s')
      \<and> at_sleeps s' = at_sleeps s @ map attempt_pause before"
proof -
  obtain s1 where s1: "run_loop (start_step w tickers) s before = Continue s1"
    "at_sleeps s1 = at_sleeps s @ map attempt_pause before"
    using start_run_fails [OF assms(1,2)] by blast
  obtain s2 where "start_step w tickers s1 ev = Break (Value s2)" "at_sleeps s2 = at_sleeps s1"
    using start_step_succeeds [OF assms(3)] by blast
  with s1 show ?thesis by (simp add: run_loop_append)
qed

text \<open>What handling a message leaves alone.\<close>

lemma handle_message_frame:
  assumes "handle_message msg clock l = Continue l'"
  shows "l_src_addr l' = l_src_addr l"
    and "w_shutdown (l_worker l') = w_shutdown (l_worker l)"
    and "w_master_addr (l_worker l') = w_master_addr (l_worker l)"
    and "map pr_timestamp (w_pings (l_worker l')) = map pr_timestamp (w_pings (l_worker l))"
  using assms by (auto simp: handle_message_def split: udp_message.splits outcome.splits)

lemma handle_message_break:
  "handle_message msg clock l = Break r \<Longrightarrow> r = (Panicked, l)"
  by (auto simp: handle_message_def split: udp_message.splits outcome.splits)

lemma listen_step_shutdown: "w_shutdown (l_worker l) \<Longrightarrow> listen_step bc l ev = Break (Returned, l)"
  by (simp add: listen_step_def)

lemma listen_step_frame:
  assumes "listen_step bc l ev = Continue l'"
  shows "\<not> w_shutdown (l_worker l')"
    and "w_master_addr (l_worker l') = w_master_addr (l_worker l)"
    and "map pr_timestamp (w_pings (l_worker l')) = map pr_timestamp (w_pings (l_worker l))"
    and "l_src_addr l' = l_src_addr l \<or> l_src_addr l = None \<and>
      (\<exists>addr. l_src_addr l' = Some addr \<and> fst addr = w_master_addr (l_worker l))"
  using assms
  by (auto simp: listen_step_def handle_message_frame split: if_splits packet.splits sum.splits
      option.splits source.splits dest: handle_message_frame)

lemma listen_step_break:
  assumes "listen_step bc l ev = Break (e, l')"
  shows "e = Returned \<Longrightarrow> w_shutdown (l_worker l')"
    and "map pr_timestamp (w_pings (l_worker l')) = map pr_timestamp (w_pings (l_worker l))"
    and "w_master_addr (l_worker l') = w_master_addr (l_worker l)"
    and "l_src_addr l' = l_src_addr l \<or> l_src_addr l = None \<and>
      (\<exists>addr. l_src_addr l' = Some addr \<and> fst addr = w_master_addr (l_worker l))"
  using assms
  by (auto simp: listen_step_def split: if_splits packet.splits sum.splits
      option.splits source.splits dest: handle_message_break)

lemma length_stamps: "map pr_timestamp ps = map pr_timestamp qs \<Longrightarrow> length ps = length qs"
  by (metis length_map)

text \<open>The listener interprets the contract of an event loop: the log stays within its bound,
  and a listener that returns has the shutdown flag set.\<close>

interpretation listener_thread: event_loop "listen_step bc" "\<lambda>_. True"
  "\<lambda>l. length (w_pings (l_worker l)) \<le> MAX_PING_LOGS"
  "\<lambda>(e, l). (e = Returned \<longrightarrow> w_shutdown (l_worker l)) \<and> length (w_pings (l_worker l)) \<le> MAX_PING_LOGS"
  for bc
proof (unfold_locales, goal_cases)
  case (1 s e s')
  then show ?case using length_stamps [OF listen_step_frame(3) [OF 1(3)]] by simp
next
  case (2 s e r)
  obtain x l where r: "r = (x, l)" by fastforce
  show ?case
    using 2 listen_step_break(1,2) [of bc s e x l]
      length_stamps [of "w_pings (l_worker l)" "w_pings (l_worker s)"] by (simp add: r)
qed


section \<open>Concrete inputs\<close>

definition example_worker :: worker where
  "example_worker = \<lparr>w_master_addr = Ipv4 127 0 0 1, w_master_tcp_port = 8090, w_worker_udp_port = 8091,
     w_shutdown = False, w_pings = []\<rparr>"

lemma reference_pings: "\<forall>t. \<exists>bs. serialize_udp reference_bincode (Ping t) = Inr bs"
  by (simp add: reference_bincode_def)

section \<open>Properties\<close>

text \<open>
  The log of pings holds exactly the last ten pings that were sent: whatever mix
  of successful and failed sends, the pinging thread goes on, sends one ping per successful
  iteration to the server's address, and logs their timestamps in order, forgetting all but
  the ten newest.
\<close>

lemma ping_log_recent:
  assumes "\<not> w_shutdown w" "\<forall>(clock, err) \<in> set events. 0 \<le> clock"
    and "\<forall>t. \<exists>bs. serialize_udp bc (Ping t) = Inr bs" "length (w_pings w) \<le> MAX_PING_LOGS"
    and "stamps = concat (map (\<lambda>(clock, err).
      if err = None then [word_of_int (clock div 1000000)] else []) events)"
  shows "\<exists>w' sent. start_pinging bc addr w events = Continue (w', sent)
    \<and> map (\<lambda>(a, bytes). (a, Inr bytes)) sent = map (\<lambda>t. (addr, udp_to_bytes bc (Ping t))) stamps
    \<and> map pr_timestamp (w_pings w') =
        last_n MAX_PING_LOGS (map pr_timestamp (w_pings w) @ stamps)"
proof -
  have stamps: "stamps = ping_stamps events" by (simp add: assms(5) ping_stamps_def)
  have "map (\<lambda>(a, bytes). (a, Inr bytes)) (concat (map (\<lambda>t. case udp_to_bytes bc (Ping t) of
      Inr bs \<Rightarrow> [(addr, bs)] | Inl _ \<Rightarrow> []) ts)) = map (\<lambda>t. (addr, udp_to_bytes bc (Ping t))) ts" for ts
  proof (induction ts)
    case (Cons t ts)
    obtain bs where "serialize_udp bc (Ping t) = Inr bs" using assms(3) by blast
    with Cons show ?case by (simp add: udp_to_bytes_def)
  qed simp
  then show ?thesis
    using ping_run [OF assms(1-3), of addr "[]"] ping_log.push_all [OF _, of "w_pings w"] assms(4)
    by (simp add: start_pinging_def stamps ping_log_frame)
qed

text \<open>
  A pong is matched with the first logged ping of its timestamp and with no
  other: that record, and only that one, gets the round trip \<open>now - timestamp\<close>, which is 0
  rather than a wrapped value when the clock went back; a pong with an unknown timestamp
  changes nothing. No pong makes an answered ping unanswered.
\<close>

lemma pong_matches_first:
  assumes "pings = pre @ p # post" "pr_timestamp p = timestamp" "timestamp \<notin> set (map pr_timestamp pre)"
  shows "(\<exists>rtt. match_pong now_ms timestamp pings = pre @ p\<lparr>pr_rtt_ms := Some rtt\<rparr> # post
      \<and> unat rtt = unat now_ms - unat timestamp)
    \<and> unanswered (match_pong now_ms timestamp pings) \<le> unanswered pings
    \<and> (\<forall>other. other \<notin> set (map pr_timestamp pings) \<longrightarrow> match_pong now_ms other pings = pings)"
  using match_pong_first [OF assms(3,2), of now_ms post] match_pong_absent [of _ pings now_ms]
    unanswered_match_pong [of now_ms timestamp pings]
  by (auto simp: assms(1) simp del: match_pong.simps
      intro!: exI [of _ "saturating_sub now_ms timestamp"] unat_saturating_sub)

lemma send_command_unlimited:
  "room out = None \<Longrightarrow> send_command w out tickers =
     (Inr (), out\<lparr>written := written out @ frame (tcp_to_string (subscribe_message w tickers))\<rparr>)"
  by (simp add: send_command_def frame_def Let_def)

text \<open>
  Claim C34. \<open>start\<close> returns exactly when the server acknowledges: it tries again after
  every attempt that could not connect, could not write the command, or read anything but
  \<open>ACK\<close> (an error reply, another message, a failed or panicked read), pausing 5 s after a
  refused connection and 3 s after every other failure, however many there are; the first
  acknowledgement ends it without a pause.
\<close>

theorem start_outcome:
  assumes "\<forall>e. CloneErr e \<notin> set events"
  shows "case dropWhile (\<lambda>ev. \<not> attempt_succeeds w tickers ev) events of
      [] \<Rightarrow> \<exists>s. start w tickers events = Continue s \<and> at_sleeps s = map attempt_pause events
    | _ # _ \<Rightarrow> \<exists>s. start w tickers events = Break (Value s) \<and> at_sleeps s =
        map attempt_pause (takeWhile (\<lambda>ev. \<not> attempt_succeeds w tickers ev) events)"
proof (cases "dropWhile (\<lambda>ev. \<not> attempt_succeeds w tickers ev) events")
  case Nil
  then have "\<forall>ev \<in> set events. \<not> attempt_succeeds w tickers ev" by (simp add: dropWhile_eq_Nil_conv)
  from start_run_fails [OF assms this, of "\<lparr>at_sleeps = [], at_sent = []\<rparr>"] show ?thesis
    by (simp add: start_def Nil)
next
  case (Cons ev after)
  let ?before = "takeWhile (\<lambda>ev. \<not> attempt_succeeds w tickers ev) events"
  have "\<forall>e. CloneErr e \<notin> set ?before" "\<forall>e \<in> set ?before. \<not> attempt_succeeds w tickers e"
    using assms by (auto dest: set_takeWhileD)
  moreover have "attempt_succeeds w tickers ev" using Cons by (auto simp: dropWhile_eq_Cons_conv)
  moreover have "events = ?before @ ev # after"
    using takeWhile_dropWhile_id [of "\<lambda>ev. \<not> attempt_succeeds w tickers ev" events] Cons by simp
  ultimately show ?thesis
    using start_run_succeeds [of ?before w tickers ev "\<lparr>at_sleeps = [], at_sent = []\<rparr>" after]
    by (simp add: start_def Cons)
qed

definition quiet_peer :: "in_stream" where
  "quiet_peer = \<lparr>avail = frame ''ACK'', in_end = IoError UnexpectedEof None ''''\<rparr>"

definition open_stream :: "out_stream" where
  "open_stream = \<lparr>written = [], room = None, out_end = IoError OtherKind None ''''\<rparr>"

lemma quiet_peer_acks: "fst (read_tcp_message quiet_peer) = Inr Ack"
proof -
  have "avail quiet_peer = frame (tcp_to_string Ack) @ []" by (simp add: quiet_peer_def)
  from read_sent [OF _ _ _ this] show ?thesis by (simp add: max_message_def)
qed

theorem start_outcome_witness:
  "\<exists>s. start example_worker [''XYZ''] [ConnectErr (IoError OtherKind None ''''),
      Connected open_stream None, Connected open_stream (Some quiet_peer)] = Break (Value s)
    \<and> at_sleeps s = [5, 3]"
proof -
  have "\<forall>e. CloneErr e \<notin> set [ConnectErr (IoError OtherKind None ''''),
      Connected open_stream None, Connected open_stream (Some quiet_peer)]" by simp
  from start_outcome [OF this, of example_worker "[''XYZ'']"] show ?thesis
    by (simp add: attempt_succeeds_def attempt_pause_def quiet_peer_acks
        send_command_unlimited open_stream_def)
qed

text \<open>
  Claim C36. The sender of a packet is checked once only. Before any packet of the server, a
  datagram from any other address is ignored, whatever it holds; after the first one, the
  source of a datagram makes no difference: anyone's messages are handled as the server's.
\<close>

theorem only_first_source_checked:
  assumes "\<not> w_shutdown (l_worker l)"
  shows "(l_src_addr l = None \<longrightarrow> (\<forall>bytes src clone clock.
        (\<forall>addr. src = FromV4 addr \<longrightarrow> fst addr \<noteq> w_master_addr (l_worker l)) \<longrightarrow>
        listen_step bc l (Packet bytes src clone clock) = Continue l))
    \<and> (l_src_addr l \<noteq> None \<longrightarrow> (\<forall>bytes src src' clone clone' clock.
        listen_step bc l (Packet bytes src clone clock) = listen_step bc l (Packet bytes src' clone' clock)))"
  using assms by (auto simp: listen_step_def split: sum.splits source.splits)

theorem only_first_source_checked_witness:
  "listen_step reference_bincode (new_listener example_worker)
     (Packet (write_udp (Pong 5)) (FromV4 (Ipv4 10 0 0 9, 53)) (Inr ()) 0)
   = Continue (new_listener example_worker)"
proof -
  have "\<not> w_shutdown (l_worker (new_listener example_worker))"
    by (simp add: new_listener_def example_worker_def)
  from only_first_source_checked [OF this, of reference_bincode] show ?thesis
    by (simp add: new_listener_def example_worker_def)
qed

lemma listen_packet_running:
  assumes "\<not> w_shutdown (l_worker l)" "l_src_addr l \<noteq> None" "0 \<le> clock"
  shows "\<exists>l'. listen_step bc l (Packet bytes src clone clock) = Continue l'
    \<and> \<not> w_shutdown (l_worker l') \<and> l_src_addr l' \<noteq> None
    \<and> l_printed l' = l_printed l @ (case udp_from_bytes bc (take MAX_DATAGRAM_SIZE bytes) of
        Inr (Quote q) \<Rightarrow> [q] | _ \<Rightarrow> [])"
  using assms
  by (auto simp: listen_step_def handle_message_def unix_millis_def split: sum.splits udp_message.splits)

text \<open>
  From the first packet of the server on, the listener prints every quote that decodes, in
  the order of arrival and nothing else, and keeps running as long as packets arrive.
\<close>

lemma listen_prints:
  assumes "\<not> w_shutdown (l_worker l)" "l_src_addr l \<noteq> None"
    and "\<forall>(bytes, src, clone, clock) \<in> set packets. 0 \<le> clock"
  shows "\<exists>l'. run_loop (listen_step bc) l
        (map (\<lambda>(bytes, src, clone, clock). Packet bytes src clone clock) packets) = Continue l'
    \<and> l_printed l' = l_printed l @ concat (map (\<lambda>(bytes, _).
        case udp_from_bytes bc (take MAX_DATAGRAM_SIZE bytes) of Inr (Quote q) \<Rightarrow> [q] | _ \<Rightarrow> []) packets)"
  using assms
proof (induction packets arbitrary: l)
  case Nil
  then show ?case by simp
next
  case (Cons packet packets)
  obtain bytes src clone clock where packet: "packet = (bytes, src, clone, clock)" by (cases packet)
  obtain l1 where l1: "listen_step bc l (Packet bytes src clone clock) = Continue l1"
    "\<not> w_shutdown (l_worker l1)" "l_src_addr l1 \<noteq> None"
    "l_printed l1 = l_printed l @ (case udp_from_bytes bc (take MAX_DATAGRAM_SIZE bytes) of
        Inr (Quote q) \<Rightarrow> [q] | _ \<Rightarrow> [])"
    using listen_packet_running [OF Cons.prems(1,2), of clock bc bytes src clone] Cons.prems(3) packet
    by auto
  obtain l2 where "run_loop (listen_step bc) l1
        (map (\<lambda>(bytes, src, clone, clock). Packet bytes src clone clock) packets) = Continue l2"
    "l_printed l2 = l_printed l1 @ concat (map (\<lambda>(bytes, _).
        case udp_from_bytes bc (take MAX_DATAGRAM_SIZE bytes) of Inr (Quote q) \<Rightarrow> [q] | _ \<Rightarrow> []) packets)"
    using Cons.IH [OF l1(2,3)] Cons.prems(3) by auto
  with l1 show ?case by (simp add: packet)
qed

text \<open>
  Claim C35. The listener gives the server up only at a read timeout, and exactly when the
  log is full and none of its ten pings has been answered; then it sets the shutdown flag
  and leaves its loop. One answered ping among the last ten keeps the client alive.
\<close>

theorem listener_verdict:
  assumes "length (w_pings (l_worker l)) \<le> MAX_PING_LOGS" "\<not> w_shutdown (l_worker l)"
  shows "listen_step bc l (PacketErr e) =
    (if is_timeout e \<and> length (w_pings (l_worker l)) = 10
        \<and> (\<forall>p \<in> set (w_pings (l_worker l)). pr_rtt_ms p = None)
     then Break (Returned, l\<lparr>l_worker := (l_worker l)\<lparr>w_shutdown := True\<rparr>\<rparr>)
     else Continue l)"
proof -
  let ?ps = "w_pings (l_worker l)"
  have "MAX_PING_LOGS \<le> unanswered ?ps \<longleftrightarrow> length ?ps = 10 \<and> unanswered ?ps = length ?ps"
    using assms(1) unanswered_le [of ?ps] by (auto simp: MAX_PING_LOGS_def)
  moreover have "unanswered ?ps = length ?ps \<longleftrightarrow> (\<forall>p \<in> set ?ps. pr_rtt_ms p = None)"
    using length_filter_less [of _ ?ps "\<lambda>p. pr_rtt_ms p = None"]
    by (fastforce simp: unanswered_def)
  ultimately show ?thesis using assms(2) by (auto simp: listen_step_def)
qed

theorem listener_verdict_witness:
  "listen_step reference_bincode ((new_listener example_worker)\<lparr>l_worker := example_worker\<lparr>w_pings :=
       replicate 9 \<lparr>pr_timestamp = 1, pr_rtt_ms = None\<rparr>\<rparr>\<rparr>) (PacketErr (IoError TimedOut None ''''))
   = Continue ((new_listener example_worker)\<lparr>l_worker := example_worker\<lparr>w_pings :=
       replicate 9 \<lparr>pr_timestamp = 1, pr_rtt_ms = None\<rparr>\<rparr>\<rparr>)"
proof -
  let ?l = "(new_listener example_worker)\<lparr>l_worker := example_worker\<lparr>w_pings :=
       replicate 9 \<lparr>pr_timestamp = 1, pr_rtt_ms = None\<rparr>\<rparr>\<rparr>"
  have "length (w_pings (l_worker ?l)) \<le> MAX_PING_LOGS" "\<not> w_shutdown (l_worker ?l)"
    by (simp_all add: MAX_PING_LOGS_def example_worker_def)
  from listener_verdict [OF this, of reference_bincode "IoError TimedOut None ''''"] show ?thesis by simp
qed

end
