(* ===== verification/Client.thy ===== *)
theory Client
  imports Worker
begin

text \<open>
  \<open>client/src/main.rs\<close>, and the threads of the running client: the UDP listener and the
  pinging thread of \<open>client/src/worker.rs\<close> and the main thread, which share the shutdown
  flag and the log of pings. Their atomic parts are interleaved by \<open>client_step\<close>.
\<close>

section \<open>Starting\<close>

definition MASTER_TCP_PORT :: u16 where
  "MASTER_TCP_PORT = 8090"

definition WORKER_UDP_PORT :: u16 where
  "WORKER_UDP_PORT = 8091"

text \<open>
  The command line as \<open>clap\<close> parses it: \<open>None\<close> where an option is absent. \<open>with_defaults\<close>
  fills in the defaults that \<open>Args\<close> declares. The tickers file, when one is named, comes
  with what reading its bytes returned.
\<close>

record client_args =
  ca_master_addr :: string
  ca_master_tcp_port :: u16
  ca_worker_udp_port :: u16
  ca_tickers :: "string list"
  ca_tickers_file :: "(io_error + u8 list) option"

definition with_defaults ::
    "string option \<Rightarrow> u16 option \<Rightarrow> u16 option \<Rightarrow> string list \<Rightarrow> (io_error + u8 list) option \<Rightarrow> client_args" where
  "with_defaults addr tcp_port udp_port tickers tickers_file =
     \<lparr>ca_master_addr = case_option ''127.0.0.1'' (\<lambda>a. a) addr,
      ca_master_tcp_port = case_option MASTER_TCP_PORT (\<lambda>p. p) tcp_port,
      ca_worker_udp_port = case_option WORKER_UDP_PORT (\<lambda>p. p) udp_port,
      ca_tickers = tickers, ca_tickers_file = tickers_file\<rparr>"

definition read_to_string :: "io_error + u8 list \<Rightarrow> io_error + string" where
  "read_to_string content =
     and_then content (\<lambda>bytes. map_err (\<lambda>_. invalid_utf8_error) (from_utf8 bytes))"

definition select_tickers :: "client_args \<Rightarrow> string list outcome" where
  "select_tickers args =
     (case ca_tickers_file args of
        Some content \<Rightarrow>
          (case read_to_string content of
             Inl e \<Rightarrow> Panic
           | Inr text \<Rightarrow> Value (filter (\<lambda>l. l \<noteq> []) (map trim (str_lines text))))
      | None \<Rightarrow> if ca_tickers args \<noteq> [] then Value (ca_tickers args) else Panic)"

definition client_setup :: "client_args \<Rightarrow> (worker \<times> string list) outcome" where
  "client_setup args =
     (case select_tickers args of
        Panic \<Rightarrow> Panic
      | Value tickers \<Rightarrow>
          (case new_worker (ca_master_addr args) (ca_master_tcp_port args) (ca_worker_udp_port args) of
             Inl e \<Rightarrow> Panic
           | Inr w \<Rightarrow> Value (w, tickers)))"

section \<open>The running client\<close>

text \<open>
  The listener thread is in its loop, waits for the pinging thread, or has a result; the
  pinging thread exists once the listener knows the server's address. \<open>c_pending\<close> is a ping
  that was sent and not yet logged, \<open>c_ping_end\<close> how the thread ended, \<open>c_pinged\<close> the
  datagrams it sent. \<open>c_running\<close> is the flag that Ctrl+C clears; the main thread waits, then
  joins the listener, then is done.
\<close>

datatype listen_phase = Listening | Joining | Ended "(worker_error + unit) outcome"

datatype main_phase = Waiting | JoiningListener | Done "(worker_error + unit) outcome"

record client =
  c_listener :: listener
  c_phase :: listen_phase
  c_pending :: "u64 option"
  c_ping_end :: "thread_end option"
  c_pinged :: sent_datagrams
  c_running :: bool
  c_main :: main_phase

text \<open>
  The client once \<open>start\<close> has returned: nothing received so far, or the listener thread
  already over because it could not bind or configure its socket.
\<close>

definition new_client :: "io_error + unit \<Rightarrow> worker \<Rightarrow> client" where
  "new_client socket w =
     \<lparr>c_listener = new_listener w,
      c_phase = (case socket of Inr _ \<Rightarrow> Listening | Inl e \<Rightarrow> Ended (Value (Inl (WorkerIo e)))),
      c_pending = None, c_ping_end = None, c_pinged = [], c_running = True, c_main = Waiting\<rparr>"

abbreviation c_worker :: "client \<Rightarrow> worker" where
  "c_worker c \<equiv> l_worker (c_listener c)"

definition set_worker :: "worker \<Rightarrow> client \<Rightarrow> client" where
  "set_worker w c = c\<lparr>c_listener := (c_listener c)\<lparr>l_worker := w\<rparr>\<rparr>"

definition pinging :: "client \<Rightarrow> socket_addr \<Rightarrow> bool" where
  "pinging c addr \<longleftrightarrow> l_src_addr (c_listener c) = Some addr \<and> c_ping_end c = None"

datatype client_event =
    Receive packet
  | SendPing int "io_error option"
  | LogPing
  | JoinPing
  | CtrlC
  | MainPoll
  | MainJoin

inductive client_step :: "'b bincode \<Rightarrow> client \<Rightarrow> client_event \<Rightarrow> client \<Rightarrow> bool" for bc where
  receive: "c_phase c = Listening \<Longrightarrow> listen_step bc (c_listener c) ev = Continue l \<Longrightarrow>
    client_step bc c (Receive ev) (c\<lparr>c_listener := l\<rparr>)"
| receive_end: "c_phase c = Listening \<Longrightarrow> listen_step bc (c_listener c) ev = Break (Returned, l) \<Longrightarrow>
    client_step bc c (Receive ev) (c\<lparr>c_listener := l, c_phase := Joining\<rparr>)"
| receive_panic: "c_phase c = Listening \<Longrightarrow> listen_step bc (c_listener c) ev = Break (Panicked, l) \<Longrightarrow>
    client_step bc c (Receive ev) (c\<lparr>c_listener := l, c_phase := Ended Panic\<rparr>)"
| join_ping: "c_phase c = Joining \<Longrightarrow> l_src_addr (c_listener c) = None \<or> c_ping_end c = Some e \<Longrightarrow>
    client_step bc c JoinPing (c\<lparr>c_phase := Ended (listener_result Returned (c_listener c)
      (if c_ping_end c = Some Returned then Some (Inr ()) else None))\<rparr>)"
| ping_sent: "pinging c addr \<Longrightarrow> c_pending c = None \<Longrightarrow>
    ping_send bc (c_worker c) (clock, err) = PingSent timestamp bytes \<Longrightarrow>
    client_step bc c (SendPing clock err)
      (c\<lparr>c_pending := Some timestamp, c_pinged := c_pinged c @ [(addr, bytes)]\<rparr>)"
| ping_failed: "pinging c addr \<Longrightarrow> c_pending c = None \<Longrightarrow>
    ping_send bc (c_worker c) (clock, err) = PingFailed \<Longrightarrow> client_step bc c (SendPing clock err) c"
| ping_ended: "pinging c addr \<Longrightarrow> c_pending c = None \<Longrightarrow>
    ping_send bc (c_worker c) (clock, err) = PingEnd e \<Longrightarrow>
    client_step bc c (SendPing clock err) (c\<lparr>c_ping_end := Some e\<rparr>)"
| log_ping: "c_pending c = Some timestamp \<Longrightarrow>
    client_step bc c LogPing ((set_worker (ping_log timestamp (c_worker c)) c)\<lparr>c_pending := None\<rparr>)"
| ctrl_c: "client_step bc c CtrlC (c\<lparr>c_running := False\<rparr>)"
| main_wait: "c_main c = Waiting \<Longrightarrow> c_running c \<Longrightarrow> \<not> w_shutdown (c_worker c) \<Longrightarrow>
    client_step bc c MainPoll c"
| main_stop: "c_main c = Waiting \<Longrightarrow> \<not> c_running c \<or> w_shutdown (c_worker c) \<Longrightarrow>
    client_step bc c MainPoll
      ((set_worker ((c_worker c)\<lparr>w_shutdown := True\<rparr>) c)\<lparr>c_main := JoiningListener\<rparr>)"
| main_join: "c_main c = JoiningListener \<Longrightarrow> c_phase c = Ended res \<Longrightarrow>
    client_step bc c MainJoin (c\<lparr>c_main := Done res\<rparr>)"

inductive client_run :: "'b bincode \<Rightarrow> client \<Rightarrow> client_event list \<Rightarrow> client \<Rightarrow> bool" for bc where
  run_nil: "client_run bc c [] c"
| run_step: "client_run bc c es c' \<Longrightarrow> client_step bc c' e c'' \<Longrightarrow> client_run bc c (es @ [e]) c''"

inductive_cases receive_cases: "client_step bc c (Receive ev) c'"
inductive_cases log_cases: "client_step bc c LogPing c'"
inductive_cases send_cases: "client_step bc c (SendPing clock err) c'"
inductive_cases poll_cases: "client_step bc c MainPoll c'"


section \<open>Facts about runs\<close>

text \<open>
  The ping timestamps that the client has sent and logged, or is about to log, and what is
  invariant in every run.
\<close>

definition pending_list :: "client \<Rightarrow> u64 list" where
  "pending_list c = (case c_pending c of None \<Rightarrow> [] | Some t \<Rightarrow> [t])"

definition all_unanswered :: "client \<Rightarrow> bool" where
  "all_unanswered c \<longleftrightarrow> length (w_pings (c_worker c)) = 10
     \<and> (\<forall>p \<in> set (w_pings (c_worker c)). pr_rtt_ms p = None)"

definition log_inv :: "'b bincode \<Rightarrow> client \<Rightarrow> bool" where
  "log_inv bc c \<longleftrightarrow> (\<exists>logged.
     map (\<lambda>(a, bytes). Inr bytes) (c_pinged c) = map (\<lambda>t. udp_to_bytes bc (Ping t)) (logged @ pending_list c)
     \<and> map pr_timestamp (w_pings (c_worker c)) = last_n MAX_PING_LOGS logged)"

lemma log_inv_length:
  assumes "log_inv bc c"
  shows "length (w_pings (c_worker c)) \<le> MAX_PING_LOGS" "length (w_pings (c_worker c)) \<le> length (c_pinged c)"
proof -
  obtain logged where "map (\<lambda>(a, bytes). Inr bytes) (c_pinged c) =
      map (\<lambda>t. udp_to_bytes bc (Ping t)) (logged @ pending_list c)"
    "map pr_timestamp (w_pings (c_worker c)) = last_n MAX_PING_LOGS logged"
    using assms unfolding log_inv_def by blast
  from this [THEN arg_cong, of length] show "length (w_pings (c_worker c)) \<le> MAX_PING_LOGS"
    "length (w_pings (c_worker c)) \<le> length (c_pinged c)" by simp_all
qed

definition addr_inv :: "client \<Rightarrow> bool" where
  "addr_inv c \<longleftrightarrow>
     (\<forall>(a, bytes) \<in> set (c_pinged c). l_src_addr (c_listener c) = Some a)
     \<and> (\<forall>a. l_src_addr (c_listener c) = Some a \<longrightarrow> fst a = w_master_addr (c_worker c))
     \<and> (c_pending c \<noteq> None \<longrightarrow> l_src_addr (c_listener c) \<noteq> None \<and> c_ping_end c = None)"

definition stop_inv :: "client \<Rightarrow> bool" where
  "stop_inv c \<longleftrightarrow>
     (c_phase c = Joining \<longrightarrow> w_shutdown (c_worker c))
     \<and> (c_main c \<noteq> Waiting \<longrightarrow> w_shutdown (c_worker c))
     \<and> (w_shutdown (c_worker c) \<and> c_running c \<longrightarrow> c_phase c \<noteq> Listening \<and> all_unanswered c)"

definition client_inv :: "'b bincode \<Rightarrow> client \<Rightarrow> bool" where
  "client_inv bc c \<longleftrightarrow> log_inv bc c \<and> addr_inv c \<and> stop_inv c"

lemma new_client_inv: "\<not> w_shutdown w \<Longrightarrow> w_pings w = [] \<Longrightarrow> client_inv bc (new_client socket w)"
  by (simp add: client_inv_def log_inv_def addr_inv_def stop_inv_def new_client_def new_listener_def
      pending_list_def last_n_def split: sum.splits)

lemma ping_sent_facts:
  "ping_send bc w (clock, err) = PingSent t bytes \<Longrightarrow> udp_to_bytes bc (Ping t) = Inr bytes \<and> \<not> w_shutdown w"
  by (auto simp: ping_send_def split: if_splits outcome.splits sum.splits option.splits)

lemma log_ping_unanswered:
  assumes "length ps = 10" "\<forall>p \<in> set ps. pr_rtt_ms p = None"
  shows "length (log_ping t ps) = 10 \<and> (\<forall>p \<in> set (log_ping t ps). pr_rtt_ms p = None)"
  using assms by (cases ps) (auto simp: log_ping_def MAX_PING_LOGS_def)

lemma listen_step_verdict:
  assumes "listen_step bc l ev = Break (Returned, l')" "length (w_pings (l_worker l)) \<le> MAX_PING_LOGS"
    and "\<not> w_shutdown (l_worker l)"
  shows "length (w_pings (l_worker l')) = 10 \<and> (\<forall>p \<in> set (w_pings (l_worker l')). pr_rtt_ms p = None)"
proof -
  have "\<exists>e. ev = PacketErr e \<and> is_timeout e \<and> MAX_PING_LOGS \<le> unanswered (w_pings (l_worker l))
      \<and> l' = l\<lparr>l_worker := (l_worker l)\<lparr>w_shutdown := True\<rparr>\<rparr>"
    using assms(1,3) by (auto simp: listen_step_def split: if_splits packet.splits sum.splits
        option.splits source.splits dest: handle_message_break)
  then show ?thesis
    using assms(2) unanswered_le [of "w_pings (l_worker l)"]
      length_filter_less [of _ "w_pings (l_worker l)" "\<lambda>p. pr_rtt_ms p = None"]
    by (fastforce simp: unanswered_def MAX_PING_LOGS_def)
qed

lemma listen_step_panic_shutdown:
  "listen_step bc l ev = Break (Panicked, l') \<Longrightarrow> \<not> w_shutdown (l_worker l')"
  by (auto simp: listen_step_def split: if_splits packet.splits sum.splits
        option.splits source.splits dest: handle_message_break)

text \<open>What one iteration of the listener, however it ends, leaves of the shared state.\<close>

definition listened :: "'b bincode \<Rightarrow> client \<Rightarrow> packet \<Rightarrow> listener \<Rightarrow> bool" where
  "listened bc c ev l \<longleftrightarrow> listen_step bc (c_listener c) ev = Continue l
     \<or> (\<exists>e. listen_step bc (c_listener c) ev = Break (e, l))"

lemma listenedI:
  "listen_step bc (c_listener c) ev = Continue l \<Longrightarrow> listened bc c ev l"
  "listen_step bc (c_listener c) ev = Break (e, l) \<Longrightarrow> listened bc c ev l"
  by (auto simp: listened_def)

lemma listened_frame:
  assumes "listened bc c ev l"
  shows "map pr_timestamp (w_pings (l_worker l)) = map pr_timestamp (w_pings (c_worker c))"
    and "w_master_addr (l_worker l) = w_master_addr (c_worker c)"
    and "l_src_addr l = l_src_addr (c_listener c) \<or> l_src_addr (c_listener c) = None \<and>
      (\<exists>addr. l_src_addr l = Some addr \<and> fst addr = w_master_addr (c_worker c))"
  using assms listen_step_frame(2-4) [of bc "c_listener c" ev l] listen_step_break(2-4) [of bc "c_listener c" ev _ l]
  unfolding listened_def by blast+

lemma listened_log:
  assumes "log_inv bc c" "listened bc c ev l"
  shows "log_inv bc (c\<lparr>c_listener := l\<rparr>)"
  using assms(1) listened_frame(1) [OF assms(2)] by (simp add: log_inv_def pending_list_def)

lemma listened_addr:
  assumes "addr_inv c" "listened bc c ev l"
  shows "addr_inv (c\<lparr>c_listener := l\<rparr>)"
  using assms(1) listened_frame(2,3) [OF assms(2)] unfolding addr_inv_def by fastforce

lemma inv_phase [simp]:
  "log_inv bc (c\<lparr>c_phase := ph\<rparr>) = log_inv bc c" "addr_inv (c\<lparr>c_phase := ph\<rparr>) = addr_inv c"
  "log_inv bc (c\<lparr>c_ping_end := e\<rparr>) = log_inv bc c"
  "log_inv bc (c\<lparr>c_main := m\<rparr>) = log_inv bc c" "addr_inv (c\<lparr>c_main := m\<rparr>) = addr_inv c"
  "log_inv bc (c\<lparr>c_running := b\<rparr>) = log_inv bc c" "addr_inv (c\<lparr>c_running := b\<rparr>) = addr_inv c"
  "log_inv bc (c\<lparr>c_listener := l, c_phase := ph\<rparr>) = log_inv bc (c\<lparr>c_listener := l\<rparr>)"
  "addr_inv (c\<lparr>c_listener := l, c_phase := ph\<rparr>) = addr_inv (c\<lparr>c_listener := l\<rparr>)"
  by (simp_all add: log_inv_def addr_inv_def pending_list_def)

lemma logged_inv:
  assumes "log_inv bc c" "c_pending c = Some t"
  shows "log_inv bc ((set_worker (ping_log t (c_worker c)) c)\<lparr>c_pending := None\<rparr>)"
proof -
  obtain logged where logged: "map (\<lambda>(a, bytes). Inr bytes) (c_pinged c) =
      map (\<lambda>t. udp_to_bytes bc (Ping t)) (logged @ pending_list c)"
    "map pr_timestamp (w_pings (c_worker c)) = last_n MAX_PING_LOGS logged"
    using assms(1) unfolding log_inv_def by blast
  have "map pr_timestamp (log_ping t (w_pings (c_worker c))) = last_n MAX_PING_LOGS (logged @ [t])"
    using log_inv_length(1) [OF assms(1)]
    by (simp add: ping_log.push_entries logged(2) last_n_push)
  with logged(1) assms(2) show ?thesis
    unfolding log_inv_def by (intro exI [of _ "logged @ [t]"]) (simp add: pending_list_def set_worker_def ping_log_def)
qed

lemma step_log_inv: "client_step bc c e c' \<Longrightarrow> log_inv bc c \<Longrightarrow> log_inv bc c'"
proof (induction rule: client_step.induct)
  case (ping_sent c addr clock err t bytes)
  then show ?case
    using ping_sent_facts [OF ping_sent(3)] by (auto simp: log_inv_def pending_list_def)
next
  case (log_ping c t)
  then show ?case by (simp add: logged_inv)
next
  case (main_stop c)
  then show ?case by (simp add: log_inv_def pending_list_def set_worker_def)
qed (simp_all add: listened_log [OF _ listenedI(1)] listened_log [OF _ listenedI(2)])

lemma step_addr_inv: "client_step bc c e c' \<Longrightarrow> addr_inv c \<Longrightarrow> addr_inv c'"
proof (induction rule: client_step.induct)
  case (receive c ev l)
  then show ?case by (simp add: listened_addr [OF _ listenedI(1)])
next
  case (receive_end c ev l)
  then show ?case by (simp add: listened_addr [OF _ listenedI(2)])
next
  case (receive_panic c ev l)
  then show ?case by (simp add: listened_addr [OF _ listenedI(2)])
qed (auto simp: addr_inv_def pinging_def set_worker_def ping_log_def)

lemma step_stop_inv:
  "client_step bc c e c' \<Longrightarrow> log_inv bc c \<Longrightarrow> stop_inv c \<Longrightarrow> stop_inv c'"
proof (induction rule: client_step.induct)
  case (receive c ev l)
  show ?case
  proof (cases "w_shutdown (c_worker c)")
    case True
    with receive listen_step_shutdown [OF True, of bc ev] show ?thesis by simp
  next
    case False
    with receive listen_step_frame(1) [OF receive(2)] show ?thesis by (auto simp: stop_inv_def)
  qed
next
  case (receive_end c ev l)
  show ?case
  proof (cases "w_shutdown (c_worker c)")
    case True
    with receive_end listen_step_shutdown [OF True, of bc ev] show ?thesis by (auto simp: stop_inv_def)
  next
    case False
    with receive_end listen_step_break(1) [OF receive_end(2)] listen_step_verdict [OF receive_end(2)]
    log_inv_length(1) [of bc c]
    show ?thesis by (auto simp: stop_inv_def all_unanswered_def)
  qed
next
  case (receive_panic c ev l)
  then show ?case
    using listen_step_panic_shutdown [OF receive_panic(2)] listen_step_shutdown [of "c_listener c" bc ev]
    by (auto simp: stop_inv_def)
next
  case (log_ping c t)
  then show ?case
    using log_ping_unanswered [of "w_pings (c_worker c)" t]
    by (auto simp: stop_inv_def all_unanswered_def set_worker_def ping_log_def)
qed (auto simp: stop_inv_def all_unanswered_def set_worker_def)

lemma step_inv: "client_step bc c e c' \<Longrightarrow> client_inv bc c \<Longrightarrow> client_inv bc c'"
  by (simp add: client_inv_def step_log_inv step_addr_inv step_stop_inv)

lemma run_inv: "client_run bc c es c' \<Longrightarrow> client_inv bc c \<Longrightarrow> client_inv bc c'"
  by (induction rule: client_run.induct) (simp_all add: step_inv)

lemma run_running: "client_run bc c es c' \<Longrightarrow> CtrlC \<notin> set es \<Longrightarrow> c_running c \<Longrightarrow> c_running c'"
proof (induction rule: client_run.induct)
  case (run_step c es c' e c'')
  from run_step(2) have "e \<noteq> CtrlC \<Longrightarrow> c_running c'' = c_running c'"
    by (cases rule: client_step.cases) (simp_all add: set_worker_def)
  with run_step show ?case by auto
qed simp

lemma run_one: "client_step bc c e c' \<Longrightarrow> client_run bc c [e] c'"
  using client_run.run_step [OF client_run.run_nil, of bc c e c'] by simp

lemma run_append:
  assumes "client_run bc c' fs c''" "client_run bc c es c'"
  shows "client_run bc c (es @ fs) c''"
  using assms
proof (induction rule: client_run.induct)
  case (run_step c1 fs c2 f c3)
  then show ?case using client_run.run_step [of bc c "es @ fs" c2 f c3] by simp
qed simp

text \<open>A set shutdown flag lets every thread finish, whatever the environment does.\<close>

definition can_reach :: "'b bincode \<Rightarrow> client \<Rightarrow> (client \<Rightarrow> bool) \<Rightarrow> bool" where
  "can_reach bc c P \<longleftrightarrow> (\<exists>es c'. client_run bc c es c' \<and> P c')"

lemma can_reach_refl: "P c \<Longrightarrow> can_reach bc c P"
  unfolding can_reach_def using client_run.run_nil by blast

lemma can_reach_step: "client_step bc c e c' \<Longrightarrow> can_reach bc c' P \<Longrightarrow> can_reach bc c P"
  unfolding can_reach_def using run_append [OF _ run_one] by blast

lemma can_reach_into: "client_step bc c e c' \<Longrightarrow> P c' \<Longrightarrow> can_reach bc c P"
  by (blast intro: can_reach_step can_reach_refl)

lemma can_reach_trans:
  assumes "can_reach bc c P" "\<And>c'. P c' \<Longrightarrow> can_reach bc c' Q"
  shows "can_reach bc c Q"
  using assms unfolding can_reach_def by (meson run_append)

definition stopping :: "client \<Rightarrow> bool" where
  "stopping c \<longleftrightarrow> w_shutdown (c_worker c) \<and> c_main c = JoiningListener"

lemma main_reaches_join:
  assumes "\<not> c_running c \<or> w_shutdown (c_worker c)" "c_main c = Waiting"
  shows "can_reach bc c stopping"
  by (rule can_reach_into [OF client_step.main_stop])
     (use assms in \<open>auto simp: stopping_def set_worker_def\<close>)

lemma listener_leaves_loop:
  assumes "stopping c"
  shows "can_reach bc c (\<lambda>c'. stopping c' \<and> c_phase c' \<noteq> Listening)"
proof (cases "c_phase c = Listening")
  case True
  have "listen_step bc (c_listener c) (PacketErr e) = Break (Returned, c_listener c)" for e
    using assms by (simp add: listen_step_shutdown stopping_def)
  then show ?thesis
    by (rule can_reach_into [OF client_step.receive_end [OF True]])
       (use assms in \<open>simp add: stopping_def\<close>)
qed (use assms in \<open>simp add: can_reach_refl\<close>)

lemma pending_logged:
  assumes "stopping c" "c_phase c \<noteq> Listening"
  shows "can_reach bc c (\<lambda>c'. stopping c' \<and> c_phase c' \<noteq> Listening \<and> c_pending c' = None)"
proof (cases "c_pending c")
  case (Some t)
  show ?thesis
    by (rule can_reach_into [OF client_step.log_ping [OF Some]])
       (use assms in \<open>simp add: stopping_def set_worker_def ping_log_def\<close>)
qed (use assms in \<open>simp add: can_reach_refl\<close>)

lemma pinger_ends:
  assumes "stopping c" "c_phase c \<noteq> Listening" "c_pending c = None"
  shows "can_reach bc c (\<lambda>c'. stopping c' \<and> c_phase c' \<noteq> Listening
    \<and> (l_src_addr (c_listener c') = None \<or> c_ping_end c' \<noteq> None))"
proof (cases "l_src_addr (c_listener c) = None \<or> c_ping_end c \<noteq> None")
  case False
  then obtain addr where "pinging c addr" by (auto simp: pinging_def)
  moreover have "ping_send bc (c_worker c) (0, None) = PingEnd Returned"
    using assms(1) by (simp add: ping_send_def stopping_def)
  ultimately show ?thesis
    by (rule can_reach_into [OF client_step.ping_ended [OF _ assms(3)]])
       (use assms in \<open>simp add: stopping_def\<close>)
qed (use assms in \<open>simp add: can_reach_refl\<close>)

lemma listener_ends:
  assumes "stopping c" "c_phase c \<noteq> Listening"
    and "l_src_addr (c_listener c) = None \<or> c_ping_end c \<noteq> None"
  shows "can_reach bc c (\<lambda>c'. stopping c' \<and> (\<exists>res. c_phase c' = Ended res))"
proof (cases "c_phase c")
  case Joining
  obtain e where "l_src_addr (c_listener c) = None \<or> c_ping_end c = Some e" using assms(3) by blast
  then show ?thesis
    by (rule can_reach_into [OF client_step.join_ping [OF Joining]])
       (use assms in \<open>simp add: stopping_def\<close>)
qed (use assms in \<open>simp_all add: can_reach_refl\<close>)

lemma joined:
  assumes "stopping c" "c_phase c = Ended res"
  shows "can_reach bc c (\<lambda>c'. \<exists>res. c_main c' = Done res)"
proof -
  have "c_main c = JoiningListener" using assms(1) by (simp add: stopping_def)
  from client_step.main_join [OF this assms(2)] show ?thesis
    by (rule can_reach_into) simp
qed

lemma stopping_reaches_done:
  assumes "stopping c"
  shows "can_reach bc c (\<lambda>c'. \<exists>res. c_main c' = Done res)"
proof -
  note listener_leaves_loop [OF assms]
  moreover have "can_reach bc c (\<lambda>c'. \<exists>res. c_main c' = Done res)"
    if "stopping c \<and> c_phase c \<noteq> Listening" for c
  proof -
    have "can_reach bc c (\<lambda>c'. stopping c' \<and> c_phase c' \<noteq> Listening \<and> c_pending c' = None)"
      using that pending_logged by blast
    then have "can_reach bc c (\<lambda>c'. stopping c' \<and> c_phase c' \<noteq> Listening
        \<and> (l_src_addr (c_listener c') = None \<or> c_ping_end c' \<noteq> None))"
      by (rule can_reach_trans) (blast intro: pinger_ends)
    then have "can_reach bc c (\<lambda>c'. stopping c' \<and> (\<exists>res. c_phase c' = Ended res))"
      by (rule can_reach_trans) (blast intro: listener_ends)
    then show ?thesis
      by (rule can_reach_trans) (blast intro: joined)
  qed
  ultimately show ?thesis by (rule can_reach_trans)
qed


lemma bind_failed_run:
  assumes "client_run bc c es c'" "CtrlC \<notin> set es"
    and "c_phase c = Ended res" "c_main c = Waiting" "c_running c" "\<not> w_shutdown (c_worker c)"
    and "l_src_addr (c_listener c) = None" "c_pending c = None"
  shows "c' = c"
  using assms
proof (induction rule: client_run.induct)
  case (run_step c es c' e c'')
  then have "c' = c" "e \<noteq> CtrlC" by auto
  with run_step(2,5-) show ?case by (cases rule: client_step.cases) (auto simp: pinging_def)
qed simp

lemma reach_by_run:
  "client_run bc c [e] c' \<Longrightarrow> client_step bc c e c'"
  by (cases rule: client_run.cases, assumption) (auto elim: client_run.cases)

section \<open>Properties\<close>

text \<open>
  Claim C29. In every interleaving of the client's threads the log of pings is what it is
  meant to be: the pings sent are those logged so far, followed by the one that is not
  logged yet, if there is one, and the log holds exactly the last ten of those logged, all
  of them while they are fewer, in order. All pings go to one address, the source of the
  server's first packet, whose IP is the server's.
\<close>

theorem pings_logged_faithfully:
  assumes "client_run bc (new_client socket w) es c" "\<not> w_shutdown w" "w_pings w = []"
  shows "(\<exists>logged. map (\<lambda>(a, bytes). Inr bytes) (c_pinged c) =
        map (\<lambda>t. udp_to_bytes bc (Ping t)) (logged @ (case c_pending c of None \<Rightarrow> [] | Some t \<Rightarrow> [t]))
      \<and> map pr_timestamp (w_pings (c_worker c)) = drop (length logged - 10) logged
      \<and> length (w_pings (c_worker c)) = min 10 (length logged))
    \<and> (\<forall>(a, bytes) \<in> set (c_pinged c). l_src_addr (c_listener c) = Some a
        \<and> fst a = w_master_addr (c_worker c))"
proof
  have inv: "client_inv bc c" using run_inv [OF assms(1) new_client_inv [OF assms(2,3)]] .
  then show "\<forall>(a, bytes) \<in> set (c_pinged c). l_src_addr (c_listener c) = Some a
        \<and> fst a = w_master_addr (c_worker c)"
    by (fastforce simp: client_inv_def addr_inv_def)
  obtain logged where logged: "map (\<lambda>(a, bytes). Inr bytes) (c_pinged c) =
      map (\<lambda>t. udp_to_bytes bc (Ping t)) (logged @ pending_list c)"
    "map pr_timestamp (w_pings (c_worker c)) = last_n MAX_PING_LOGS logged"
    using inv unfolding client_inv_def log_inv_def by blast
  from arg_cong [OF logged(2), of length] have "length (w_pings (c_worker c)) = min 10 (length logged)"
    by (simp add: MAX_PING_LOGS_def)
  with logged show "\<exists>logged. map (\<lambda>(a, bytes). Inr bytes) (c_pinged c) =
        map (\<lambda>t. udp_to_bytes bc (Ping t)) (logged @ (case c_pending c of None \<Rightarrow> [] | Some t \<Rightarrow> [t]))
      \<and> map pr_timestamp (w_pings (c_worker c)) = drop (length logged - 10) logged
      \<and> length (w_pings (c_worker c)) = min 10 (length logged)"
    unfolding pending_list_def last_n_def MAX_PING_LOGS_def by blast
qed

text \<open>A server's first packet, a ping in answer to it, and a pong.\<close>

definition first_packet :: packet where
  "first_packet = Packet (write_udp (Ping 0)) (FromV4 (Ipv4 127 0 0 1, 5000)) (Inr ()) 0"

definition pong_packet :: "u64 \<Rightarrow> packet" where
  "pong_packet t = Packet (write_udp (Pong t)) (FromV4 (Ipv4 127 0 0 1, 5000)) (Inr ()) 2000000"

definition served_client :: client where
  "served_client = (new_client (Inr ()) example_worker)\<lparr>c_listener :=
     (new_listener example_worker)\<lparr>l_src_addr := Some (Ipv4 127 0 0 1, 5000)\<rparr>\<rparr>"

definition pinged_client :: client where
  "pinged_client = served_client\<lparr>c_pending := Some 1,
     c_pinged := [((Ipv4 127 0 0 1, 5000), write_udp (Ping 1))]\<rparr>"

lemma short_datagram: "take MAX_DATAGRAM_SIZE (write_udp (Ping t)) = write_udp (Ping t)"
  "take MAX_DATAGRAM_SIZE (write_udp (Pong t)) = write_udp (Pong t)"
  by (simp_all add: MAX_DATAGRAM_SIZE_def)

lemma example_worker_facts: "\<not> w_shutdown example_worker" "w_pings example_worker = []"
  "w_master_addr example_worker = Ipv4 127 0 0 1"
  by (simp_all add: example_worker_def)

lemma served_run:
  "client_run reference_bincode (new_client (Inr ()) example_worker) [Receive first_packet] served_client"
proof -
  have first: "listen_step reference_bincode (new_listener example_worker) first_packet =
      Continue ((new_listener example_worker)\<lparr>l_src_addr := Some (Ipv4 127 0 0 1, 5000)\<rparr>)"
    by (simp add: listen_step_def first_packet_def short_datagram reference_decodes handle_message_def
        new_listener_def example_worker_facts del: write_udp.simps)
  have received: "client_step reference_bincode (new_client (Inr ()) example_worker) (Receive first_packet) served_client"
    unfolding served_client_def
    by (rule client_step.receive) (simp_all add: new_client_def first)
  then show ?thesis by (rule run_one)
qed

lemma example_run:
  "client_run reference_bincode (new_client (Inr ()) example_worker)
     [Receive first_packet, SendPing 1000000 None] pinged_client"
proof -
  have "pinging served_client (Ipv4 127 0 0 1, 5000)" "c_pending served_client = None"
    "ping_send reference_bincode (c_worker served_client) (1000000, None) = PingSent 1 (write_udp (Ping 1))"
    by (simp_all add: pinging_def served_client_def new_client_def new_listener_def ping_send_def
        unix_millis_def example_worker_facts del: write_udp.simps)
  from client_step.ping_sent [OF this]
  have sent: "client_step reference_bincode served_client (SendPing 1000000 None) pinged_client"
    by (simp add: pinged_client_def served_client_def new_client_def)
  show ?thesis using run_append [OF run_one [OF sent] served_run] by simp
qed

text \<open>
  Claim C23. Without Ctrl+C the client shuts down for one reason only: whenever its
  shutdown flag is set, the log holds ten pings and none of them has been answered, and
  this stays so until the client is gone.
\<close>

theorem shutdown_only_when_unanswered:
  assumes "client_run bc (new_client socket w) es c" "\<not> w_shutdown w" "w_pings w = []"
    and "CtrlC \<notin> set es" "w_shutdown (c_worker c)"
  shows "length (w_pings (c_worker c)) = 10 \<and> (\<forall>p \<in> set (w_pings (c_worker c)). pr_rtt_ms p = None)
    \<and> 10 \<le> length (c_pinged c) \<and> c_phase c \<noteq> Listening"
proof -
  have inv: "client_inv bc c" using run_inv [OF assms(1) new_client_inv [OF assms(2,3)]] .
  have "c_running (new_client socket w)" by (simp add: new_client_def)
  from run_running [OF assms(1,4) this] have "all_unanswered c \<and> c_phase c \<noteq> Listening"
    using inv assms(5) by (simp add: client_inv_def stop_inv_def)
  moreover have "length (w_pings (c_worker c)) \<le> length (c_pinged c)"
    using inv log_inv_length(2) [of bc c] by (simp add: client_inv_def)
  ultimately show ?thesis by (simp add: all_unanswered_def)
qed

text \<open>A client whose pings are never answered: ten rounds of the pinging thread.\<close>

lemma ping_round:
  assumes "pinging c addr" "c_pending c = None" "\<not> w_shutdown (c_worker c)" "0 \<le> clock"
  shows "\<exists>c'. client_run reference_bincode c [SendPing clock None, LogPing] c'
    \<and> pinging c' addr \<and> c_pending c' = None \<and> \<not> w_shutdown (c_worker c') \<and> c_phase c' = c_phase c
    \<and> w_pings (c_worker c') = log_ping (word_of_int (clock div 1000000)) (w_pings (c_worker c))"
proof -
  let ?t = "word_of_int (clock div 1000000) :: u64"
  have "ping_send reference_bincode (c_worker c) (clock, None) = PingSent ?t (write_udp (Ping ?t))"
    using assms(3,4) by (simp add: ping_send_def unix_millis_def del: write_udp.simps)
  note sent = client_step.ping_sent [OF assms(1,2) this]
  let ?c = "c\<lparr>c_pending := Some ?t, c_pinged := c_pinged c @ [(addr, write_udp (Ping ?t))]\<rparr>"
  have logged: "client_step reference_bincode ?c LogPing
      ((set_worker (ping_log ?t (c_worker ?c)) ?c)\<lparr>c_pending := None\<rparr>)"
    by (rule client_step.log_ping) simp
  have run: "client_run reference_bincode c [SendPing clock None, LogPing]
      ((set_worker (ping_log ?t (c_worker ?c)) ?c)\<lparr>c_pending := None\<rparr>)"
    using run_append [OF run_one [OF logged] run_one [OF sent]] by (simp del: write_udp.simps)
  show ?thesis
    by (intro exI conjI, rule run)
       (use assms in \<open>simp_all add: pinging_def set_worker_def ping_log_def\<close>)
qed

lemma ping_rounds:
  assumes "pinging c addr" "c_pending c = None" "\<not> w_shutdown (c_worker c)" "\<forall>clock \<in> set clocks. 0 \<le> clock"
  shows "\<exists>c'. client_run reference_bincode c (concat (map (\<lambda>clock. [SendPing clock None, LogPing]) clocks)) c'
    \<and> \<not> w_shutdown (c_worker c') \<and> c_phase c' = c_phase c
    \<and> w_pings (c_worker c') = fold log_ping (map (\<lambda>clock. word_of_int (clock div 1000000)) clocks)
        (w_pings (c_worker c))"
  using assms
proof (induction clocks arbitrary: c)
  case Nil
  then show ?case by (auto intro: client_run.run_nil)
next
  case (Cons clock clocks)
  obtain c1 where c1: "client_run reference_bincode c [SendPing clock None, LogPing] c1"
    "pinging c1 addr" "c_pending c1 = None" "\<not> w_shutdown (c_worker c1)" "c_phase c1 = c_phase c"
    "w_pings (c_worker c1) = log_ping (word_of_int (clock div 1000000)) (w_pings (c_worker c))"
    using ping_round [OF Cons.prems(1-3), of clock] Cons.prems(4) by auto
  obtain c2 where c2: "client_run reference_bincode c1
      (concat (map (\<lambda>clock. [SendPing clock None, LogPing]) clocks)) c2"
    "\<not> w_shutdown (c_worker c2)" "c_phase c2 = c_phase c1"
    "w_pings (c_worker c2) = fold log_ping (map (\<lambda>clock. word_of_int (clock div 1000000)) clocks)
        (w_pings (c_worker c1))"
    using Cons.IH [OF c1(2-4)] Cons.prems(4) by auto
  show ?case
    by (intro exI conjI) (use run_append [OF c2(1) c1(1)] c1 c2 in auto)
qed

theorem pings_logged_faithfully_witness:
  "\<exists>es c logged. client_run reference_bincode (new_client (Inr ()) example_worker) es c
    \<and> map pr_timestamp (w_pings (c_worker c)) = [1, 2, 3, 4, 5, 6, 7, 8, 9, 10]
    \<and> map pr_timestamp (w_pings (c_worker c)) = drop (length logged - 10) logged
    \<and> length (c_pinged c) = length logged + (if c_pending c = None then 0 else 1)"
proof -
  let ?clocks = "map (\<lambda>i. int i * 1000000) [0..<11]"
  have start: "pinging served_client (Ipv4 127 0 0 1, 5000)" "c_pending served_client = None"
    "\<not> w_shutdown (c_worker served_client)" "w_pings (c_worker served_client) = []"
    by (simp_all add: pinging_def served_client_def new_client_def new_listener_def example_worker_facts)
  obtain c where c: "client_run reference_bincode served_client
      (concat (map (\<lambda>clock. [SendPing clock None, LogPing]) ?clocks)) c"
    "w_pings (c_worker c) = fold log_ping (map (\<lambda>clock. word_of_int (clock div 1000000)) ?clocks) []"
    using ping_rounds [OF start(1-3), of ?clocks] start(4) by auto
  note run = run_append [OF c(1) served_run]
  have "map pr_timestamp (w_pings (c_worker c)) = [1, 2, 3, 4, 5, 6, 7, 8, 9, 10]"
    unfolding c(2) by (simp add: upt_rec MAX_PING_LOGS_def log_ping_def)
  moreover obtain logged where logged: "map (\<lambda>(a, bytes). Inr bytes) (c_pinged c) =
        map (\<lambda>t. udp_to_bytes reference_bincode (Ping t)) (logged @ (case c_pending c of None \<Rightarrow> [] | Some t \<Rightarrow> [t]))"
      "map pr_timestamp (w_pings (c_worker c)) = drop (length logged - 10) logged"
    using pings_logged_faithfully [OF run example_worker_facts(1,2)] by blast
  moreover have "length (c_pinged c) = length logged + (if c_pending c = None then 0 else 1)"
    using arg_cong [OF logged(1), of length] by (auto split: option.splits)
  ultimately show ?thesis using run by (intro exI conjI)
qed

lemma unanswered_client:
  "\<exists>es c. client_run reference_bincode (new_client (Inr ()) example_worker) es c
    \<and> CtrlC \<notin> set es \<and> w_shutdown (c_worker c)"
proof -
  have start: "pinging served_client (Ipv4 127 0 0 1, 5000)" "c_pending served_client = None"
    "\<not> w_shutdown (c_worker served_client)" "c_phase served_client = Listening"
    "w_pings (c_worker served_client) = []"
    by (simp_all add: pinging_def served_client_def new_client_def new_listener_def example_worker_facts)
  obtain c1 where c1: "client_run reference_bincode served_client
      (concat (map (\<lambda>clock. [SendPing clock None, LogPing]) (replicate 10 0))) c1"
    "\<not> w_shutdown (c_worker c1)" "c_phase c1 = Listening"
    "w_pings (c_worker c1) = fold log_ping (map (\<lambda>clock. word_of_int (clock div 1000000)) (replicate 10 0)) []"
    using ping_rounds [OF start(1-3), of "replicate 10 0"] start(4,5) by auto
  have "MAX_PING_LOGS \<le> unanswered (w_pings (c_worker c1))"
    by (simp add: c1(4) MAX_PING_LOGS_def numeral_eq_Suc log_ping_def unanswered_def)
  then have "listen_step reference_bincode (c_listener c1) (PacketErr (IoError TimedOut None ''''))
      = Break (Returned, (c_listener c1)\<lparr>l_worker := (c_worker c1)\<lparr>w_shutdown := True\<rparr>\<rparr>)"
    using c1(2) by (simp add: listen_step_def is_timeout_def)
  from run_one [OF client_step.receive_end [OF c1(3) this]]
  have last: "client_run reference_bincode c1 [Receive (PacketErr (IoError TimedOut None ''''))]
    (c1\<lparr>c_listener := (c_listener c1)\<lparr>l_worker := (c_worker c1)\<lparr>w_shutdown := True\<rparr>\<rparr>, c_phase := Joining\<rparr>)" .
  show ?thesis
    by (intro exI conjI, rule run_append [OF run_append [OF last c1(1)] served_run]) auto
qed

theorem shutdown_only_when_unanswered_witness:
  "\<exists>c. w_shutdown (c_worker c) \<and> length (w_pings (c_worker c)) = 10
    \<and> (\<forall>p \<in> set (w_pings (c_worker c)). pr_rtt_ms p = None)"
proof -
  obtain es c where "client_run reference_bincode (new_client (Inr ()) example_worker) es c"
    "CtrlC \<notin> set es" "w_shutdown (c_worker c)"
    using unanswered_client by blast
  with shutdown_only_when_unanswered [OF this(1) example_worker_facts(1,2) this(2,3)] show ?thesis by blast
qed

text \<open>
  Claim C28. Once shutdown is requested (by Ctrl+C or by the listener) the client can
  always finish: from every reachable state every thread that still runs can take its steps,
  whatever the network does, until the main thread has joined the listener and is done. No
  interleaving of the threads leads to a deadlock.
\<close>

theorem shutdown_completes:
  assumes "client_run bc (new_client socket w) es c" "\<not> w_shutdown w" "w_pings w = []"
    and "\<not> c_running c \<or> w_shutdown (c_worker c)"
  shows "\<exists>es' c' res. client_run bc c es' c' \<and> c_main c' = Done res"
proof -
  have inv: "client_inv bc c" using run_inv [OF assms(1) new_client_inv [OF assms(2,3)]] .
  have "can_reach bc c (\<lambda>c'. \<exists>res. c_main c' = Done res)"
  proof (cases "c_main c")
    case Waiting
    from main_reaches_join [OF assms(4) this] show ?thesis
      by (rule can_reach_trans) (rule stopping_reaches_done)
  next
    case JoiningListener
    with inv have "stopping c" by (simp add: stopping_def client_inv_def stop_inv_def)
    then show ?thesis by (rule stopping_reaches_done)
  next
    case (Done res)
    then show ?thesis by (simp add: can_reach_refl)
  qed
  then show ?thesis by (auto simp: can_reach_def)
qed

theorem shutdown_completes_witness:
  "\<exists>es c' res. client_run reference_bincode (pinged_client\<lparr>c_running := False\<rparr>) es c' \<and> c_main c' = Done res"
proof -
  have stopped: "client_run reference_bincode (new_client (Inr ()) example_worker)
      ([Receive first_packet, SendPing 1000000 None] @ [CtrlC]) (pinged_client\<lparr>c_running := False\<rparr>)"
    by (rule client_run.run_step [OF example_run client_step.ctrl_c])
  show ?thesis
    by (rule shutdown_completes [OF stopped example_worker_facts(1,2)]) simp
qed

text \<open>
  Claim C37. If the UDP socket of the client cannot be bound or configured, the listener
  thread ends with the error but nothing else happens: the shutdown flag stays clear and
  the main thread waits on until Ctrl+C, although nothing can be received any more.
\<close>

theorem bind_failure_goes_unnoticed:
  assumes "client_run bc (new_client (Inl err) w) es c" "CtrlC \<notin> set es" "\<not> w_shutdown w"
  shows "c_phase c = Ended (Value (Inl (WorkerIo err))) \<and> c_main c = Waiting
    \<and> \<not> w_shutdown (c_worker c) \<and> c_pinged c = []"
proof -
  have "c = new_client (Inl err) w"
    by (rule bind_failed_run [OF assms(1,2)]) (use assms(3) in \<open>simp_all add: new_client_def new_listener_def\<close>)
  with assms(3) show ?thesis by (simp add: new_client_def new_listener_def)
qed

theorem bind_failure_goes_unnoticed_witness:
  "\<exists>c. client_run reference_bincode (new_client (Inl (IoError OtherKind None '''')) example_worker) [MainPoll] c
    \<and> c_main c = Waiting"
proof -
  let ?c = "new_client (Inl (IoError OtherKind None '''')) example_worker"
  have "client_step reference_bincode ?c MainPoll ?c"
    by (rule client_step.main_wait) (simp_all add: new_client_def new_listener_def example_worker_facts)
  note run = run_one [OF this]
  have "CtrlC \<notin> set [MainPoll]" by simp
  from bind_failure_goes_unnoticed [OF run this example_worker_facts(1)] run show ?thesis by blast
qed

text \<open>
  A pong can be lost although it arrives: the pinging thread logs a ping only
  after sending it, so a pong that the listener handles in between finds no record, and the
  ping logged afterwards stays unanswered.
\<close>

lemma early_pong_lost:
  assumes "c_phase c = Listening" "\<not> w_shutdown (c_worker c)" "l_src_addr (c_listener c) \<noteq> None"
    and "c_pending c = Some t" "t \<notin> set (map pr_timestamp (w_pings (c_worker c)))" "0 \<le> clock"
    and "udp_from_bytes bc (take MAX_DATAGRAM_SIZE bytes) = Inr (Pong t)"
  shows "\<exists>c'. client_run bc c [Receive (Packet bytes src clone clock), LogPing] c'
    \<and> c_pending c' = None \<and> last (w_pings (c_worker c')) = \<lparr>pr_timestamp = t, pr_rtt_ms = None\<rparr>"
proof -
  have "listen_step bc (c_listener c) (Packet bytes src clone clock) = Continue (c_listener c)"
    using assms(2,3,6) match_pong_absent [OF assms(5)]
    by (auto simp: listen_step_def assms(7) handle_message_def unix_millis_def)
  note received = client_step.receive [OF assms(1) this]
  have "client_step bc c LogPing ((set_worker (ping_log t (c_worker c)) c)\<lparr>c_pending := None\<rparr>)"
    by (rule client_step.log_ping [OF assms(4)])
  moreover have "c\<lparr>c_listener := c_listener c\<rparr> = c" by simp
  ultimately have "client_run bc c ([Receive (Packet bytes src clone clock)] @ [LogPing])
      ((set_worker (ping_log t (c_worker c)) c)\<lparr>c_pending := None\<rparr>)"
    using received by (intro run_append [OF run_one run_one]) simp_all
  then show ?thesis
    by (intro exI conjI, simp) (simp_all add: set_worker_def ping_log_def log_ping_def)
qed

end
