(* ===== verification/Server.thy ===== *)
theory Server
  imports Processor
begin

text \<open>
  The running server: \<open>server/src/main.rs\<close>, and the threads of \<open>processor.rs\<close> and
  \<open>generator.rs\<close> interleaved. The accept loop with its request handlers, one thread per
  ticker, one streaming and one monitoring thread per subscriber share the processor; a
  step of \<open>server_step\<close> is one iteration of one of them.
\<close>

section \<open>The main function\<close>

definition MASTER_TCP_PORT :: u16 where
  "MASTER_TCP_PORT = 8090"

text \<open>
  The command line as \<open>clap\<close> parses it, \<open>None\<close> where an option is absent, and the defaults
  that \<open>Args\<close> declares.
\<close>

record server_args =
  sa_port :: u16
  sa_tickers_file :: string

definition server_defaults :: "u16 option \<Rightarrow> string option \<Rightarrow> server_args" where
  "server_defaults port tickers_file =
     \<lparr>sa_port = case_option MASTER_TCP_PORT (\<lambda>p. p) port,
      sa_tickers_file = case_option ''src/data/tickers.txt'' (\<lambda>f. f) tickers_file\<rparr>"

text \<open>
  \<open>files\<close> is what opening and reading a path returns, \<open>bind\<close> what listening on a port
  returns. The result is the exit code, when the process ends.
\<close>

definition server_main ::
    "(strum_error \<Rightarrow> string) \<Rightarrow> (nat \<Rightarrow> rng) \<Rightarrow> server_args
      \<Rightarrow> (string \<Rightarrow> io_error + (u8 list \<times> io_error option))
      \<Rightarrow> (u16 \<Rightarrow> io_error + unit) \<Rightarrow> io_error + unit \<Rightarrow> accepted list \<Rightarrow> (processor, nat) control" where
  "server_main strum_display rngs args files bind nonblocking events =
     (case new_processor (sa_port args) rngs (files (sa_tickers_file args)) of
        Inl e \<Rightarrow> Break 1
      | Inr p \<Rightarrow>
          (case start_tcp_server strum_display (bind (p_port p)) nonblocking p events of
             Continue p' \<Rightarrow> Continue p'
           | Break (Inl e, p') \<Rightarrow> Break 1
           | Break (Inr _, p') \<Rightarrow> Break 0))"

section \<open>The running server\<close>

text \<open>
  A subscriber's two threads, kept at the address of its channel. \<open>st_tickers\<close> records what
  was asked for; the code keeps it in the generator only. The monitor exists once the
  streaming thread has started it, and \<open>st_monitor_end\<close> is how it ended.
\<close>

datatype stream_phase =
    Spawned
  | Streaming
  | JoiningMonitor
  | Finished "(processor_error + unit) outcome"

record stream_thread =
  st_info :: subscriber_info
  st_tickers :: "string set"
  st_phase :: stream_phase
  st_sent :: sent_datagrams
  st_monitor :: "monitor option"
  st_monitor_end :: "thread_end option"

record server =
  sv_proc :: processor
  sv_threads :: "nat \<rightharpoonup> stream_thread"

definition new_server :: "processor \<Rightarrow> server" where
  "new_server p = \<lparr>sv_proc = p, sv_threads = Map.empty\<rparr>"

definition new_thread :: "processor \<Rightarrow> subscriber_info \<Rightarrow> stream_thread" where
  "new_thread p info =
     \<lparr>st_info = info,
      st_tickers = (case receivers (p_generator p) (si_id info) of None \<Rightarrow> {} | Some r \<Rightarrow> ri_tickers r),
      st_phase = Spawned, st_sent = [], st_monitor = None, st_monitor_end = None\<rparr>"

text \<open>The threads that a request handler has started: those \<open>p'\<close> lists beyond \<open>p\<close>.\<close>

definition start_threads :: "processor \<Rightarrow> processor \<Rightarrow> (nat \<rightharpoonup> stream_thread) \<Rightarrow> (nat \<rightharpoonup> stream_thread)" where
  "start_threads p p' threads =
     fold (\<lambda>info m. m(si_channel info \<mapsto> new_thread p' info))
       (drop (length (p_spawned p)) (p_spawned p')) threads"

definition set_flag :: "nat \<Rightarrow> processor \<Rightarrow> processor" where
  "set_flag a p = p\<lparr>p_flags := (p_flags p)(a \<mapsto> True)\<rparr>"

definition joined_monitor :: "thread_end \<Rightarrow> join_result" where
  "joined_monitor e = (case e of Returned \<Rightarrow> JoinedOk | Panicked \<Rightarrow> JoinedPanic)"

text \<open>
  The steps. A request needs an id: the counter would wrap to one in use after \<open>2^64\<close>
  requests, which \<open>accept\<close> leaves out. A ticker thread whose clock is before the epoch
  panics without changing anything; that step is left out as well. A monitor that cannot set
  the read timeout of its socket panics before its loop (\<open>begin_unmonitored\<close>). The other rules are the
  iterations of \<open>stream_step\<close> and \<open>monitor_step\<close>, what comes before and after the loops, and
  the flag that a monitor shares with its streaming thread.
\<close>

datatype server_event =
    Accept accepted
  | Tick string tick_env
  | BindFailed nat io_error hash_order
  | CloneFailed nat io_error
  | Begin nat nat
  | BeginUnmonitored nat nat io_error
  | SendQuote nat "io_error option"
  | JoinMonitor nat hash_order
  | MonitorEvent nat udp_event

inductive server_step ::
    "(strum_error \<Rightarrow> string) \<Rightarrow> 'b bincode \<Rightarrow> server \<Rightarrow> server_event \<Rightarrow> server \<Rightarrow> bool"
  for sd bc where
  accept: "p_next_id (sv_proc s) \<noteq> - 1 \<Longrightarrow> accept_step sd (sv_proc s) ev = Continue p' \<Longrightarrow>
    server_step sd bc s (Accept ev)
      \<lparr>sv_proc = p', sv_threads = start_threads (sv_proc s) p' (sv_threads s)\<rparr>"
| tick: "hash_order_ok (te_order env) \<Longrightarrow>
    start_for_quote_step t (p_generator (sv_proc s), p_channels (sv_proc s), {}) env = Continue (g, ch, {}) \<Longrightarrow>
    server_step sd bc s (Tick t env)
      (s\<lparr>sv_proc := (sv_proc s)\<lparr>p_generator := g, p_channels := ch\<rparr>\<rparr>)"
| bind_failed: "sv_threads s a = Some th \<Longrightarrow> st_phase th = Spawned \<Longrightarrow> hash_order_ok h \<Longrightarrow>
    start_streaming bc h (Inl e) (Inr ()) (st_info th) [] JoinedOk (sv_proc s) = Break (r, p', sent) \<Longrightarrow>
    server_step sd bc s (BindFailed a e h)
      \<lparr>sv_proc = p', sv_threads = (sv_threads s)(a \<mapsto> th\<lparr>st_phase := Finished r\<rparr>)\<rparr>"
| clone_failed: "sv_threads s a = Some th \<Longrightarrow> st_phase th = Spawned \<Longrightarrow>
    start_streaming bc h (Inr ()) (Inl e) (st_info th) [] JoinedOk (sv_proc s) = Break (r, p', sent) \<Longrightarrow>
    server_step sd bc s (CloneFailed a e)
      \<lparr>sv_proc = p', sv_threads = (sv_threads s)(a \<mapsto> th\<lparr>st_phase := Finished r\<rparr>)\<rparr>"
| begin_streaming: "sv_threads s a = Some th \<Longrightarrow> st_phase th = Spawned \<Longrightarrow>
    server_step sd bc s (Begin a start) (s\<lparr>sv_threads := (sv_threads s)(a \<mapsto> th\<lparr>st_phase := Streaming,
      st_monitor := Some (new_monitor start (flag_set (sv_proc s) (si_shutdown (st_info th))))\<rparr>)\<rparr>)"
| begin_unmonitored: "sv_threads s a = Some th \<Longrightarrow> st_phase th = Spawned \<Longrightarrow>
    monitor_connection bc (Inl err) start (flag_set (sv_proc s) (si_shutdown (st_info th))) [] = Break (e, m) \<Longrightarrow>
    server_step sd bc s (BeginUnmonitored a start err) (s\<lparr>sv_threads := (sv_threads s)(a \<mapsto>
      th\<lparr>st_phase := Streaming, st_monitor := Some m, st_monitor_end := Some e\<rparr>)\<rparr>)"
| send_quote: "sv_threads s a = Some th \<Longrightarrow> st_phase th = Streaming \<Longrightarrow>
    stream_step bc (st_info th) (sv_proc s, st_sent th) err = Continue (p', sent) \<Longrightarrow>
    server_step sd bc s (SendQuote a err)
      \<lparr>sv_proc = p', sv_threads = (sv_threads s)(a \<mapsto> th\<lparr>st_sent := sent\<rparr>)\<rparr>"
| stop_streaming: "sv_threads s a = Some th \<Longrightarrow> st_phase th = Streaming \<Longrightarrow>
    stream_step bc (st_info th) (sv_proc s, st_sent th) err = Break (p', sent) \<Longrightarrow>
    server_step sd bc s (SendQuote a err)
      \<lparr>sv_proc = set_flag (si_shutdown (st_info th)) p',
       sv_threads = (sv_threads s)(a \<mapsto> th\<lparr>st_phase := JoiningMonitor, st_sent := sent\<rparr>)\<rparr>"
| join_monitor: "sv_threads s a = Some th \<Longrightarrow> st_phase th = JoiningMonitor \<Longrightarrow>
    st_monitor_end th = Some e \<Longrightarrow> hash_order_ok h \<Longrightarrow>
    stream_end h (st_info th) (joined_monitor e) (sv_proc s) = (r, p') \<Longrightarrow>
    server_step sd bc s (JoinMonitor a h)
      \<lparr>sv_proc = p', sv_threads = (sv_threads s)(a \<mapsto> th\<lparr>st_phase := Finished (Value r)\<rparr>)\<rparr>"
| monitor: "sv_threads s a = Some th \<Longrightarrow> st_monitor th = Some m \<Longrightarrow> st_monitor_end th = None \<Longrightarrow>
    monitor_step bc m ev = Continue m' \<Longrightarrow>
    server_step sd bc s (MonitorEvent a ev)
      (s\<lparr>sv_threads := (sv_threads s)(a \<mapsto> th\<lparr>st_monitor := Some m'\<rparr>)\<rparr>)"
| monitor_end: "sv_threads s a = Some th \<Longrightarrow> st_monitor th = Some m \<Longrightarrow> st_monitor_end th = None \<Longrightarrow>
    monitor_step bc m ev = Break (e, m') \<Longrightarrow>
    server_step sd bc s (MonitorEvent a ev)
      \<lparr>sv_proc = (if m_shutdown m' then set_flag (si_shutdown (st_info th)) (sv_proc s) else sv_proc s),
       sv_threads = (sv_threads s)(a \<mapsto> th\<lparr>st_monitor := Some m', st_monitor_end := Some e\<rparr>)\<rparr>"


inductive server_run ::
    "(strum_error \<Rightarrow> string) \<Rightarrow> 'b bincode \<Rightarrow> server \<Rightarrow> server_event list \<Rightarrow> server \<Rightarrow> bool"
  for sd bc where
  run_nil: "server_run sd bc s [] s"
| run_step: "server_run sd bc s es s' \<Longrightarrow> server_step sd bc s' e s'' \<Longrightarrow> server_run sd bc s (es @ [e]) s''"

section \<open>The invariant of the running server\<close>

text \<open>
  What holds of a subscriber's thread until it is finished, and what is left of it then.
  \<open>quotes_for\<close>: everything sent is a quote for a requested ticker, to the right address.
\<close>

definition unfinished :: "stream_thread \<Rightarrow> bool" where
  "unfinished th \<longleftrightarrow> (\<forall>r. st_phase th \<noteq> Finished r)"

definition quotes_for :: "'b bincode \<Rightarrow> stream_thread \<Rightarrow> sent_datagrams \<Rightarrow> bool" where
  "quotes_for bc th sent \<longleftrightarrow> (\<forall>(addr, bytes) \<in> set sent. addr = si_udp_addr (st_info th)
     \<and> (\<exists>q. udp_to_bytes bc (Quote q) = Inr bytes \<and> q_ticker q \<in> st_tickers th))"

definition thread_id :: "stream_thread \<Rightarrow> u64" where
  "thread_id th = si_id (st_info th)"

definition thread_placed :: "processor \<Rightarrow> nat \<Rightarrow> stream_thread \<Rightarrow> bool" where
  "thread_placed p a th \<longleftrightarrow> si_channel (st_info th) = a \<and> si_shutdown (st_info th) = a
     \<and> a < p_next_addr p \<and> thread_id th < p_next_id p"

definition thread_live :: "processor \<Rightarrow> nat \<Rightarrow> stream_thread \<Rightarrow> bool" where
  "thread_live p a th \<longleftrightarrow>
     (if unfinished th
      then receivers (p_generator p) (thread_id th) = Some \<lparr>ri_channel = a, ri_tickers = st_tickers th\<rparr>
        \<and> rx_alive (p_channels p) a \<and> tx_alive (p_channels p) a
      else \<not> rx_alive (p_channels p) a)
     \<and> (\<forall>r. st_phase th = Finished (Value r) \<longrightarrow> r = Inr () \<and> p_subscribers p (thread_id th) = None)
     \<and> (st_phase th = Finished Panic \<longrightarrow> p_subscribers p (thread_id th) \<noteq> None
         \<and> (receivers (p_generator p) (thread_id th) = Some \<lparr>ri_channel = a, ri_tickers = st_tickers th\<rparr>
            \<or> receivers (p_generator p) (thread_id th) = None))
     \<and> (st_phase th = JoiningMonitor \<longrightarrow> flag_set p a)"

definition thread_quotes :: "'b bincode \<Rightarrow> processor \<Rightarrow> nat \<Rightarrow> stream_thread \<Rightarrow> bool" where
  "thread_quotes bc p a th \<longleftrightarrow>
     (\<forall>q \<in> set (queue_at (p_channels p) a). q_ticker q \<in> st_tickers th) \<and> quotes_for bc th (st_sent th)"

definition thread_ok :: "'b bincode \<Rightarrow> processor \<Rightarrow> nat \<Rightarrow> stream_thread \<Rightarrow> bool" where
  "thread_ok bc p a th \<longleftrightarrow> thread_placed p a th \<and> thread_live p a th \<and> thread_quotes bc p a th"

definition server_inv :: "'b bincode \<Rightarrow> server \<Rightarrow> bool" where
  "server_inv bc s \<longleftrightarrow> processor_inv (sv_proc s)
     \<and> (\<forall>a th. sv_threads s a = Some th \<longrightarrow> thread_ok bc (sv_proc s) a th)"

text \<open>
  A step of one thread keeps what the others rely on. \<open>same_for p p' a th\<close>: nothing that
  concerns the thread at \<open>a\<close> got worse.
\<close>

definition same_for :: "processor \<Rightarrow> processor \<Rightarrow> nat \<Rightarrow> stream_thread \<Rightarrow> bool" where
  "same_for p p' a th \<longleftrightarrow>
     p_next_addr p \<le> p_next_addr p'
     \<and> (thread_id th < p_next_id p \<longrightarrow> thread_id th < p_next_id p')
     \<and> rx_alive (p_channels p') a = rx_alive (p_channels p) a
     \<and> (unfinished th \<longrightarrow> tx_alive (p_channels p') a = tx_alive (p_channels p) a
         \<and> receivers (p_generator p') (thread_id th) = receivers (p_generator p) (thread_id th))
     \<and> (p_subscribers p (thread_id th) = None \<longrightarrow> thread_id th < p_next_id p \<longrightarrow>
          p_subscribers p' (thread_id th) = None)
     \<and> (st_phase th = Finished Panic \<longrightarrow>
         (p_subscribers p (thread_id th) \<noteq> None \<longrightarrow> p_subscribers p' (thread_id th) \<noteq> None)
         \<and> receivers (p_generator p') (thread_id th) \<in> {receivers (p_generator p) (thread_id th), None})
     \<and> (flag_set p a \<longrightarrow> flag_set p' a)
     \<and> (\<forall>q \<in> set (queue_at (p_channels p') a).
          q \<in> set (queue_at (p_channels p) a) \<or> q_ticker q \<in> st_tickers th)"

lemma thread_ok_same:
  assumes "thread_ok bc p a th" "same_for p p' a th"
  shows "thread_ok bc p' a th"
proof -
  have placed: "thread_placed p' a th" using assms
    by (auto simp: thread_ok_def thread_placed_def same_for_def)
  have "thread_live p' a th" using assms
    by (auto simp: thread_ok_def thread_live_def thread_placed_def same_for_def)
  moreover have "thread_quotes bc p' a th" using assms
    by (auto simp: thread_ok_def thread_quotes_def same_for_def)
  ultimately show ?thesis using placed by (simp add: thread_ok_def)
qed

lemma same_for_refl [simp]: "same_for p p a th"
  by (simp add: same_for_def)

lemma server_inv_update:
  assumes "server_inv bc s" "processor_inv p'"
    and "\<And>b u. sv_threads s b = Some u \<Longrightarrow> b \<noteq> a \<Longrightarrow> same_for (sv_proc s) p' b u"
    and "thread_ok bc p' a th"
  shows "server_inv bc \<lparr>sv_proc = p', sv_threads = (sv_threads s)(a \<mapsto> th)\<rparr>"
  using assms by (auto simp: server_inv_def intro: thread_ok_same [of bc "sv_proc s"])

text \<open>No unfinished thread shares its id with another one that is unfinished or has panicked.\<close>

lemma threads_distinct:
  assumes "thread_ok bc p a th" "thread_ok bc p b u" "unfinished th \<or> st_phase th = Finished Panic"
    and "unfinished u" "a \<noteq> b"
  shows "thread_id th \<noteq> thread_id u"
  using assms by (auto simp: thread_ok_def thread_live_def)

section \<open>Each step keeps the invariant\<close>

lemma set_flag_facts [simp]:
  "p_channels (set_flag a p) = p_channels p" "p_generator (set_flag a p) = p_generator p"
  "p_subscribers (set_flag a p) = p_subscribers p" "p_next_id (set_flag a p) = p_next_id p"
  "p_next_addr (set_flag a p) = p_next_addr p" "processor_inv (set_flag a p) = processor_inv p"
  "flag_set (set_flag a p) b = (b = a \<or> flag_set p b)"
  by (auto simp: set_flag_def processor_inv_def flag_set_def)

lemma same_for_flag [simp]: "same_for p (set_flag b p) a th"
  by (simp add: same_for_def)

lemma tick_outcome:
  assumes "generator_ok g" "hash_order_ok (te_order env)"
    and "start_for_quote_step t (g, ch, {}) env = Continue (g', ch', {})"
  shows "generator_ok g'
    \<and> (\<forall>i. receivers g' i = (if prices g t \<noteq> None \<and> dead_subscriber g ch t i then None else receivers g i))
    \<and> (\<forall>a. rx_alive ch' a = rx_alive ch a)
    \<and> (\<forall>a. tx_alive ch' a \<longleftrightarrow> tx_alive ch a \<and> (\<forall>i info. prices g t \<noteq> None \<longrightarrow> dead_subscriber g ch t i
         \<longrightarrow> receivers g i = Some info \<longrightarrow> ri_channel info \<noteq> a))
    \<and> (\<forall>a. \<forall>q \<in> set (queue_at ch' a). q \<in> set (queue_at ch a) \<or> rx_alive ch a \<and> q_ticker q = t
         \<and> (\<exists>i info. receivers g i = Some info \<and> t \<in> ri_tickers info \<and> ri_channel info = a))"
proof -
  have run: "\<not> gen_shutdown g" using assms(3) tick_shutdown [of g t ch "{}" env] by auto
  show ?thesis
  proof (cases "prices g t")
    case None
    with run assms show ?thesis by (simp add: tick_absent)
  next
    case (Some data)
    then have now: "0 \<le> te_now env" using tick_panic [OF run Some, of env ch] assms(3) by force
    have ok: "generator_ok g'" using tick_generator_ok [OF assms] by simp
    have inv: "registry_inv g" "channels_distinct g" using assms(1) by (simp_all add: generator_ok_def)
    obtain q where "q_ticker q = t"
      "\<forall>a. queue_at ch' a = (if (\<exists>i info. receivers g i = Some info \<and> t \<in> ri_tickers info
          \<and> ri_channel info = a) \<and> rx_alive ch a then queue_at ch a @ [q] else queue_at ch a)"
      "\<forall>a. rx_alive ch' a = rx_alive ch a"
      "\<forall>i. receivers g' i = (if dead_subscriber g ch t i then None else receivers g i)"
      "\<forall>a. tx_alive ch' a \<longleftrightarrow> tx_alive ch a
         \<and> (\<forall>i info. dead_subscriber g ch t i \<longrightarrow> receivers g i = Some info \<longrightarrow> ri_channel info \<noteq> a)"
      using tick_step [OF inv assms(2) run Some now, of ch] assms(3) by auto
    with ok Some show ?thesis by (auto split: if_splits)
  qed
qed

lemma tick_same:
  assumes "processor_inv p" "thread_ok bc p a th" "hash_order_ok (te_order env)"
    and "start_for_quote_step t (p_generator p, p_channels p, {}) env = Continue (g, ch, {})"
  shows "same_for p (p\<lparr>p_generator := g, p_channels := ch\<rparr>) a th"
proof -
  have ok: "generator_ok (p_generator p)" using assms(1) by (simp add: processor_inv_def)
  note tick = tick_outcome [OF ok assms(3,4)]
  have dist: "channels_distinct (p_generator p)" using ok by (simp add: generator_ok_def)
  have "q \<in> set (queue_at (p_channels p) a) \<or> q_ticker q \<in> st_tickers th"
    if q: "q \<in> set (queue_at ch a)" for q
  proof (rule ccontr)
    assume new: "\<not> ?thesis"
    with tick q obtain i info where "rx_alive (p_channels p) a" "receivers (p_generator p) i = Some info"
      "q_ticker q \<in> ri_tickers info" "ri_channel info = a" by blast
    with assms(2) dist new show False
      unfolding thread_ok_def thread_live_def channels_distinct_def by (metis option.inject receiver_info.select_convs)
  qed
  moreover have "\<not> dead_subscriber (p_generator p) (p_channels p) t i"
    if "unfinished th" "receivers (p_generator p) i = Some info" "ri_channel info = a" for i info
    using that assms(2) by (simp add: dead_subscriber_def thread_ok_def thread_live_def)
  ultimately show ?thesis
    using tick assms(2) by (auto simp: same_for_def thread_ok_def thread_live_def flag_set_def)
qed

lemma tick_processor_inv:
  assumes "processor_inv p" "hash_order_ok (te_order env)"
    and "start_for_quote_step t (p_generator p, p_channels p, {}) env = Continue (g, ch, {})"
  shows "processor_inv (p\<lparr>p_generator := g, p_channels := ch\<rparr>)"
proof -
  have ok: "generator_ok (p_generator p)" using assms(1) by (simp add: processor_inv_def)
  from tick_outcome [OF ok assms(2,3)] assms(1) show ?thesis
    by (auto simp: processor_inv_def split: if_splits)
qed

lemma accept_cases:
  assumes "accept_step sd p ev = Continue p'" "processor_inv p"
  shows "p' = p \<or> (\<exists>cmd. p' = snd (add_subscriber cmd p))"
proof -
  have run: "\<not> p_shutdown p" using assms(1) accept_step_simps(1) [of p sd ev] by auto
  show ?thesis
  proof (cases ev)
    case (AcceptConn inp out)
    then have p': "p' = serve sd inp p" using assms(1) accept_step_simps(2) [OF run] by simp
    show ?thesis
    proof (cases "fst (read_tcp_message inp)")
      case (Inr msg)
      then show ?thesis using response_cases [OF assms(2), of sd]
        by (cases msg) (auto simp: p' serve_def response_to_def)
    qed (simp add: p' serve_def)
  next
    case (AcceptErr e)
    then show ?thesis using assms(1) accept_step_simps(3) [OF run] by simp
  qed
qed

lemma add_same:
  assumes "processor_inv p" "p_next_id p \<noteq> - 1" "thread_placed p a th"
  shows "same_for p (snd (add_subscriber cmd p)) a th"
proof (cases rule: add_subscriber_cases [OF assms(1), of cmd])
  case (1 t)
  with assms next_id_step [OF _ assms(2)] show ?thesis
    by (auto simp: same_for_def thread_placed_def channel flag_set_def)
next
  case (2 g)
  have "receivers g = (receivers (p_generator p))(p_next_id p \<mapsto>
      \<lparr>ri_channel = p_next_addr p, ri_tickers = set (sc_tickers cmd)\<rparr>)"
    using 2(2) by (cases rule: add_receiver_cases [of "p_generator p" "sc_tickers cmd" "p_next_id p"
          "p_next_addr p" "(p_channels p)(p_next_addr p \<mapsto> new_channel)"]) auto
  with 2 assms next_id_step [OF _ assms(2)] show ?thesis
    by (auto simp: same_for_def thread_placed_def channel flag_set_def)
qed

text \<open>What a returning streaming thread does to the processor: \<open>cleanup\<close>.\<close>

definition cleanup :: "hash_order \<Rightarrow> stream_thread \<Rightarrow> processor \<Rightarrow> processor" where
  "cleanup h th p =
     (let p1 = remove_subscriber h (si_id (st_info th)) p in
      p1\<lparr>p_channels := drop_receiver (si_channel (st_info th)) (p_channels p1)\<rparr>)"

lemma remove_subscriber_frame:
  "p_next_id (remove_subscriber h rid p) = p_next_id p"
  "p_next_addr (remove_subscriber h rid p) = p_next_addr p"
  "rx_alive (p_channels (remove_subscriber h rid p)) a = rx_alive (p_channels p) a"
  "queue_at (p_channels (remove_subscriber h rid p)) a = queue_at (p_channels p) a"
  "flag_set p a \<Longrightarrow> flag_set (remove_subscriber h rid p) a"
  by (cases rule: remove_subscriber_cases [of p rid h]; simp add: channel flag_set_def)+

lemma remove_subscriber_tx:
  "(\<And>info. receivers (p_generator p) rid = Some info \<Longrightarrow> ri_channel info \<noteq> a) \<Longrightarrow>
     tx_alive (p_channels (remove_subscriber h rid p)) a = tx_alive (p_channels p) a"
  by (cases rule: remove_subscriber_cases [of p rid h])
     (auto simp: drop_replaced_def drop_sender_effect split: option.splits)

lemma cleanup_inv: "processor_inv p \<Longrightarrow> hash_order_ok h \<Longrightarrow> processor_inv (cleanup h th p)"
  by (simp add: cleanup_def Let_def remove_subscriber_inv)

lemma cleanup_same:
  assumes "processor_inv p" "hash_order_ok h"
    and "thread_ok bc p a th" "unfinished th" "thread_ok bc p b u" "b \<noteq> a"
  shows "same_for p (cleanup h th p) b u"
proof -
  have th: "si_channel (st_info th) = a"
    "receivers (p_generator p) (si_id (st_info th)) = Some \<lparr>ri_channel = a, ri_tickers = st_tickers th\<rparr>"
    using assms(3,4) by (simp_all add: thread_ok_def thread_placed_def thread_live_def thread_id_def)
  have "thread_id u \<noteq> si_id (st_info th)" if "unfinished u \<or> st_phase u = Finished Panic"
    using threads_distinct [OF assms(5,3) that assms(4,6)] by (simp add: thread_id_def)
  then show ?thesis
    using assms(6) th remove_subscriber_tx [of p "si_id (st_info th)" b h]
    by (auto simp: same_for_def cleanup_def Let_def channel remove_subscriber_frame
        remove_subscriber_subs [OF assms(1,2)])
qed

lemma cleanup_ok:
  assumes "processor_inv p" "hash_order_ok h" "thread_ok bc p a th"
  shows "thread_ok bc (cleanup h th p) a (th\<lparr>st_phase := Finished (Value (Inr ()))\<rparr>)"
  using assms(3)
  by (auto simp: thread_ok_def thread_placed_def thread_live_def thread_quotes_def thread_id_def unfinished_def
      quotes_for_def cleanup_def Let_def channel remove_subscriber_frame remove_subscriber_subs [OF assms(1,2)])

lemma stream_end_cleanup:
  "stream_end h (st_info th) (joined_monitor e) p =
     (Inr (), cleanup h th (set_flag (si_shutdown (st_info th)) p))"
  by (cases e) (simp_all add: stream_end_def joined_monitor_def cleanup_def set_flag_def Let_def)

lemma bind_failed_cleanup:
  "start_streaming bc h (Inl e) clone (st_info th) events join p = Break (Value (Inr ()), cleanup h th p, [])"
  by (simp add: start_streaming_def cleanup_def Let_def)

text \<open>The streaming loop of one thread.\<close>

lemma stream_same:
  assumes "stream_step bc (st_info th) (p, sent) err = Continue (p', sent')
    \<or> stream_step bc (st_info th) (p, sent) err = Break (p', sent')"
    and "thread_placed p a th" "b \<noteq> a"
  shows "same_for p p' b u" "same_for p p' a th" "processor_inv p \<Longrightarrow> processor_inv p'"
  using stream_channels [OF assms(1)] assms(2,3)
  by (auto simp: same_for_def channel flag_set_def thread_placed_def dest: set_tl)

lemma stream_sent:
  assumes "stream_step bc info (p, sent) err = Continue (p', sent')
    \<or> stream_step bc info (p, sent) err = Break (p', sent')"
  shows "\<forall>d \<in> set sent'. d \<in> set sent \<or> (\<exists>q bytes. q \<in> set (queue_at (p_channels p) (si_channel info))
      \<and> udp_to_bytes bc (Quote q) = Inr bytes \<and> d = (si_udp_addr info, bytes))"
proof (cases "flag_set p (si_shutdown info)")
  case True
  with assms show ?thesis by (simp add: stream_step_flagged)
next
  case False
  show ?thesis
  proof (cases "queue_at (p_channels p) (si_channel info)")
    case Nil
    then have "fst (chan_recv (p_channels p) (si_channel info)) \<in> {RecvTimeout, RecvDisconnected}"
      by (simp add: recv_result)
    with assms False show ?thesis
      by (auto simp: stream_step_def split: prod.splits recv_result.splits)
  next
    case (Cons q qs)
    with assms stream_step_received [OF False Cons, of bc sent err] show ?thesis
      by (auto simp: datagrams_for_def split: sum.splits if_splits)
  qed
qed

text \<open>A channel of a live subscriber is never disconnected, so only the flag stops its thread.\<close>

lemma stream_break_flag:
  assumes "stream_step bc info (p, sent) err = Break (p', sent')" "tx_alive (p_channels p) (si_channel info)"
  shows "flag_set p (si_shutdown info) \<and> p' = p \<and> sent' = sent"
proof (rule ccontr)
  assume "\<not> ?thesis"
  with assms(1) have run: "\<not> flag_set p (si_shutdown info)" by (auto simp: stream_step_flagged)
  have "fst (chan_recv (p_channels p) (si_channel info)) \<noteq> RecvDisconnected"
    using assms(2) by (simp add: recv_result split: list.splits)
  with assms(1) run show False
    by (auto simp: stream_step_def split: prod.splits recv_result.splits sum.splits)
qed

lemma start_threads_same: "start_threads p p threads = threads"
  by (simp add: start_threads_def)

lemma added_thread:
  assumes inv: "processor_inv p" and room: "p_next_id p \<noteq> - 1"
    and p': "p' = snd (add_subscriber cmd p)" and known: "first_unknown p cmd = None"
  shows "start_threads p p' threads = threads(p_next_addr p \<mapsto> new_thread p' (last (p_spawned p')))"
    and "thread_ok bc p' (p_next_addr p) (new_thread p' (last (p_spawned p')))"
proof -
  note added = add_subscriber_subs [OF inv known]
  have spawned: "p_spawned p' = p_spawned p @ [\<lparr>si_id = p_next_id p,
        si_channel = p_next_addr p, si_udp_addr = (sc_ip cmd, sc_port cmd), si_shutdown = p_next_addr p\<rparr>]"
    using added by (simp add: p')
  then show "start_threads p p' threads = threads(p_next_addr p \<mapsto> new_thread p' (last (p_spawned p')))"
    by (simp add: start_threads_def)
  show "thread_ok bc p' (p_next_addr p) (new_thread p' (last (p_spawned p')))"
  proof (cases rule: add_subscriber_cases [OF inv, of cmd])
    case (1 t)
    with known show ?thesis by simp
  next
    case (2 g)
    have "receivers g = (receivers (p_generator p))(p_next_id p \<mapsto>
        \<lparr>ri_channel = p_next_addr p, ri_tickers = set (sc_tickers cmd)\<rparr>)"
      using 2(2) by (cases rule: add_receiver_cases [of "p_generator p" "sc_tickers cmd" "p_next_id p"
            "p_next_addr p" "(p_channels p)(p_next_addr p \<mapsto> new_channel)"]) auto
    with 2(3) next_id_step [OF _ room, of "p_next_id p"] show ?thesis
      by (auto simp: p' spawned [unfolded p'] new_thread_def thread_ok_def thread_placed_def thread_live_def
          thread_quotes_def thread_id_def unfinished_def quotes_for_def channel)
  qed
qed

lemma accept_inv:
  assumes inv: "server_inv bc s" and room: "p_next_id (sv_proc s) \<noteq> - 1"
    and step: "accept_step sd (sv_proc s) ev = Continue p'"
  shows "server_inv bc \<lparr>sv_proc = p', sv_threads = start_threads (sv_proc s) p' (sv_threads s)\<rparr>"
proof -
  have p: "processor_inv (sv_proc s)" using inv by (simp add: server_inv_def)
  from accept_cases [OF step p] show ?thesis
  proof (elim disjE exE)
    assume "p' = sv_proc s"
    with inv show ?thesis by (simp add: start_threads_same server_inv_def)
  next
    fix cmd
    assume p': "p' = snd (add_subscriber cmd (sv_proc s))"
    have inv': "processor_inv p'" using add_subscriber_inv [OF p room] by (simp add: p')
    have same: "same_for (sv_proc s) p' a th" if "sv_threads s a = Some th" for a th
      using add_same [OF p room, of a th cmd] that inv by (simp add: p' server_inv_def thread_ok_def)
    show ?thesis
    proof (cases "first_unknown (sv_proc s) cmd")
      case (Some t)
      then have "start_threads (sv_proc s) p' (sv_threads s) = sv_threads s"
        using add_subscriber_refused [OF p Some] by (simp add: start_threads_def p')
      with inv inv' same show ?thesis
        by (auto simp: server_inv_def intro: thread_ok_same [of bc "sv_proc s"])
    next
      case None
      from server_inv_update [OF inv inv' same added_thread(2) [OF p room p' None]] show ?thesis
        by (simp add: added_thread(1) [OF p room p' None])
    qed
  qed
qed

text \<open>Bookkeeping changes of a thread that do not matter for the invariant.\<close>

lemma thread_updates [simp]:
  "thread_id (th\<lparr>st_phase := ph\<rparr>) = thread_id th" "thread_id (th\<lparr>st_sent := sent\<rparr>) = thread_id th"
  "thread_id (th\<lparr>st_monitor := m\<rparr>) = thread_id th" "thread_id (th\<lparr>st_monitor_end := e\<rparr>) = thread_id th"
  "unfinished (th\<lparr>st_phase := ph\<rparr>) = (\<forall>r. ph \<noteq> Finished r)"
  "unfinished (th\<lparr>st_sent := sent\<rparr>) = unfinished th"
  "unfinished (th\<lparr>st_monitor := m\<rparr>) = unfinished th" "unfinished (th\<lparr>st_monitor_end := e\<rparr>) = unfinished th"
  "quotes_for bc (th\<lparr>st_phase := ph\<rparr>) ds = quotes_for bc th ds"
  "quotes_for bc (th\<lparr>st_sent := sent\<rparr>) ds = quotes_for bc th ds"
  "quotes_for bc (th\<lparr>st_monitor := m\<rparr>) ds = quotes_for bc th ds"
  "quotes_for bc (th\<lparr>st_monitor_end := e\<rparr>) ds = quotes_for bc th ds"
  by (simp_all add: thread_id_def unfinished_def quotes_for_def)

lemma thread_ok_running:
  assumes "thread_ok bc p a th" "unfinished th" "unfinished (th\<lparr>st_phase := ph\<rparr>)"
    and "ph = JoiningMonitor \<longrightarrow> flag_set p a"
  shows "thread_ok bc p a (th\<lparr>st_phase := ph\<rparr>)"
  using assms by (simp add: thread_ok_def thread_placed_def thread_live_def thread_quotes_def)

lemma thread_ok_monitor [simp]:
  "thread_ok bc p a (th\<lparr>st_monitor := m\<rparr>) = thread_ok bc p a th"
  "thread_ok bc p a (th\<lparr>st_monitor := m, st_monitor_end := e\<rparr>) = thread_ok bc p a th"
  "thread_ok bc p a (th\<lparr>st_phase := ph, st_monitor := m\<rparr>) = thread_ok bc p a (th\<lparr>st_phase := ph\<rparr>)"
  "thread_ok bc p a (th\<lparr>st_phase := ph, st_monitor := m, st_monitor_end := e\<rparr>) = thread_ok bc p a (th\<lparr>st_phase := ph\<rparr>)"
  by (simp_all add: thread_ok_def thread_placed_def thread_live_def thread_quotes_def)

lemma thread_ok_sent:
  assumes "thread_ok bc p a th" "thread_ok bc p' a th"
    and "\<forall>d \<in> set sent. d \<in> set (st_sent th) \<or> (\<exists>q bytes. q \<in> set (queue_at (p_channels p) a)
      \<and> udp_to_bytes bc (Quote q) = Inr bytes \<and> d = (si_udp_addr (st_info th), bytes))"
  shows "thread_ok bc p' a (th\<lparr>st_sent := sent\<rparr>)"
proof -
  have "quotes_for bc th sent"
    unfolding quotes_for_def
  proof (intro ballI, clarify)
    fix addr bytes
    assume "(addr, bytes) \<in> set sent"
    with assms(1,3) show "addr = si_udp_addr (st_info th)
        \<and> (\<exists>q. udp_to_bytes bc (Quote q) = Inr bytes \<and> q_ticker q \<in> st_tickers th)"
      unfolding thread_ok_def thread_quotes_def quotes_for_def by fastforce
  qed
  with assms(2) show ?thesis
    by (simp add: thread_ok_def thread_placed_def thread_live_def thread_quotes_def)
qed

lemma receiver_handle:
  "processor_inv p \<Longrightarrow> receivers (p_generator p) i = Some r \<Longrightarrow> p_subscribers p i \<noteq> None"
  unfolding processor_inv_def by fastforce

lemma step_server_inv:
  assumes "server_step sd bc s e s'" "server_inv bc s"
  shows "server_inv bc s'"
  using assms
proof (induction rule: server_step.induct)
  case (accept s ev p')
  then show ?case by (simp add: accept_inv)
next
  case (tick env t s g ch)
  then have p: "processor_inv (sv_proc s)" by (simp add: server_inv_def)
  have "thread_ok bc ((sv_proc s)\<lparr>p_generator := g, p_channels := ch\<rparr>) a th" if "sv_threads s a = Some th" for a th
  proof -
    have "thread_ok bc (sv_proc s) a th" using that tick.prems by (simp add: server_inv_def)
    from thread_ok_same [OF this tick_same [OF p this tick(1,2)]] show ?thesis .
  qed
  with tick_processor_inv [OF p tick(1,2)] show ?case by (simp add: server_inv_def)
next
  case (bind_failed s a th h e r p' sent)
  then have p: "processor_inv (sv_proc s)" and th: "thread_ok bc (sv_proc s) a th" "unfinished th"
    by (auto simp: server_inv_def unfinished_def)
  have eq: "r = Value (Inr ())" "p' = cleanup h th (sv_proc s)"
    using bind_failed(4) by (simp_all add: bind_failed_cleanup)
  have same: "same_for (sv_proc s) p' b u" if "sv_threads s b = Some u" "b \<noteq> a" for b u
    using cleanup_same [OF p bind_failed(3) th _ that(2)] that(1) bind_failed.prems
    by (simp add: eq server_inv_def)
  show ?case
    using server_inv_update [OF bind_failed.prems cleanup_inv [OF p bind_failed(3), of th] _
        cleanup_ok [OF p bind_failed(3) th(1)]] same by (simp add: eq)
next
  case (clone_failed s a th h e r p' sent)
  then have p: "processor_inv (sv_proc s)" and th: "thread_ok bc (sv_proc s) a th" "unfinished th"
    by (auto simp: server_inv_def unfinished_def)
  have eq: "r = Panic" "p' = (sv_proc s)\<lparr>p_channels := drop_receiver (si_channel (st_info th)) (p_channels (sv_proc s))\<rparr>"
    using clone_failed(3) by (auto simp: start_streaming_def)
  have a: "si_channel (st_info th) = a" using th by (simp add: thread_ok_def thread_placed_def)
  have same: "same_for (sv_proc s) p' b u" if "b \<noteq> a" for b u
    using that by (auto simp: eq a same_for_def channel flag_set_def)
  have "p_subscribers (sv_proc s) (thread_id th) \<noteq> None"
    using receiver_handle [OF p] th by (auto simp: thread_ok_def thread_live_def)
  then have "thread_ok bc p' a (th\<lparr>st_phase := Finished r\<rparr>)"
    using th by (auto simp: eq a thread_ok_def thread_placed_def thread_live_def thread_quotes_def channel)
  with p same show ?case by (intro server_inv_update [OF clone_failed.prems]) (simp_all add: eq)
next
  case (begin_streaming s a th start)
  then have "thread_ok bc (sv_proc s) a (th\<lparr>st_phase := Streaming\<rparr>)"
    by (intro thread_ok_running) (auto simp: server_inv_def unfinished_def)
  with begin_streaming server_inv_update [of bc s "sv_proc s" a] show ?case
    by (simp add: server_inv_def)
next
  case (begin_unmonitored s a th err start e m)
  then have "thread_ok bc (sv_proc s) a (th\<lparr>st_phase := Streaming\<rparr>)"
    by (intro thread_ok_running) (auto simp: server_inv_def unfinished_def)
  with begin_unmonitored server_inv_update [of bc s "sv_proc s" a] show ?case
    by (simp add: server_inv_def)
next
  case (send_quote s a th err p' sent)
  then have p: "processor_inv (sv_proc s)" and th: "thread_ok bc (sv_proc s) a th"
    by (auto simp: server_inv_def)
  then have placed: "thread_placed (sv_proc s) a th" "si_channel (st_info th) = a"
    by (simp_all add: thread_ok_def thread_placed_def)
  note step = disjI1 [OF send_quote(3)]
  have "thread_ok bc p' a th" using thread_ok_same [OF th] stream_same(2) [OF step placed(1), of "Suc a"] by simp
  from thread_ok_sent [OF th this, of sent] stream_sent [OF step] placed(2)
  have "thread_ok bc p' a (th\<lparr>st_sent := sent\<rparr>)" by simp
  then show ?case
    using stream_same(1) [OF step placed(1)] stream_same(3) [OF step placed(1), of "Suc a"] p
    by (intro server_inv_update [OF send_quote.prems]) simp_all
next
  case (stop_streaming s a th err p' sent)
  then have p: "processor_inv (sv_proc s)" and th: "thread_ok bc (sv_proc s) a th" "unfinished th"
    by (auto simp: server_inv_def unfinished_def)
  then have placed: "si_channel (st_info th) = a" "si_shutdown (st_info th) = a"
    "tx_alive (p_channels (sv_proc s)) a"
    by (simp_all add: thread_ok_def thread_placed_def thread_live_def)
  have eq: "p' = sv_proc s" "sent = st_sent th"
    using stream_break_flag [OF stop_streaming(3)] placed by simp_all
  have "thread_ok bc (set_flag a (sv_proc s)) a (th\<lparr>st_phase := JoiningMonitor\<rparr>)"
    using th(2) by (intro thread_ok_running thread_ok_same [OF th(1)]) simp_all
  moreover have "th\<lparr>st_phase := JoiningMonitor, st_sent := st_sent th\<rparr> = th\<lparr>st_phase := JoiningMonitor\<rparr>" by simp
  ultimately show ?case
    using p by (intro server_inv_update [OF stop_streaming.prems]) (simp_all add: eq placed(2))
next
  case (join_monitor s a th e h r p')
  let ?p = "set_flag (si_shutdown (st_info th)) (sv_proc s)"
  have inv: "server_inv bc (s\<lparr>sv_proc := ?p\<rparr>)"
    using join_monitor.prems by (auto simp: server_inv_def intro: thread_ok_same [of bc "sv_proc s"])
  then have p: "processor_inv ?p" and th: "thread_ok bc ?p a th" "unfinished th"
    using join_monitor by (auto simp: server_inv_def unfinished_def)
  have eq: "r = Inr ()" "p' = cleanup h th ?p" using join_monitor(5) by (simp_all add: stream_end_cleanup)
  have same: "same_for ?p p' b u" if "sv_threads s b = Some u" "b \<noteq> a" for b u
    using cleanup_same [OF p join_monitor(4) th _ that(2)] that(1) inv
    by (simp add: eq server_inv_def)
  show ?case
    using server_inv_update [OF inv cleanup_inv [OF p join_monitor(4), of th] _
        cleanup_ok [OF p join_monitor(4) th(1)]] same by (simp add: eq)
next
  case (monitor s a th m ev m')
  with server_inv_update [of bc s "sv_proc s" a] show ?case by (simp add: server_inv_def)
next
  case (monitor_end s a th m ev e m')
  then have p: "processor_inv (sv_proc s)" and th: "thread_ok bc (sv_proc s) a th"
    by (auto simp: server_inv_def)
  have "thread_ok bc (set_flag b (sv_proc s)) a th" for b
    by (rule thread_ok_same [OF th]) simp
  with p th show ?case
    by (intro server_inv_update [OF monitor_end.prems]) simp_all
qed

lemma run_server_inv: "server_run sd bc s es s' \<Longrightarrow> server_inv bc s \<Longrightarrow> server_inv bc s'"
  by (induction rule: server_run.induct) (auto intro: step_server_inv)

lemma new_server_inv: "processor_inv p \<Longrightarrow> server_inv bc (new_server p)"
  by (simp add: server_inv_def new_server_def)


section \<open>Who stops a streaming thread\<close>

text \<open>
  Only a monitor that gave up sets the flag of an unfinished thread, and a monitor that is
  still running has not set its own.
\<close>

definition thread_flags :: "processor \<Rightarrow> nat \<Rightarrow> stream_thread \<Rightarrow> bool" where
  "thread_flags p a th \<longleftrightarrow>
     (unfinished th \<longrightarrow> flag_set p a \<longrightarrow> st_monitor_end th = Some Returned)
     \<and> (st_phase th = Spawned \<longrightarrow> st_monitor th = None \<and> st_monitor_end th = None)
     \<and> (\<forall>m. st_monitor th = Some m \<longrightarrow> st_monitor_end th = None \<longrightarrow> \<not> m_shutdown m)"

definition server_flags :: "server \<Rightarrow> bool" where
  "server_flags s \<longleftrightarrow> (\<forall>a th. sv_threads s a = Some th \<longrightarrow> thread_flags (sv_proc s) a th)"

lemma server_flags_update:
  assumes "server_flags s" "\<And>b. b \<noteq> a \<Longrightarrow> sv_threads s b \<noteq> None \<Longrightarrow> flag_set p' b = flag_set (sv_proc s) b"
    and "thread_flags p' a th"
  shows "server_flags \<lparr>sv_proc = p', sv_threads = (sv_threads s)(a \<mapsto> th)\<rparr>"
  using assms by (auto simp: server_flags_def thread_flags_def)

lemma server_flags_proc:
  assumes "server_flags s" "\<And>b. sv_threads s b \<noteq> None \<Longrightarrow> flag_set p' b = flag_set (sv_proc s) b"
  shows "server_flags (s\<lparr>sv_proc := p'\<rparr>)"
  using assms by (auto simp: server_flags_def thread_flags_def)

lemma add_flags: "flag_set (snd (add_subscriber cmd p)) b = (b \<noteq> p_next_addr p \<and> flag_set p b)"
  by (auto simp: add_subscriber_def Let_def flag_set_def split: prod.splits sum.splits)

lemma placed_below: "server_inv bc s \<Longrightarrow> sv_threads s b \<noteq> None \<Longrightarrow> b < p_next_addr (sv_proc s)"
  by (auto simp: server_inv_def thread_ok_def thread_placed_def)

lemma cleanup_flags:
  assumes "processor_inv p" "thread_ok bc p a th" "unfinished th" "b \<noteq> a"
  shows "flag_set (cleanup h th p) b = flag_set p b"
proof -
  have "receivers (p_generator p) (si_id (st_info th)) = Some \<lparr>ri_channel = a, ri_tickers = st_tickers th\<rparr>"
    using assms(2,3) by (simp add: thread_ok_def thread_live_def thread_id_def)
  with assms(1) have handle: "p_subscribers p (si_id (st_info th)) = Some \<lparr>sh_shutdown = a\<rparr>"
    by (auto simp: processor_inv_def)
  show ?thesis
    using assms(4)
    by (cases rule: remove_subscriber_cases [of p "si_id (st_info th)" h])
       (auto simp: cleanup_def Let_def handle flag_set_def)
qed

lemma accept_flags:
  assumes inv: "server_inv bc s" and flags: "server_flags s" and room: "p_next_id (sv_proc s) \<noteq> - 1"
    and step: "accept_step sd (sv_proc s) ev = Continue p'"
  shows "server_flags \<lparr>sv_proc = p', sv_threads = start_threads (sv_proc s) p' (sv_threads s)\<rparr>"
proof -
  have p: "processor_inv (sv_proc s)" using inv by (simp add: server_inv_def)
  from accept_cases [OF step p] show ?thesis
  proof (elim disjE exE)
    assume "p' = sv_proc s"
    with flags show ?thesis by (simp add: start_threads_same server_flags_def)
  next
    fix cmd
    assume p': "p' = snd (add_subscriber cmd (sv_proc s))"
    have same: "flag_set p' b = flag_set (sv_proc s) b" if "sv_threads s b \<noteq> None" for b
      using placed_below [OF inv that] by (simp add: p' add_flags)
    show ?thesis
    proof (cases "first_unknown (sv_proc s) cmd")
      case (Some t)
      then have "start_threads (sv_proc s) p' (sv_threads s) = sv_threads s"
        using add_subscriber_refused [OF p Some] by (simp add: start_threads_def p')
      with server_flags_proc [OF flags same] show ?thesis by (simp add: server_flags_def)
    next
      case None
      have "thread_flags p' (p_next_addr (sv_proc s)) (new_thread p' (last (p_spawned p')))"
        by (simp add: thread_flags_def new_thread_def p' add_flags)
      from server_flags_update [OF flags same this] show ?thesis
        by (simp add: added_thread(1) [OF p room p' None])
    qed
  qed
qed

lemma monitor_step_shutdown:
  "monitor_step bc m ev = Continue m' \<Longrightarrow> m_shutdown m' = m_shutdown m"
  "monitor_step bc m ev = Break (Panicked, m') \<Longrightarrow> m_shutdown m' = m_shutdown m"
  by (auto simp: monitor_step_def Let_def split: udp_event.splits sum.splits udp_message.splits
      if_splits option.splits)

lemma stream_flags:
  assumes "stream_step bc info (p, sent) err = Continue (p', sent')
    \<or> stream_step bc info (p, sent) err = Break (p', sent')"
  shows "flag_set p' b = flag_set p b"
  using stream_channels [OF assms] by (auto simp: flag_set_def)

lemma step_server_flags:
  assumes "server_step sd bc s e s'" "server_inv bc s" "server_flags s"
  shows "server_flags s'"
  using assms
proof (induction rule: server_step.induct)
  case (accept s ev p')
  then show ?case by (intro accept_flags) auto
next
  case (tick env t s g ch)
  then show ?case by (intro server_flags_proc) (simp_all add: flag_set_def)
next
  case (bind_failed s a th h e r p' sent)
  then have th: "processor_inv (sv_proc s)" "thread_ok bc (sv_proc s) a th" "unfinished th"
    by (auto simp: server_inv_def unfinished_def)
  have "p' = cleanup h th (sv_proc s)" using bind_failed(4) by (simp add: bind_failed_cleanup)
  with bind_failed th show ?case
    by (intro server_flags_update)
       (auto simp: cleanup_flags [OF th] thread_flags_def server_flags_def)
next
  case (clone_failed s a th h e r p' sent)
  then have "\<forall>b. flag_set p' b = flag_set (sv_proc s) b" "r = Panic"
    by (auto simp: start_streaming_def flag_set_def)
  with clone_failed show ?case
    by (intro server_flags_update) (auto simp: thread_flags_def server_flags_def)
next
  case (begin_streaming s a th start)
  then have "thread_flags (sv_proc s) a th" "unfinished th" "si_shutdown (st_info th) = a"
    by (auto simp: server_flags_def unfinished_def server_inv_def thread_ok_def thread_placed_def)
  then have "thread_flags (sv_proc s) a (th\<lparr>st_phase := Streaming,
      st_monitor := Some (new_monitor start (flag_set (sv_proc s) (si_shutdown (st_info th))))\<rparr>)"
    using begin_streaming(2) by (auto simp: thread_flags_def new_monitor_def)
  with server_flags_update [OF begin_streaming(4), of a "sv_proc s"] show ?case
    by (simp add: server_flags_def)
next
  case (begin_unmonitored s a th err start e m)
  then have "thread_flags (sv_proc s) a th" "unfinished th" "e = Panicked"
    by (auto simp: server_flags_def unfinished_def monitor_connection_def)
  then have "thread_flags (sv_proc s) a (th\<lparr>st_phase := Streaming, st_monitor := Some m, st_monitor_end := Some e\<rparr>)"
    using begin_unmonitored(2) by (auto simp: thread_flags_def)
  with server_flags_update [OF begin_unmonitored.prems(2), of a "sv_proc s"] show ?case
    by (simp add: server_flags_def)
next
  case (send_quote s a th err p' sent)
  then show ?case
    by (intro server_flags_update)
       (auto simp: stream_flags [OF disjI1 [OF send_quote(3)]] thread_flags_def server_flags_def)
next
  case (stop_streaming s a th err p' sent)
  then have th: "thread_ok bc (sv_proc s) a th" "unfinished th" "thread_flags (sv_proc s) a th"
    by (auto simp: server_inv_def unfinished_def server_flags_def)
  then have placed: "si_channel (st_info th) = a" "si_shutdown (st_info th) = a"
    "tx_alive (p_channels (sv_proc s)) a"
    by (simp_all add: thread_ok_def thread_placed_def thread_live_def)
  have "flag_set (sv_proc s) a" "p' = sv_proc s"
    using stream_break_flag [OF stop_streaming(3)] placed by simp_all
  with stop_streaming th placed show ?case
    by (intro server_flags_update) (auto simp: thread_flags_def)
next
  case (join_monitor s a th e h r p')
  let ?p = "set_flag (si_shutdown (st_info th)) (sv_proc s)"
  have ok: "thread_ok bc (sv_proc s) a th" "unfinished th" "processor_inv (sv_proc s)"
    using join_monitor by (auto simp: server_inv_def unfinished_def)
  then have th: "processor_inv ?p" "thread_ok bc ?p a th" "si_shutdown (st_info th) = a"
    by (auto simp: thread_ok_def thread_placed_def thread_live_def thread_quotes_def)
  have "p' = cleanup h th ?p" using join_monitor(5) by (simp add: stream_end_cleanup)
  with join_monitor th(3) show ?case
    by (intro server_flags_update)
       (auto simp: cleanup_flags [OF th(1,2) ok(2)] thread_flags_def server_flags_def)
next
  case (monitor s a th m ev m')
  then have "thread_flags (sv_proc s) a th" by (simp add: server_flags_def)
  then have "thread_flags (sv_proc s) a (th\<lparr>st_monitor := Some m'\<rparr>)"
    using monitor(2,3) monitor_step_shutdown(1) [OF monitor(4)] by (auto simp: thread_flags_def)
  with server_flags_update [OF monitor.prems(2), of a "sv_proc s"] show ?case
    by (simp add: server_flags_def)
next
  case (monitor_end s a th m ev e m')
  then have th: "thread_flags (sv_proc s) a th" "si_shutdown (st_info th) = a" "\<not> m_shutdown m"
    by (auto simp: server_flags_def server_inv_def thread_ok_def thread_placed_def thread_flags_def)
  have "m_shutdown m' \<Longrightarrow> e = Returned"
    using monitor_step_shutdown(2) [of bc m ev m'] monitor_end(4) th(3) by (cases e) auto
  with monitor_end th show ?case
    by (intro server_flags_update) (auto simp: thread_flags_def)
qed

lemma run_server_flags:
  "server_run sd bc s es s' \<Longrightarrow> server_inv bc s \<Longrightarrow> server_flags s \<Longrightarrow> server_flags s'"
  by (induction rule: server_run.induct) (auto intro: step_server_flags run_server_inv)

lemma new_server_flags: "server_flags (new_server p)"
  by (simp add: server_flags_def new_server_def)

section \<open>A thread that was told to stop\<close>

lemma server_run_one: "server_step sd bc s e s' \<Longrightarrow> server_run sd bc s [e] s'"
  using server_run.run_step [OF server_run.run_nil, of sd bc s e s'] by simp

lemma server_run_append:
  assumes "server_run sd bc s' fs s''" "server_run sd bc s es s'"
  shows "server_run sd bc s (es @ fs) s''"
  using assms
proof (induction rule: server_run.induct)
  case (run_step s1 fs s2 f s3)
  then show ?case using server_run.run_step [of sd bc s "es @ fs" s2 f s3] by simp
qed simp

lemma joining_finishes:
  assumes "server_inv bc s" "sv_threads s a = Some th" "st_phase th = JoiningMonitor"
    and "st_monitor_end th = Some e" "hash_order_ok h"
  shows "\<exists>s'. server_run sd bc s [JoinMonitor a h] s'
    \<and> sv_threads s' a = Some (th\<lparr>st_phase := Finished (Value (Inr ()))\<rparr>)"
proof -
  from server_run_one [OF server_step.join_monitor [OF assms(2,3,4,5) stream_end_cleanup]]
  show ?thesis by (intro exI conjI) auto
qed

lemma flagged_finishes:
  assumes inv: "server_inv bc s" and th: "sv_threads s a = Some th" "st_phase th = Streaming"
    and "st_monitor_end th = Some e" "hash_order_ok h" "flag_set (sv_proc s) a"
  shows "\<exists>s'. server_run sd bc s [SendQuote a None, JoinMonitor a h] s'
    \<and> sv_threads s' a = Some (th\<lparr>st_phase := Finished (Value (Inr ()))\<rparr>)"
proof -
  have "si_shutdown (st_info th) = a"
    using inv th(1) by (auto simp: server_inv_def thread_ok_def thread_placed_def)
  then have "stream_step bc (st_info th) (sv_proc s, st_sent th) None = Break (sv_proc s, st_sent th)"
    using assms(6) by (simp add: stream_step_flagged)
  note step = server_step.stop_streaming [OF th this]
  let ?s = "\<lparr>sv_proc = set_flag (si_shutdown (st_info th)) (sv_proc s),
    sv_threads = (sv_threads s)(a \<mapsto> th\<lparr>st_phase := JoiningMonitor, st_sent := st_sent th\<rparr>)\<rparr>"
  have inv': "server_inv bc ?s" using step_server_inv [OF step inv] .
  obtain s' where "server_run sd bc ?s [JoinMonitor a h] s'"
    "sv_threads s' a = Some (th\<lparr>st_phase := Finished (Value (Inr ()))\<rparr>)"
    using joining_finishes [OF inv', of a "th\<lparr>st_phase := JoiningMonitor, st_sent := st_sent th\<rparr>" e h sd]
      assms(4,5) by auto
  with server_run_append [OF this(1) server_run_one [OF step]] show ?thesis by auto
qed

text \<open>
  What a tick puts into a subscriber's channel its streaming thread sends, after everything
  that was already waiting there.
\<close>

lemma drain_queue:
  assumes "server_inv bc s" "sv_threads s a = Some th" "st_phase th = Streaming"
    and "\<not> flag_set (sv_proc s) a" "queue_at (p_channels (sv_proc s)) a = qs"
  shows "\<exists>s'. server_run sd bc s (replicate (length qs) (SendQuote a None)) s'
    \<and> sv_threads s' a = Some (th\<lparr>st_sent := st_sent th
        @ concat (map (\<lambda>q. datagrams_for bc (si_udp_addr (st_info th)) q None) qs)\<rparr>)
    \<and> queue_at (p_channels (sv_proc s')) a = []"
  using assms
proof (induction qs arbitrary: s th)
  case Nil
  then show ?case using server_run.run_nil [of sd bc s] by (intro exI [of _ s]) simp
next
  case (Cons q qs)
  have a: "si_shutdown (st_info th) = a" "si_channel (st_info th) = a"
    using Cons.prems(1,2) by (auto simp: server_inv_def thread_ok_def thread_placed_def)
  let ?p = "sv_proc s" and ?D = "datagrams_for bc (si_udp_addr (st_info th)) q None"
  let ?th = "th\<lparr>st_sent := st_sent th @ ?D\<rparr>"
  let ?s = "\<lparr>sv_proc = ?p\<lparr>p_channels := snd (chan_recv (p_channels ?p) a)\<rparr>,
    sv_threads = (sv_threads s)(a \<mapsto> ?th)\<rparr>"
  have "stream_step bc (st_info th) (?p, st_sent th) None =
      Continue (?p\<lparr>p_channels := snd (chan_recv (p_channels ?p) a)\<rparr>, st_sent th @ ?D)"
    using stream_step_received [of ?p "st_info th" q qs bc "st_sent th" None] Cons.prems(4,5) by (simp add: a)
  from server_step.send_quote [OF Cons.prems(2,3) this, where sd = sd]
  have step: "server_step sd bc s (SendQuote a None) ?s" by simp
  have "\<exists>s'. server_run sd bc ?s (replicate (length qs) (SendQuote a None)) s'
    \<and> sv_threads s' a = Some (?th\<lparr>st_sent := st_sent ?th
        @ concat (map (\<lambda>q. datagrams_for bc (si_udp_addr (st_info ?th)) q None) qs)\<rparr>)
    \<and> queue_at (p_channels (sv_proc s')) a = []"
    using Cons.prems by (intro Cons.IH step_server_inv [OF step]) (simp_all add: channel)
  with server_run_append [OF _ server_run_one [OF step]] show ?case by fastforce
qed

lemma tick_streams:
  assumes "server_run sd bc (new_server p) es s" "processor_inv p" "sv_threads s a = Some th"
    and "st_phase th = Streaming" "\<not> flag_set (sv_proc s) a" "t \<in> st_tickers th"
    and "hash_order_ok (te_order env)" "\<not> gen_shutdown (p_generator (sv_proc s))" "0 \<le> te_now env"
    and "prices (p_generator (sv_proc s)) t = Some data"
    and "waiting = queue_at (p_channels (sv_proc s)) a"
  shows "\<exists>s' q. server_run sd bc s (Tick t env # replicate (Suc (length waiting)) (SendQuote a None)) s'
    \<and> q_ticker q = t \<and> q_price q = generate_new_price (te_rng env) (pc_price data)
    \<and> sv_threads s' a = Some (th\<lparr>st_sent := st_sent th
        @ concat (map (\<lambda>q. datagrams_for bc (si_udp_addr (st_info th)) q None) (waiting @ [q]))\<rparr>)"
proof -
  let ?p = "sv_proc s"
  have inv: "server_inv bc s" using run_server_inv [OF assms(1) new_server_inv [OF assms(2)]] .
  then have p: "registry_inv (p_generator ?p)" "channels_distinct (p_generator ?p)"
    by (simp_all add: server_inv_def processor_inv_def generator_ok_def)
  have rec: "receivers (p_generator ?p) (thread_id th) = Some \<lparr>ri_channel = a, ri_tickers = st_tickers th\<rparr>"
    "rx_alive (p_channels ?p) a"
    using inv assms(3,4) by (auto simp: server_inv_def thread_ok_def thread_live_def unfinished_def)
  obtain q g ch where tick: "start_for_quote_step t (p_generator ?p, p_channels ?p, {}) env = Continue (g, ch, {})"
    and q: "q_ticker q = t" "q_price q = generate_new_price (te_rng env) (pc_price data)"
    and queues: "\<forall>b. queue_at ch b = (if (\<exists>i info. receivers (p_generator ?p) i = Some info
        \<and> t \<in> ri_tickers info \<and> ri_channel info = b) \<and> rx_alive (p_channels ?p) b
        then queue_at (p_channels ?p) b @ [q] else queue_at (p_channels ?p) b)"
    using tick_step [OF p assms(7,8,10,9), of "p_channels ?p"] by blast
  have "\<exists>i info. receivers (p_generator ?p) i = Some info \<and> t \<in> ri_tickers info \<and> ri_channel info = a"
    using rec(1) assms(6) by (intro exI [of _ "thread_id th"]) simp
  with queues rec(2) have queue: "queue_at ch a = waiting @ [q]" by (simp add: assms(11))
  let ?s = "s\<lparr>sv_proc := ?p\<lparr>p_generator := g, p_channels := ch\<rparr>\<rparr>"
  note step = server_step.tick [OF assms(7) tick, where sd = sd and bc = bc]
  obtain s' where "server_run sd bc ?s (replicate (length (waiting @ [q])) (SendQuote a None)) s'"
    "sv_threads s' a = Some (th\<lparr>st_sent := st_sent th
        @ concat (map (\<lambda>q. datagrams_for bc (si_udp_addr (st_info th)) q None) (waiting @ [q]))\<rparr>)"
    using drain_queue [OF step_server_inv [OF step inv], of a th "waiting @ [q]" sd] assms(3-5) queue
    by (auto simp: flag_set_def)
  with server_run_append [OF this(1) server_run_one [OF step]] q show ?thesis by (intro exI [of _ s'] exI [of _ q]) simp
qed

section \<open>Concrete inputs\<close>

definition example_server :: server where
  "example_server = \<lparr>sv_proc = subscribed_processor,
     sv_threads = [0 \<mapsto> new_thread subscribed_processor \<lparr>si_id = 0, si_channel = 0,
       si_udp_addr = (Ipv4 127 0 0 1, 8091), si_shutdown = 0\<rparr>]\<rparr>"

lemma example_accepted:
  "server_run strum_text reference_bincode (new_server example_processor)
     [Accept (AcceptConn \<lparr>avail = frame ''CMD|STREAM|UDP|127.0.0.1|8091|XYZ'',
        in_end = IoError UnexpectedEof None ''''\<rparr>
        \<lparr>written = [], room = None, out_end = IoError OtherKind None ''''\<rparr>)] example_server"
proof -
  let ?inp = "\<lparr>avail = frame ''CMD|STREAM|UDP|127.0.0.1|8091|XYZ'', in_end = IoError UnexpectedEof None ''''\<rparr>"
  have "serve strum_text ?inp example_processor = subscribed_processor"
    using example_request response_cases [OF example_processor_inv]
    by (simp add: serve_def subscribed_processor_def)
  then have "accept_step strum_text (sv_proc (new_server example_processor)) (AcceptConn ?inp
      \<lparr>written = [], room = None, out_end = IoError OtherKind None ''''\<rparr>) = Continue subscribed_processor"
    by (simp add: new_server_def accept_step_simps(2) [OF example_ids(5)])
  from server_step.accept [OF _ this] have "server_step strum_text reference_bincode (new_server example_processor)
      (Accept (AcceptConn ?inp \<lparr>written = [], room = None, out_end = IoError OtherKind None ''''\<rparr>))
      \<lparr>sv_proc = subscribed_processor,
       sv_threads = start_threads example_processor subscribed_processor Map.empty\<rparr>"
    by (simp add: new_server_def example_ids)
  moreover have "start_threads example_processor subscribed_processor Map.empty = sv_threads example_server"
    using added_thread(1) [OF example_processor_inv example_ids(3) subscribed_processor_def example_known(1)]
    by (simp add: example_server_def example_ids subscribed_processor_facts)
  ultimately show ?thesis
    using server_run_one by (simp add: example_server_def)
qed


definition example_thread :: stream_thread where
  "example_thread = (new_thread subscribed_processor \<lparr>si_id = 0, si_channel = 0,
     si_udp_addr = (Ipv4 127 0 0 1, 8091), si_shutdown = 0\<rparr>)
     \<lparr>st_phase := Streaming, st_monitor := Some (new_monitor 0 False)\<rparr>"

definition streaming_server :: server where
  "streaming_server = \<lparr>sv_proc = subscribed_processor, sv_threads = [0 \<mapsto> example_thread]\<rparr>"

lemma example_streaming:
  "\<exists>es. server_run strum_text reference_bincode (new_server example_processor) es streaming_server
    \<and> (\<forall>a ev. MonitorEvent a ev \<notin> set es)"
proof -
  let ?info = "\<lparr>si_id = 0, si_channel = 0, si_udp_addr = (Ipv4 127 0 0 1, 8091), si_shutdown = 0\<rparr>"
  have th: "sv_threads example_server 0 = Some (new_thread subscribed_processor ?info)"
    "st_phase (new_thread subscribed_processor ?info) = Spawned"
    by (simp_all add: example_server_def new_thread_def)
  have clear: "\<not> flag_set subscribed_processor 0" by (simp add: flag_set_def subscribed_processor_facts)
  have "server_step strum_text reference_bincode example_server (Begin 0 0) streaming_server"
    using server_step.begin_streaming [OF th, of strum_text reference_bincode 0] clear
    by (simp add: example_server_def streaming_server_def example_thread_def new_thread_def)
  from server_run_append [OF server_run_one [OF this] example_accepted] show ?thesis by fastforce
qed

lemma example_running:
  "prices (p_generator subscribed_processor) ''XYZ'' = Some \<lparr>pc_price = MIN_PRICE, pc_last_change = 0\<rparr>"
  "\<not> gen_shutdown (p_generator subscribed_processor)"
  using add_subscriber_generator [OF example_processor_inv, of example_command]
  by (simp_all add: subscribed_processor_def example_processor_def example_generator_facts)

lemma example_thread_facts:
  "sv_threads streaming_server 0 = Some example_thread" "st_phase example_thread = Streaming"
  "st_tickers example_thread = {''XYZ''}" "st_sent example_thread = []"
  "si_udp_addr (st_info example_thread) = (Ipv4 127 0 0 1, 8091)"
  "\<not> flag_set (sv_proc streaming_server) 0"
  "[] = queue_at (p_channels (sv_proc streaming_server)) 0"
proof -
  have "subscribed (p_generator subscribed_processor) 0 t \<longleftrightarrow> t = ''XYZ''" for t
    using add_subscriber_subs [OF example_processor_inv example_known(1)]
    by (simp add: subscribed_processor_def example_ids example_command_def)
  moreover have "t \<in> st_tickers example_thread \<longleftrightarrow> subscribed (p_generator subscribed_processor) 0 t" for t
    by (simp add: example_thread_def new_thread_def subscribed_def split: option.splits)
  ultimately show "st_tickers example_thread = {''XYZ''}" by blast
  show "[] = queue_at (p_channels (sv_proc streaming_server)) 0"
    using add_subscriber_subs [OF example_processor_inv example_known(1)]
    by (simp only: streaming_server_def server.simps subscribed_processor_def example_ids new_channel_effect refl if_True)
  show "sv_threads streaming_server 0 = Some example_thread" by (simp add: streaming_server_def)
  show "\<not> flag_set (sv_proc streaming_server) 0"
    by (simp add: streaming_server_def flag_set_def subscribed_processor_facts(3))
qed (simp_all add: example_thread_def new_thread_def)

lemma example_tick_facts:
  "hash_order_ok (te_order example_env)" "\<not> gen_shutdown (p_generator (sv_proc streaming_server))"
  "0 \<le> te_now example_env" "prices (p_generator (sv_proc streaming_server)) ''XYZ'' =
     Some \<lparr>pc_price = MIN_PRICE, pc_last_change = 0\<rparr>"
  by (simp_all add: streaming_server_def example_running sorted_order_ok)

lemma run_dom:
  "server_run sd bc s es s' \<Longrightarrow> (\<forall>ev. Accept ev \<notin> set es) \<Longrightarrow> dom (sv_threads s') = dom (sv_threads s)"
proof (induction rule: server_run.induct)
  case (run_step s es s' e s'')
  from run_step(2) have "(\<forall>ev. e \<noteq> Accept ev) \<Longrightarrow> dom (sv_threads s'') = dom (sv_threads s')"
    by (induction rule: server_step.induct) auto
  with run_step show ?case by auto
qed simp

lemma example_quote_sent:
  "\<exists>es s q. server_run strum_text reference_bincode (new_server example_processor) es s
    \<and> sv_threads s 0 = Some (example_thread\<lparr>st_sent :=
        [((Ipv4 127 0 0 1, 8091), write_udp (Quote q))]\<rparr>) \<and> q_ticker q = ''XYZ''
    \<and> (\<forall>a ev. MonitorEvent a ev \<notin> set es) \<and> dom (sv_threads s) = {0}"
proof -
  note th = example_thread_facts
  obtain es where run: "server_run strum_text reference_bincode (new_server example_processor) es streaming_server"
    "\<forall>a ev. MonitorEvent a ev \<notin> set es" using example_streaming by blast
  have ticker: "''XYZ'' \<in> st_tickers example_thread" by (simp add: th(3))
  obtain s' q where s': "server_run strum_text reference_bincode streaming_server
      (Tick ''XYZ'' example_env # replicate (Suc (length ([] :: stock_quote list))) (SendQuote 0 None)) s'"
    "q_ticker q = ''XYZ''" "sv_threads s' 0 = Some (example_thread\<lparr>st_sent := st_sent example_thread
      @ concat (map (\<lambda>q. datagrams_for reference_bincode (si_udp_addr (st_info example_thread)) q None) ([] @ [q]))\<rparr>)"
    using tick_streams [OF run(1) example_processor_inv th(1,2,6) ticker example_tick_facts th(7)] by blast
  have "quote_fits q" by (simp add: quote_fits_def s'(2))
  then have "sv_threads s' 0 = Some (example_thread\<lparr>st_sent := [((Ipv4 127 0 0 1, 8091), write_udp (Quote q))]\<rparr>)"
    using s'(3) by (simp add: th(4,5) datagrams_for_def del: write_udp.simps)
  moreover have "dom (sv_threads s') = {0}"
    using run_dom [OF s'(1)] by (simp add: streaming_server_def)
  moreover have "\<forall>a ev. MonitorEvent a ev \<notin> set (es @ Tick ''XYZ'' example_env
      # replicate (Suc (length ([] :: stock_quote list))) (SendQuote 0 None))"
    using run(2) by simp
  ultimately show ?thesis
    using server_run_append [OF s'(1) run(1)] s'(2) by blast
qed

section \<open>Properties\<close>

text \<open>
  Claim C11. A subscription and its streaming thread, between any two operations of the
  server. Until the thread is finished its subscriber has a handle, is registered for exactly
  the tickers that were asked for, and its channel is connected at both ends, so no quote is
  lost and the thread never sees a disconnection. A thread that has returned did so without an
  error and leaves no handle and no registration. A thread that panicked, as the code does
  when the socket cannot be cloned, has left its handle, whatever has happened since, and of
  its registration everything or, once a tick has met the closed channel, nothing. As every
  operation takes effect in one step here, the two registries of the generator agree.
\<close>

theorem subscription_follows_thread:
  assumes "server_run sd bc (new_server p) es s" "processor_inv p" "sv_threads s a = Some th"
  shows "registry_inv (p_generator (sv_proc s))
    \<and> (case st_phase th of
         Finished (Value r) \<Rightarrow> r = Inr () \<and> \<not> rx_alive (p_channels (sv_proc s)) a
           \<and> p_subscribers (sv_proc s) (si_id (st_info th)) = None
           \<and> (\<forall>t. \<not> listed (p_generator (sv_proc s)) (si_id (st_info th)) t)
       | Finished Panic \<Rightarrow> \<not> rx_alive (p_channels (sv_proc s)) a
           \<and> p_subscribers (sv_proc s) (si_id (st_info th)) \<noteq> None
           \<and> ((\<forall>t. listed (p_generator (sv_proc s)) (si_id (st_info th)) t \<longleftrightarrow> t \<in> st_tickers th)
              \<or> (\<forall>t. \<not> listed (p_generator (sv_proc s)) (si_id (st_info th)) t))
       | _ \<Rightarrow> p_subscribers (sv_proc s) (si_id (st_info th)) \<noteq> None
           \<and> (\<forall>t. listed (p_generator (sv_proc s)) (si_id (st_info th)) t \<longleftrightarrow> t \<in> st_tickers th)
           \<and> rx_alive (p_channels (sv_proc s)) a \<and> tx_alive (p_channels (sv_proc s)) a)"
proof -
  have inv: "server_inv bc s" using run_server_inv [OF assms(1) new_server_inv [OF assms(2)]] .
  then have th: "thread_ok bc (sv_proc s) a th" and p: "processor_inv (sv_proc s)"
    using assms(3) by (simp_all add: server_inv_def)
  from p have reg: "registry_inv (p_generator (sv_proc s))" by (simp add: processor_inv_def generator_ok_def)
  then have listed: "listed (p_generator (sv_proc s)) i t \<longleftrightarrow> subscribed (p_generator (sv_proc s)) i t" for i t
    by (simp add: registry_inv_def)
  show ?thesis
  proof (cases "unfinished th")
    case True
    with th receiver_handle [OF p] have "p_subscribers (sv_proc s) (si_id (st_info th)) \<noteq> None"
      by (auto simp: thread_ok_def thread_live_def thread_id_def)
    with True th reg show ?thesis
      by (cases "st_phase th")
         (auto simp: listed thread_ok_def thread_live_def subscribed_def thread_id_def unfinished_def)
  next
    case False
    then obtain r where r: "st_phase th = Finished r" by (auto simp: unfinished_def)
    have "\<not> subscribed (p_generator (sv_proc s)) i t" if "p_subscribers (sv_proc s) i = None" for i t
      using p that by (auto simp: processor_inv_def subscribed_def split: option.splits)
    with th reg r False show ?thesis
      by (cases r) (auto simp: listed thread_ok_def thread_live_def thread_id_def subscribed_def)
  qed
qed

theorem subscription_follows_thread_witness:
  "listed (p_generator (sv_proc example_server)) 0 ''XYZ'' \<and> rx_alive (p_channels (sv_proc example_server)) 0"
proof -
  let ?info = "\<lparr>si_id = 0, si_channel = 0, si_udp_addr = (Ipv4 127 0 0 1, 8091), si_shutdown = 0\<rparr>"
  have th: "sv_threads example_server 0 = Some (new_thread subscribed_processor ?info)"
    by (simp add: example_server_def)
  have "''XYZ'' \<in> st_tickers (new_thread subscribed_processor ?info)"
    using subscribed_processor_facts(2) by (auto simp: new_thread_def subscribed_def split: option.splits)
  with subscription_follows_thread [OF example_accepted example_processor_inv th] show ?thesis
    by (simp add: new_thread_def)
qed

text \<open>
  Claim C27. Only a monitor that gave its subscriber up stops a streaming thread. While the
  monitor runs, and for ever when it has panicked, its flag is clear and the next iteration
  of its streaming thread goes on whatever it receives; and a thread that has left its loop
  never waits for its monitor: that one has already returned.
\<close>

theorem only_monitor_stops_streaming:
  assumes "server_run sd bc (new_server p) es s" "processor_inv p" "sv_threads s a = Some th"
  shows "(st_phase th = Streaming \<and> st_monitor_end th \<noteq> Some Returned \<longrightarrow>
        (\<exists>p' sent. stream_step bc (st_info th) (sv_proc s, st_sent th) err = Continue (p', sent)))
    \<and> (st_phase th = JoiningMonitor \<longrightarrow> st_monitor_end th = Some Returned)"
proof -
  have inv: "server_inv bc s" using run_server_inv [OF assms(1) new_server_inv [OF assms(2)]] .
  have flags: "server_flags s"
    using run_server_flags [OF assms(1) new_server_inv [OF assms(2)] new_server_flags] .
  have th: "thread_ok bc (sv_proc s) a th" "thread_flags (sv_proc s) a th"
    using inv flags assms(3) by (simp_all add: server_inv_def server_flags_def)
  show ?thesis
  proof (intro conjI impI)
    assume run: "st_phase th = Streaming \<and> st_monitor_end th \<noteq> Some Returned"
    then have "\<not> flag_set (sv_proc s) (si_shutdown (st_info th))"
      "tx_alive (p_channels (sv_proc s)) (si_channel (st_info th))"
      using th by (auto simp: thread_flags_def unfinished_def thread_ok_def thread_live_def thread_placed_def)
    then show "\<exists>p' sent. stream_step bc (st_info th) (sv_proc s, st_sent th) err = Continue (p', sent)"
      using stream_break_flag [of bc "st_info th" "sv_proc s" "st_sent th" err]
      by (cases "stream_step bc (st_info th) (sv_proc s, st_sent th) err") (auto simp: split_paired_all)
  next
    assume "st_phase th = JoiningMonitor"
    then show "st_monitor_end th = Some Returned"
      using th by (auto simp: thread_flags_def unfinished_def thread_ok_def thread_live_def)
  qed
qed


theorem only_monitor_stops_streaming_witness:
  "\<exists>p' sent. stream_step reference_bincode (st_info example_thread)
     (sv_proc streaming_server, st_sent example_thread) None = Continue (p', sent)"
proof -
  obtain es where run: "server_run strum_text reference_bincode (new_server example_processor) es streaming_server"
    using example_streaming by blast
  have "sv_threads streaming_server 0 = Some example_thread" by (simp add: streaming_server_def)
  with only_monitor_stops_streaming [OF run example_processor_inv this, of None] show ?thesis
    by (simp add: example_thread_def new_thread_def)
qed

text \<open>
  Claim C17. The server's main function: it runs, and whatever connections and accept errors
  follow it keeps running with its registries in agreement, exactly when the tickers file can
  be opened, read and decoded and the port be listened on; otherwise the process ends at once,
  with exit code 1. The end of \<open>start_tcp_server\<close> without an error, and the exit code 0, do
  not occur: nothing sets the flag that would end the accept loop. Without options the port is
  8090 and the file \<open>src/data/tickers.txt\<close>.
\<close>

theorem server_main_outcome:
  assumes "\<forall>i. rng_ok (rngs i)" "length events < 2 ^ 64"
  shows "case new_from_file rngs (files (sa_tickers_file args)) of
      Inl e \<Rightarrow> server_main sd rngs args files bind nonblocking events = Break 1
    | Inr g \<Rightarrow> if bind (sa_port args) = Inr () \<and> nonblocking = Inr ()
        then \<exists>p. server_main sd rngs args files bind nonblocking events = Continue p
          \<and> processor_inv p \<and> \<not> p_shutdown p
        else server_main sd rngs args files bind nonblocking events = Break 1"
proof (cases "new_from_file rngs (files (sa_tickers_file args))")
  case (Inl e)
  then show ?thesis by (simp add: server_main_def new_processor_def)
next
  case (Inr g)
  then obtain p where p: "new_processor (sa_port args) rngs (files (sa_tickers_file args)) = Inr p"
    "processor_inv p" "p_next_id p = 0" "\<not> p_shutdown p" "p_port p = sa_port args"
    using new_processor_ok [OF assms(1), of "sa_port args" "files (sa_tickers_file args)"] by auto
  then obtain p' where "start_tcp_server sd (Inr ()) (Inr ()) p events = Continue p'"
    "processor_inv p'" "\<not> p_shutdown p'"
    using server_keeps_serving [of p events sd] assms(2) by auto
  with p Inr show ?thesis
    by (cases "bind (sa_port args)"; cases nonblocking) (auto simp: server_main_def start_tcp_server_def)
qed

theorem server_main_outcome_witness:
  "sa_port (server_defaults None None) = 8090
   \<and> (\<exists>p. server_main strum_text (\<lambda>_. low_rng) (server_defaults None None)
       (\<lambda>f. if f = ''src/data/tickers.txt'' then Inr ([], None) else Inl (IoError OtherKind None ''gone''))
       (\<lambda>port. if port = 8090 then Inr () else Inl (IoError OtherKind None ''taken'')) (Inr ())
       [AcceptErr (IoError WouldBlock None ''''),
        AcceptConn \<lparr>avail = [1, 2], in_end = IoError UnexpectedEof None ''''\<rparr>
          \<lparr>written = [], room = Some 0, out_end = IoError OtherKind None ''''\<rparr>] = Continue p
     \<and> processor_inv p)
   \<and> server_main strum_text (\<lambda>_. low_rng) (server_defaults (Some 80) None)
       (\<lambda>f. if f = ''src/data/tickers.txt'' then Inr ([], None) else Inl (IoError OtherKind None ''gone''))
       (\<lambda>port. if port = 8090 then Inr () else Inl (IoError OtherKind None ''taken'')) (Inr ()) [] = Break 1"
proof -
  let ?files = "\<lambda>f. if f = ''src/data/tickers.txt'' then Inr ([], None) else Inl (IoError OtherKind None ''gone'')"
  let ?bind = "\<lambda>port :: u16. if port = 8090 then Inr () else Inl (IoError OtherKind None ''taken'')"
  have "new_from_file (\<lambda>_. low_rng) (?files (sa_tickers_file (server_defaults port None))) =
      Inr (new_generator (\<lambda>_. low_rng) [])" for port
    by (simp add: server_defaults_def new_from_file_def buf_lines_def)
  moreover have "sa_port (server_defaults None None) = 8090" "sa_port (server_defaults (Some 80) None) = 80"
    by (simp_all add: server_defaults_def Server.MASTER_TCP_PORT_def)
  ultimately show ?thesis
    using server_main_outcome [where rngs = "\<lambda>_. low_rng" and sd = strum_text and files = ?files and bind = ?bind
        and nonblocking = "Inr ()" and args = "server_defaults None None" and events = "[AcceptErr (IoError WouldBlock None ''''),
        AcceptConn \<lparr>avail = [1, 2], in_end = IoError UnexpectedEof None ''''\<rparr>
          \<lparr>written = [], room = Some 0, out_end = IoError OtherKind None ''''\<rparr>]"]
      server_main_outcome [where rngs = "\<lambda>_. low_rng" and sd = strum_text and files = ?files and bind = ?bind
        and nonblocking = "Inr ()" and args = "server_defaults (Some 80) None" and events = "[]"]
    by (auto simp: low_rng_ok)
qed

text \<open>
  Claim C12. A silent subscriber is removed. From every reachable state, when the monitor
  of a streaming subscriber gets a read timeout more than 5 s after the last ping (15 s
  after its start without one), three steps that nothing can block, one each of the
  monitor and of the streaming thread's loop and its return, end the thread; afterwards the
  subscriber has no handle and no subscription, its channel is closed, and every other
  subscriber keeps its subscriptions.
\<close>

theorem silent_subscriber_removed:
  assumes "server_run sd bc (new_server p) es s" "processor_inv p" "sv_threads s a = Some th"
    and "st_phase th = Streaming" "st_monitor th = Some m" "st_monitor_end th = None" "is_timeout e"
    and "case m_last_ping m of Some t \<Rightarrow> t + 5000000000 < now | None \<Rightarrow> m_start_time m + 15000000000 < now"
    and "hash_order_ok h"
  shows "\<exists>s'. server_run sd bc s [MonitorEvent a (RecvErr e now), SendQuote a None, JoinMonitor a h] s'
    \<and> p_subscribers (sv_proc s') (si_id (st_info th)) = None
    \<and> \<not> rx_alive (p_channels (sv_proc s')) a
    \<and> (\<forall>i t. subscribed (p_generator (sv_proc s')) i t =
         (i \<noteq> si_id (st_info th) \<and> subscribed (p_generator (sv_proc s)) i t))"
proof -
  have inv: "server_inv bc s" using run_server_inv [OF assms(1) new_server_inv [OF assms(2)]] .
  have a: "si_shutdown (st_info th) = a" "si_channel (st_info th) = a"
    using inv assms(3) by (auto simp: server_inv_def thread_ok_def thread_placed_def)
  have "monitor_step bc m (RecvErr e now) = Break (Returned, m\<lparr>m_shutdown := True\<rparr>)"
    using assms(7,8) by (simp add: monitor_error gone_silent_def)
  note gave_up = server_step.monitor_end [OF assms(3,5,6) this, where sd = sd]
  let ?th1 = "th\<lparr>st_monitor := Some (m\<lparr>m_shutdown := True\<rparr>), st_monitor_end := Some Returned\<rparr>"
  let ?p1 = "set_flag a (sv_proc s)"
  let ?s1 = "\<lparr>sv_proc = ?p1, sv_threads = (sv_threads s)(a \<mapsto> ?th1)\<rparr>"
  have gave_up: "server_step sd bc s (MonitorEvent a (RecvErr e now)) ?s1" using gave_up by (simp add: a)
  have "stream_step bc (st_info ?th1) (sv_proc ?s1, st_sent ?th1) None = Break (?p1, st_sent ?th1)"
    by (simp add: stream_step_flagged a)
  note stopped = server_step.stop_streaming [OF _ _ this, where sd = sd and a = a]
  let ?th2 = "?th1\<lparr>st_phase := JoiningMonitor, st_sent := st_sent ?th1\<rparr>"
  let ?s2 = "\<lparr>sv_proc = set_flag a ?p1, sv_threads = (sv_threads ?s1)(a \<mapsto> ?th2)\<rparr>"
  have stopped: "server_step sd bc ?s1 (SendQuote a None) ?s2" using stopped assms(4) by (simp add: a)
  let ?s3 = "\<lparr>sv_proc = cleanup h ?th2 (set_flag a (set_flag a ?p1)),
    sv_threads = (sv_threads ?s2)(a \<mapsto> ?th2\<lparr>st_phase := Finished (Value (Inr ()))\<rparr>)\<rparr>"
  have joined: "server_step sd bc ?s2 (JoinMonitor a h) ?s3"
    using server_step.join_monitor [OF _ _ _ assms(9) stream_end_cleanup, of ?s2 a ?th2 Returned sd bc]
    by (simp add: a)
  have run: "server_run sd bc s [MonitorEvent a (RecvErr e now), SendQuote a None, JoinMonitor a h] ?s3"
    using server_run_append [OF server_run_append [OF server_run_one [OF joined] server_run_one [OF stopped]]
        server_run_one [OF gave_up]] by simp
  have "processor_inv (set_flag a (set_flag a ?p1))" using inv by (simp add: server_inv_def)
  note removed = remove_subscriber_subs [OF this assms(9)]
  show ?thesis
    by (intro exI conjI, rule run) (simp_all add: cleanup_def Let_def removed channel a)
qed

theorem silent_subscriber_removed_witness:
  "\<exists>s'. server_run strum_text reference_bincode streaming_server
      [MonitorEvent 0 (RecvErr (IoError WouldBlock None '''') 15000000001), SendQuote 0 None,
       JoinMonitor 0 sorted_order] s'
    \<and> \<not> subscribed (p_generator (sv_proc s')) 0 ''XYZ''"
proof -
  obtain es where run: "server_run strum_text reference_bincode (new_server example_processor) es streaming_server"
    using example_streaming by blast
  have th: "sv_threads streaming_server 0 = Some example_thread" "st_phase example_thread = Streaming"
    "st_monitor example_thread = Some (new_monitor 0 False)" "st_monitor_end example_thread = None"
    "is_timeout (IoError WouldBlock None '''')" "si_id (st_info example_thread) = 0"
    by (simp_all add: streaming_server_def example_thread_def new_thread_def is_timeout_def)
  have late: "case m_last_ping (new_monitor 0 False) of Some t \<Rightarrow> t + 5000000000 < 15000000001
      | None \<Rightarrow> m_start_time (new_monitor 0 False) + 15000000000 < 15000000001"
    by (simp add: new_monitor_def)
  from silent_subscriber_removed [OF run example_processor_inv th(1-5) late sorted_order_ok] th(6)
  show ?thesis by auto
qed

end
