(* ===== verification/Locks.thy ===== *)
theory Locks
  imports Prelude
begin

text \<open>
  The locks of the server: the mutex around the generator and the four read-write locks
  inside it and in the processor (\<open>parking_lot\<close>). A thread goes through critical sections;
  each section acquires one lock, and some are entered while guards of earlier sections
  are still alive. This theory states when such threads cannot deadlock; \<open>Sections\<close>
  models the code's sections.
\<close>

section \<open>The locks\<close>

datatype lock =
    GeneratorLock
  | SubscribersLock
  | TickersLock
  | ReceiversLock
  | PricesLock

text \<open>The order in which the code nests them: a later one may be taken inside an earlier one.\<close>

definition lock_level :: "lock \<Rightarrow> nat" where
  "lock_level l = (case l of GeneratorLock \<Rightarrow> 0 | SubscribersLock \<Rightarrow> 1 | TickersLock \<Rightarrow> 2
     | ReceiversLock \<Rightarrow> 3 | PricesLock \<Rightarrow> 4)"

lemma lock_level_inject: "lock_level l = lock_level k \<Longrightarrow> l = k"
  by (cases l; cases k) (simp_all add: lock_level_def)

instantiation lock :: linorder
begin

definition less_eq_lock :: "lock \<Rightarrow> lock \<Rightarrow> bool" where
  "less_eq_lock l k = (lock_level l \<le> lock_level k)"

definition less_lock :: "lock \<Rightarrow> lock \<Rightarrow> bool" where
  "less_lock l k = (lock_level l < lock_level k)"

instance
  by standard (auto simp: less_eq_lock_def less_lock_def dest: lock_level_inject)

end

instance lock :: finite
proof
  have "UNIV = {GeneratorLock, SubscribersLock, TickersLock, ReceiversLock, PricesLock}"
    using lock.exhaust by auto
  then show "finite (UNIV :: lock set)" by (metis finite.emptyI finite_insert)
qed

text \<open>A read guard, or a write or mutex guard.\<close>

datatype lock_mode = Shared | Exclusive

definition conflict :: "lock_mode \<Rightarrow> lock_mode \<Rightarrow> bool" where
  "conflict m n \<longleftrightarrow> m = Exclusive \<or> n = Exclusive"

section \<open>Threads in critical sections\<close>

text \<open>
  A thread at program point \<open>p\<close> keeps the guards \<open>kept p\<close> of earlier sections and takes,
  or inside the section has taken, the lock \<open>acquires p\<close>.
\<close>

definition guards :: "('p \<Rightarrow> ('l \<times> lock_mode) option) \<Rightarrow> ('p \<Rightarrow> ('l \<times> lock_mode) list)
    \<Rightarrow> bool \<Rightarrow> 'p \<Rightarrow> ('l \<times> lock_mode) list" where
  "guards acquires kept within p =
     (case acquires p of Some l \<Rightarrow> if within then l # kept p else kept p | None \<Rightarrow> kept p)"

locale lock_hierarchy =
  fixes acquires :: "'p \<Rightarrow> ('l :: {linorder, finite} \<times> lock_mode) option"
    and kept :: "'p \<Rightarrow> ('l \<times> lock_mode) list"
  assumes ordered: "(k, n) \<in> set (kept p) \<Longrightarrow> \<exists>l m. acquires p = Some (l, m) \<and> k < l"
begin

lemma guard_cases:
  assumes "(l, m) \<in> set (guards acquires kept within p)"
  obtains "within" "acquires p = Some (l, m)"
  | k n where "acquires p = Some (k, n)" "l < k"
  using assms ordered [of l m p]
  by (auto simp: guards_def split: option.splits if_splits)

text \<open>
  If some thread is at a section, some thread can go on: it is inside its section, or no
  guard of the lock it waits for is alive and, if it waits to read, nobody waits to write
  (a waiting writer holds back new readers). Whoever waits for the greatest lock
  that is waited for is such a thread, unless a thread is inside a section.
\<close>

lemma some_can_go_on:
  assumes "points x = Some p" "acquires p \<noteq> None"
  shows "\<exists>y q l m. points y = Some q \<and> acquires q = Some (l, m) \<and> (y \<in> inside
    \<or> (\<forall>z r n. points z = Some r \<longrightarrow> (l, n) \<notin> set (guards acquires kept (z \<in> inside) r))
       \<and> (m = Shared \<longrightarrow> (\<forall>z r. points z = Some r \<longrightarrow> z \<notin> inside \<longrightarrow> acquires r \<noteq> Some (l, Exclusive))))"
proof (rule ccontr)
  assume none: "\<not> ?thesis"
  define W where "W = {l. \<exists>y q m. points y = Some q \<and> acquires q = Some (l, m)}"
  have outside: "y \<notin> inside" if "points y = Some q" "acquires q = Some (l, m)" for y q l m
    using none that by blast
  have "W \<noteq> {}" using assms by (auto simp: W_def)
  then have "Max W \<in> W" by (simp add: Max_in)
  moreover have least: "(Max W, n) \<notin> set (guards acquires kept (z \<in> inside) r)"
    if "points z = Some r" for z r n
  proof
    assume "(Max W, n) \<in> set (guards acquires kept (z \<in> inside) r)"
    then show False
    proof (cases rule: guard_cases)
      case 1
      with that outside show ?thesis by blast
    next
      case (2 k n')
      with that have "k \<in> W" by (auto simp: W_def)
      with 2 show ?thesis by (meson Max_ge finite not_less)
    qed
  qed
  ultimately obtain y q m where y: "points y = Some q" "acquires q = Some (Max W, m)"
    by (auto simp: W_def)
  show False
  proof (cases "\<exists>z r. points z = Some r \<and> acquires r = Some (Max W, Exclusive)")
    case True
    with none least show ?thesis by blast
  next
    case False
    with none least y show ?thesis by blast
  qed
qed

end

end
