(* ===== verification/Sections.thy ===== *)
theory Sections
  imports Locks Processor
begin

text \<open>
  \<open>add_subscriber\<close>, \<open>add_receiver\<close>, \<open>remove_subscriber\<close>, \<open>remove_receiver\<close> and
  \<open>start_for_quote\<close> cut into their critical sections: what the code does between taking a
  lock and taking the next one is one section, and the sections of different threads
  interleave. \<open>Processor\<close> and \<open>Generator\<close> have the same operations in one piece; run
  without interruption the sections compute the same. A section is one step even where its
  lock is only shared: \<open>SendQuotes\<close> sends to all its receivers at once, though in the code
  two ticker threads may hold the read lock together and mix their sends, and a streaming
  thread may receive in between. It only touches channels there, and every single channel
  still gets its quotes one at a time.
\<close>

section \<open>Program points\<close>

text \<open>
  What is left to do once \<open>remove_receiver\<close> returns: the end of a streaming thread, or the
  removal of the other dead receivers a ticker thread has met.
\<close>

datatype after_removal =
    EndOfStream subscriber_info
  | NextDead string "u64 list"

text \<open>
  The thread that handles a request takes no lock after it has spawned the streaming
  thread; the two share one entry, so \<open>StreamLoop\<close> follows \<open>AddHandle\<close>. \<open>StreamLoop\<close> is
  the loop of \<open>start_streaming\<close>, \<open>TickStart\<close> the head of the loop of \<open>start_for_quote\<close>.
\<close>

datatype point =
    AddEnter subscriber_info "string list"
  | AddCheck subscriber_info "string list"
  | AddInsert subscriber_info "string list"
  | AddSubscribe subscriber_info "string list"
  | AddHandle subscriber_info
  | StreamLoop subscriber_info
  | TakeHandle subscriber_info
  | RaiseShutdown subscriber_info subscriber_handle
  | CloneRegistries subscriber_info
  | ReadReceiver u64 after_removal
  | RemoveReceiver u64 "string list" after_removal
  | Unsubscribe u64 "string list" after_removal
  | TickStart string
  | ReadPrice string
  | WritePrice string f64 u64
  | CopyIds string stock_quote
  | SendQuotes string stock_quote "u64 list"
  | Ended

text \<open>
  The lock a section takes, and the guards of earlier sections that are still alive: the
  generator's mutex during \<open>add_receiver\<close>, and its read guard of the tickers until the
  receiver is inserted. Every other guard dies in its own section.
\<close>

fun section_lock :: "point \<Rightarrow> (lock \<times> lock_mode) option" where
  "section_lock (AddEnter info ts) = Some (GeneratorLock, Exclusive)"
| "section_lock (AddCheck info ts) = Some (TickersLock, Shared)"
| "section_lock (AddInsert info ts) = Some (ReceiversLock, Exclusive)"
| "section_lock (AddSubscribe info ts) = Some (TickersLock, Exclusive)"
| "section_lock (AddHandle info) = Some (SubscribersLock, Exclusive)"
| "section_lock (TakeHandle info) = Some (SubscribersLock, Exclusive)"
| "section_lock (CloneRegistries info) = Some (GeneratorLock, Exclusive)"
| "section_lock (ReadReceiver i k) = Some (ReceiversLock, Shared)"
| "section_lock (RemoveReceiver i ts k) = Some (ReceiversLock, Exclusive)"
| "section_lock (Unsubscribe i ts k) = Some (TickersLock, Exclusive)"
| "section_lock (ReadPrice t) = Some (PricesLock, Shared)"
| "section_lock (WritePrice t price now) = Some (PricesLock, Exclusive)"
| "section_lock (CopyIds t q) = Some (TickersLock, Shared)"
| "section_lock (SendQuotes t q ids) = Some (ReceiversLock, Shared)"
| "section_lock _ = None"

fun kept_guards :: "point \<Rightarrow> (lock \<times> lock_mode) list" where
  "kept_guards (AddCheck info ts) = [(GeneratorLock, Exclusive)]"
| "kept_guards (AddInsert info ts) = [(GeneratorLock, Exclusive), (TickersLock, Shared)]"
| "kept_guards (AddSubscribe info ts) = [(GeneratorLock, Exclusive)]"
| "kept_guards _ = []"

section \<open>The sections\<close>

text \<open>
  \<open>begin_request\<close> is the part of \<open>add_subscriber\<close> before its first lock. The receiving end
  of the channel is dropped when the streaming thread returns.
\<close>

definition begin_request :: "subscribe_command \<Rightarrow> processor \<Rightarrow> point \<times> processor" where
  "begin_request cmd p =
     (AddEnter \<lparr>si_id = p_next_id p, si_channel = p_next_addr p,
                si_udp_addr = (sc_ip cmd, sc_port cmd), si_shutdown = p_next_addr p\<rparr> (sc_tickers cmd),
      p\<lparr>p_next_id := p_next_id p + 1, p_next_addr := p_next_addr p + 1,
        p_flags := (p_flags p)(p_next_addr p \<mapsto> False),
        p_channels := (p_channels p)(p_next_addr p \<mapsto> new_channel)\<rparr>)"

definition on_channels :: "(quote_channels \<Rightarrow> quote_channels) \<Rightarrow> processor \<Rightarrow> processor" where
  "on_channels f p = p\<lparr>p_channels := f (p_channels p)\<rparr>"

definition on_generator :: "(quote_generator \<Rightarrow> quote_generator) \<Rightarrow> processor \<Rightarrow> processor" where
  "on_generator f p = p\<lparr>p_generator := f (p_generator p)\<rparr>"

fun finish_removal :: "after_removal \<Rightarrow> processor \<Rightarrow> point \<times> processor" where
  "finish_removal (EndOfStream info) p = (Ended, on_channels (drop_receiver (si_channel info)) p)"
| "finish_removal (NextDead t []) p = (TickStart t, p)"
| "finish_removal (NextDead t (i # is)) p = (ReadReceiver i (NextDead t is), p)"

fun run_section :: "tick_env \<Rightarrow> point \<Rightarrow> processor \<Rightarrow> point \<times> processor" where
  "run_section env (AddEnter info ts) p = (AddCheck info ts, p)"
| "run_section env (AddCheck info ts) p =
     (case check_tickers (tickers_to_receivers (p_generator p)) ts of
        Some e \<Rightarrow> (Ended, on_channels (drop_receiver (si_channel info) \<circ> drop_sender (si_channel info)) p)
      | None \<Rightarrow> (AddInsert info ts, p))"
| "run_section env (AddInsert info ts) p =
     (AddSubscribe info ts,
      on_generator (\<lambda>g. g\<lparr>receivers := (receivers g)(si_id info \<mapsto>
          \<lparr>ri_channel = si_channel info, ri_tickers = set ts\<rparr>)\<rparr>)
        (on_channels (drop_replaced (receivers (p_generator p)) (si_id info)) p))"
| "run_section env (AddSubscribe info ts) p =
     (AddHandle info, on_generator (\<lambda>g. g\<lparr>tickers_to_receivers :=
        subscribe_to (si_id info) ts (tickers_to_receivers g)\<rparr>) p)"
| "run_section env (AddHandle info) p =
     (StreamLoop info,
      p\<lparr>p_subscribers := (p_subscribers p)(si_id info \<mapsto> \<lparr>sh_shutdown = si_shutdown info\<rparr>),
        p_spawned := p_spawned p @ [info]\<rparr>)"
| "run_section env (TakeHandle info) p =
     (case p_subscribers p (si_id info) of
        None \<Rightarrow> finish_removal (EndOfStream info) p
      | Some handle \<Rightarrow>
          (RaiseShutdown info handle, p\<lparr>p_subscribers := (p_subscribers p)(si_id info := None)\<rparr>))"
| "run_section env (RaiseShutdown info handle) p =
     (CloneRegistries info, p\<lparr>p_flags := (p_flags p)(sh_shutdown handle \<mapsto> True)\<rparr>)"
| "run_section env (CloneRegistries info) p = (ReadReceiver (si_id info) (EndOfStream info), p)"
| "run_section env (ReadReceiver i k) p =
     (RemoveReceiver i (case receivers (p_generator p) i of
          None \<Rightarrow> [] | Some info \<Rightarrow> str_order (te_order env) (ri_tickers info)) k, p)"
| "run_section env (RemoveReceiver i ts k) p =
     (Unsubscribe i ts k,
      on_generator (\<lambda>g. g\<lparr>receivers := (receivers g)(i := None)\<rparr>)
        (on_channels (drop_replaced (receivers (p_generator p)) i) p))"
| "run_section env (Unsubscribe i ts k) p =
     finish_removal k (on_generator (\<lambda>g. g\<lparr>tickers_to_receivers :=
       unsubscribe_from i ts (tickers_to_receivers g)\<rparr>) p)"
| "run_section env (TickStart t) p =
     (if gen_shutdown (p_generator p) then (Ended, p) else (ReadPrice t, p))"
| "run_section env (ReadPrice t) p =
     (case prices (p_generator p) t of
        None \<Rightarrow> (TickStart t, p)
      | Some last_data \<Rightarrow>
          (case unix_millis (te_now env) of
             Panic \<Rightarrow> (Ended, p)
           | Value now \<Rightarrow> (WritePrice t (generate_new_price (te_rng env) (pc_price last_data)) now, p)))"
| "run_section env (WritePrice t price now) p =
     (CopyIds t \<lparr>q_ticker = t, q_price = price, q_volume = random_volume (te_rng env) t, q_timestamp = now\<rparr>,
      on_generator (\<lambda>g. g\<lparr>prices := (case prices g t of
          Some data \<Rightarrow> (prices g)(t \<mapsto> data\<lparr>pc_price := price, pc_last_change := now\<rparr>)
        | None \<Rightarrow> prices g)\<rparr>) p)"
| "run_section env (CopyIds t q) p =
     (SendQuotes t q (case tickers_to_receivers (p_generator p) t of
        None \<Rightarrow> [] | Some ids \<Rightarrow> id_order (te_order env) ids), p)"
| "run_section env (SendQuotes t q ids) p =
     (case distribute q (receivers (p_generator p)) ids (p_channels p) {} of
        (ch, dead) \<Rightarrow>
          if dead \<noteq> {} then finish_removal (NextDead t (id_order (te_order env) dead)) (p\<lparr>p_channels := ch\<rparr>)
          else (TickStart t, p\<lparr>p_channels := ch\<rparr>))"
| "run_section env pt p = (pt, p)"

section \<open>The interleaving\<close>

text \<open>
  One entry per subscriber, at the address of its channel, and one per ticker. The threads
  in \<open>lk_inside\<close> have taken the lock of their section.
\<close>

datatype actor = Subscriber nat | Ticker string

record locked =
  lk_proc :: processor
  lk_points :: "actor \<rightharpoonup> point"
  lk_inside :: "actor set"

definition guards_of :: "locked \<Rightarrow> actor \<Rightarrow> (lock \<times> lock_mode) list" where
  "guards_of s x = (case lk_points s x of
     None \<Rightarrow> [] | Some pt \<Rightarrow> guards section_lock kept_guards (x \<in> lk_inside s) pt)"

definition can_acquire :: "locked \<Rightarrow> actor \<Rightarrow> bool" where
  "can_acquire s x \<longleftrightarrow> x \<notin> lk_inside s
     \<and> (case Option.bind (lk_points s x) section_lock of
          None \<Rightarrow> False
        | Some (l, m) \<Rightarrow> \<forall>y n. y \<noteq> x \<longrightarrow> (l, n) \<in> set (guards_of s y) \<longrightarrow> \<not> conflict m n)"

text \<open>
  The streaming thread moves on its own: an iteration of its loop, its end with or without
  the flag set (the socket could not be bound), a panic or an early return, which drops
  the channel only. A monitor may raise the flag at any time.
\<close>

datatype locked_event =
    Request subscribe_command
  | Acquire actor
  | Run actor tick_env
  | StreamIteration nat "io_error option"
  | BindFails nat
  | StreamDies nat
  | MonitorGivesUp nat

definition move :: "actor \<Rightarrow> point \<times> processor \<Rightarrow> locked \<Rightarrow> locked" where
  "move x st s = \<lparr>lk_proc = snd st, lk_points = (lk_points s)(x \<mapsto> fst st),
     lk_inside = lk_inside s - {x}\<rparr>"

inductive locked_step :: "'b bincode \<Rightarrow> locked \<Rightarrow> locked_event \<Rightarrow> locked \<Rightarrow> bool" for bc where
  request: "p_next_id (lk_proc s) \<noteq> - 1 \<Longrightarrow>
    locked_step bc s (Request cmd)
      (move (Subscriber (p_next_addr (lk_proc s))) (begin_request cmd (lk_proc s)) s)"
| acquire: "can_acquire s x \<Longrightarrow>
    locked_step bc s (Acquire x) (s\<lparr>lk_inside := insert x (lk_inside s)\<rparr>)"
| run: "lk_points s x = Some pt \<Longrightarrow> section_lock pt = None \<or> x \<in> lk_inside s \<Longrightarrow>
    hash_order_ok (te_order env) \<Longrightarrow>
    locked_step bc s (Run x env) (move x (run_section env pt (lk_proc s)) s)"
| stream: "lk_points s (Subscriber a) = Some (StreamLoop info) \<Longrightarrow>
    stream_step bc info (lk_proc s, []) err = Continue (p', sent) \<Longrightarrow>
    locked_step bc s (StreamIteration a err) (s\<lparr>lk_proc := p'\<rparr>)"
| stream_stops: "lk_points s (Subscriber a) = Some (StreamLoop info) \<Longrightarrow>
    stream_step bc info (lk_proc s, []) err = Break (p', sent) \<Longrightarrow>
    locked_step bc s (StreamIteration a err)
      (move (Subscriber a) (TakeHandle info, p'\<lparr>p_flags := (p_flags p')(si_shutdown info \<mapsto> True)\<rparr>) s)"
| bind_fails: "lk_points s (Subscriber a) = Some (StreamLoop info) \<Longrightarrow>
    locked_step bc s (BindFails a) (move (Subscriber a) (TakeHandle info, lk_proc s) s)"
| stream_dies: "lk_points s (Subscriber a) = Some (StreamLoop info) \<Longrightarrow>
    locked_step bc s (StreamDies a)
      (move (Subscriber a) (finish_removal (EndOfStream info) (lk_proc s)) s)"
| monitor_gives_up: "lk_points s (Subscriber a) \<noteq> None \<Longrightarrow>
    locked_step bc s (MonitorGivesUp a)
      (s\<lparr>lk_proc := (lk_proc s)\<lparr>p_flags := (p_flags (lk_proc s))(a \<mapsto> True)\<rparr>\<rparr>)"

inductive locked_run :: "'b bincode \<Rightarrow> locked \<Rightarrow> locked_event list \<Rightarrow> locked \<Rightarrow> bool" for bc where
  locked_nil: "locked_run bc s [] s"
| locked_snoc: "locked_run bc s es s' \<Longrightarrow> locked_step bc s' e s'' \<Longrightarrow> locked_run bc s (es @ [e]) s''"

text \<open>The server as it starts: a thread for every ticker that has a price.\<close>

definition locked_start :: "processor \<Rightarrow> locked" where
  "locked_start p = \<lparr>lk_proc = p,
     lk_points = (\<lambda>x. case x of
         Ticker t \<Rightarrow> if prices (p_generator p) t = None then None else Some (TickStart t)
       | Subscriber a \<Rightarrow> None),
     lk_inside = {}\<rparr>"

inductive_cases section_stepE: "locked_step bc s (Run x env) s'"

section \<open>Alone, the sections are the operations\<close>

definition run_alone :: "tick_env \<Rightarrow> nat \<Rightarrow> point \<times> processor \<Rightarrow> point \<times> processor" where
  "run_alone env n st = ((\<lambda>(pt, p). run_section env pt p) ^^ n) st"

lemma run_alone_0 [simp]: "run_alone env 0 st = st"
  by (simp add: run_alone_def)

lemma run_alone_Suc: "run_alone env (Suc n) (pt, p) = run_alone env n (run_section env pt p)"
  by (simp add: run_alone_def funpow_swap1)

lemmas alone = run_alone_Suc eval_nat_numeral on_generator_def on_channels_def

lemma add_alone:
  "\<exists>n. run_alone env n (begin_request cmd p) =
     (case add_subscriber cmd p of
        (Inr i, p') \<Rightarrow> (StreamLoop (last (p_spawned p')), p')
      | (Inl e, p') \<Rightarrow> (Ended, p'))"
proof (cases "check_tickers (tickers_to_receivers (p_generator p)) (sc_tickers cmd)")
  case None
  then show ?thesis
    by (intro exI [of _ 5]) (simp add: alone begin_request_def add_subscriber_def add_receiver_def Let_def)
next
  case (Some e)
  then show ?thesis
    by (intro exI [of _ 2]) (simp add: alone begin_request_def add_subscriber_def add_receiver_def Let_def)
qed

text \<open>\<open>remove_receiver\<close> on the processor's generator and channels.\<close>

definition drop_receiver_of :: "hash_order \<Rightarrow> u64 \<Rightarrow> processor \<Rightarrow> processor" where
  "drop_receiver_of h i p = (case remove_receiver h i (p_generator p) (p_channels p) of
     (g, ch) \<Rightarrow> p\<lparr>p_generator := g, p_channels := ch\<rparr>)"

lemma remove_receiver_alone:
  "run_alone env (Suc (Suc (Suc n))) (ReadReceiver i k, p) =
     run_alone env n (finish_removal k (drop_receiver_of (te_order env) i p))"
  by (cases p) (simp add: alone remove_receiver_def drop_receiver_of_def Let_def)

lemma remove_alone:
  "\<exists>n. run_alone env n (TakeHandle info, p) =
     (Ended, on_channels (drop_receiver (si_channel info)) (remove_subscriber (te_order env) (si_id info) p))"
proof (cases "p_subscribers p (si_id info)")
  case None
  then show ?thesis
    by (intro exI [of _ 1]) (simp add: alone remove_subscriber_def)
next
  case (Some handle)
  let ?p = "p\<lparr>p_subscribers := (p_subscribers p)(si_id info := None),
      p_flags := (p_flags p)(sh_shutdown handle \<mapsto> True)\<rparr>"
  have "run_alone env 6 (TakeHandle info, p) =
      run_alone env 3 (ReadReceiver (si_id info) (EndOfStream info), ?p)"
    by (simp add: run_alone_Suc eval_nat_numeral Some del: finish_removal.simps)
  also have "\<dots> = finish_removal (EndOfStream info) (drop_receiver_of (te_order env) (si_id info) ?p)"
    by (simp only: numeral_3_eq_3 remove_receiver_alone run_alone_0)
  finally show ?thesis
    using Some by (auto simp: remove_subscriber_def drop_receiver_of_def Let_def)
qed

lemma run_alone_add: "run_alone env (m + n) st = run_alone env n (run_alone env m st)"
  by (simp add: run_alone_def add.commute [of m n] funpow_add)

text \<open>The dead receivers of a tick, one after the other.\<close>

lemma dead_alone:
  "\<exists>n. run_alone env n (finish_removal (NextDead t is) p) =
     (TickStart t, case remove_all (te_order env) is (p_generator p, p_channels p) of
        (g, ch) \<Rightarrow> p\<lparr>p_generator := g, p_channels := ch\<rparr>)"
proof (induction "is" arbitrary: p)
  case Nil
  show ?case by (intro exI [of _ 0]) (simp add: remove_all_def)
next
  case (Cons i "is")
  let ?p = "drop_receiver_of (te_order env) i p"
  obtain n where n: "run_alone env n (finish_removal (NextDead t is) ?p) =
      (TickStart t, case remove_all (te_order env) is (p_generator ?p, p_channels ?p) of
        (g, ch) \<Rightarrow> ?p\<lparr>p_generator := g, p_channels := ch\<rparr>)"
    using Cons.IH by blast
  have "run_alone env (Suc (Suc (Suc n))) (finish_removal (NextDead t (i # is)) p) =
      run_alone env n (finish_removal (NextDead t is) ?p)"
    by (simp add: remove_receiver_alone)
  with n show ?case
    by (intro exI [of _ "Suc (Suc (Suc n))"])
       (simp add: remove_all_def drop_receiver_of_def split_beta)
qed

lemma tick_alone:
  "\<exists>n. run_alone env n (TickStart t, p) =
     (case start_for_quote_step t (p_generator p, p_channels p, {}) env of
        Continue (g, ch, _) \<Rightarrow> (TickStart t, p\<lparr>p_generator := g, p_channels := ch\<rparr>)
      | Break (_, g, ch) \<Rightarrow> (Ended, p\<lparr>p_generator := g, p_channels := ch\<rparr>))"
proof -
  let ?g = "p_generator p"
  consider "gen_shutdown ?g" | "\<not> gen_shutdown ?g" "prices ?g t = None"
    | d where "\<not> gen_shutdown ?g" "prices ?g t = Some d" "unix_millis (te_now env) = Panic"
    | d now where "\<not> gen_shutdown ?g" "prices ?g t = Some d" "unix_millis (te_now env) = Value now"
    by (cases "prices ?g t"; cases "unix_millis (te_now env)") auto
  then show ?thesis
  proof cases
    case 4
    define ps where "ps = (prices ?g)(t \<mapsto> d\<lparr>pc_price := generate_new_price (te_rng env) (pc_price d),
      pc_last_change := now\<rparr>)"
    define q where "q = \<lparr>q_ticker = t, q_price = generate_new_price (te_rng env) (pc_price d),
      q_volume = random_volume (te_rng env) t, q_timestamp = now\<rparr>"
    define ids where "ids = (case tickers_to_receivers ?g t of
        None \<Rightarrow> [] | Some ids \<Rightarrow> id_order (te_order env) ids)"
    obtain ch dead where d: "distribute q (receivers ?g) ids (p_channels p) {} = (ch, dead)"
      by (cases "distribute q (receivers ?g) ids (p_channels p) {}")
    let ?q = "p\<lparr>p_generator := ?g\<lparr>prices := ps\<rparr>, p_channels := ch\<rparr>"
    have five: "run_alone env 5 (TickStart t, p) =
        (if dead \<noteq> {} then finish_removal (NextDead t (id_order (te_order env) dead)) ?q else (TickStart t, ?q))"
      using 4 d by (simp add: alone ps_def q_def ids_def del: distribute.simps)
    obtain n where "run_alone env n (finish_removal (NextDead t (id_order (te_order env) dead)) ?q) =
        (TickStart t, case remove_all (te_order env) (id_order (te_order env) dead) (p_generator ?q, p_channels ?q) of
          (g, ch) \<Rightarrow> ?q\<lparr>p_generator := g, p_channels := ch\<rparr>)"
      using dead_alone by blast
    moreover have "start_for_quote_step t (?g, p_channels p, {}) env =
        (if dead \<noteq> {} then (case remove_all (te_order env) (id_order (te_order env) dead) (?g\<lparr>prices := ps\<rparr>, ch) of
            (g2, ch2) \<Rightarrow> Continue (g2, ch2, {}))
         else Continue (?g\<lparr>prices := ps\<rparr>, ch, dead))"
      using 4 d by (simp add: start_for_quote_step_def generate_quote_def Let_def ps_def q_def ids_def
          del: distribute.simps)
    ultimately show ?thesis
    proof (cases "dead = {}")
      case True
      with five \<open>start_for_quote_step t _ env = _\<close> show ?thesis by (intro exI [of _ 5]) simp
    next
      case False
      assume n: "run_alone env n (finish_removal (NextDead t (id_order (te_order env) dead)) ?q) =
        (TickStart t, case remove_all (te_order env) (id_order (te_order env) dead) (p_generator ?q, p_channels ?q) of
          (g, ch) \<Rightarrow> ?q\<lparr>p_generator := g, p_channels := ch\<rparr>)"
      have "run_alone env (5 + n) (TickStart t, p) =
          run_alone env n (finish_removal (NextDead t (id_order (te_order env) dead)) ?q)"
        using False by (simp only: run_alone_add five) simp
      with False n \<open>start_for_quote_step t _ env = _\<close> show ?thesis
        by (intro exI [of _ "5 + n"]) (simp split: prod.splits)
    qed
  qed (auto intro!: exI [of _ 1] exI [of _ 2] simp: alone start_for_quote_step_def generate_quote_def Let_def)
qed

section \<open>Guards exclude each other\<close>

interpretation server_locks: lock_hierarchy section_lock kept_guards
proof
  fix k n pt assume "(k, n) \<in> set (kept_guards pt)"
  then show "\<exists>l m. section_lock pt = Some (l, m) \<and> k < l"
    by (cases pt) (auto simp: less_lock_def lock_level_def)
qed

definition guards_exclude :: "locked \<Rightarrow> bool" where
  "guards_exclude s \<longleftrightarrow>
     (\<forall>x y l m n. x \<noteq> y \<longrightarrow> (l, m) \<in> set (guards_of s x) \<longrightarrow> (l, n) \<in> set (guards_of s y) \<longrightarrow>
        \<not> conflict m n)"

text \<open>A section ends with fewer guards than it ran with.\<close>

lemma finish_removal_guards [simp]:
  "kept_guards (fst (finish_removal k p)) = []"
  by (induction k p rule: finish_removal.induct) simp_all

lemma run_section_guards:
  assumes "section_lock pt = None \<or> within"
  shows "set (kept_guards (fst (run_section env pt p))) \<subseteq> set (guards section_lock kept_guards within pt)"
  using assms
  by (cases pt) (auto simp: guards_def split: option.splits outcome.splits prod.splits)

lemma guards_of_move:
  "guards_of (move x st s) y =
     (if y = x then kept_guards (fst st) else guards_of s y)"
  by (auto simp: guards_of_def move_def guards_def split: option.splits)

lemma guards_of_unmoved [simp]:
  "guards_of (s\<lparr>lk_proc := p\<rparr>) y = guards_of s y"
  by (simp add: guards_of_def split: option.split)

lemma guards_exclude_move:
  assumes "guards_exclude s" "set (kept_guards (fst st)) \<subseteq> set (guards_of s x)"
  shows "guards_exclude (move x st s)"
  using assms unfolding guards_exclude_def guards_of_move by (smt (verit, best) subsetD)

lemma guards_of_acquire:
  "(l, n) \<in> set (guards_of (s\<lparr>lk_inside := insert x (lk_inside s)\<rparr>) y) \<Longrightarrow>
     (l, n) \<in> set (guards_of s y) \<or> y = x \<and> Option.bind (lk_points s x) section_lock = Some (l, n)"
proof (cases "lk_points s y")
  case (Some pt)
  then show "(l, n) \<in> set (guards_of (s\<lparr>lk_inside := insert x (lk_inside s)\<rparr>) y) \<Longrightarrow> ?thesis"
    by (cases "section_lock pt") (auto simp: guards_of_def guards_def split: if_splits)
qed (simp add: guards_of_def)

lemma step_guards_exclude:
  "locked_step bc s e s' \<Longrightarrow> guards_exclude s \<Longrightarrow> guards_exclude s'"
proof (induction rule: locked_step.induct)
  case (request s cmd)
  then show ?case by (intro guards_exclude_move) (simp_all add: begin_request_def)
next
  case (acquire s x)
  show ?case
    unfolding guards_exclude_def
  proof (intro allI impI)
    fix y z l m n
    assume yz: "y \<noteq> z" "(l, m) \<in> set (guards_of (s\<lparr>lk_inside := insert x (lk_inside s)\<rparr>) y)"
      "(l, n) \<in> set (guards_of (s\<lparr>lk_inside := insert x (lk_inside s)\<rparr>) z)"
    from acquire(1) obtain k where k: "Option.bind (lk_points s x) section_lock = Some k"
      "\<forall>w n. w \<noteq> x \<longrightarrow> (fst k, n) \<in> set (guards_of s w) \<longrightarrow> \<not> conflict (snd k) n"
      by (auto simp: can_acquire_def split: option.splits)
    have sym: "conflict m n = conflict n m" by (auto simp: conflict_def)
    from yz(2,3) [THEN guards_of_acquire] yz(1)
    consider "(l, m) \<in> set (guards_of s y)" "(l, n) \<in> set (guards_of s z)"
      | "y = x" "k = (l, m)" "(l, n) \<in> set (guards_of s z)"
      | "z = x" "k = (l, n)" "(l, m) \<in> set (guards_of s y)"
      using k(1) by auto
    then show "\<not> conflict m n"
      using acquire(2) yz(1) k(2) sym unfolding guards_exclude_def by cases force+
  qed
next
  case (run s x pt env)
  then have "set (kept_guards (fst (run_section env pt (lk_proc s)))) \<subseteq> set (guards_of s x)"
    using run_section_guards [of pt "x \<in> lk_inside s"] by (simp add: guards_of_def)
  with run show ?case by (intro guards_exclude_move)
qed (simp_all add: guards_exclude_def guards_of_move del: finish_removal.simps)

lemma run_guards_exclude: "locked_run bc s es s' \<Longrightarrow> guards_exclude s \<Longrightarrow> guards_exclude s'"
  by (induction rule: locked_run.induct) (auto dest: step_guards_exclude)

lemma start_guards_exclude: "guards_exclude (locked_start p)"
  by (auto simp: guards_exclude_def guards_of_def locked_start_def guards_def split: actor.splits if_splits)

section \<open>Operations finish\<close>

text \<open>
  \<open>may_acquire\<close> is the stricter rule of \<open>parking_lot\<close>: a reader also gives way to writers
  that wait. A thread is busy at a section, and while it removes its subscriber.
\<close>

definition may_acquire :: "locked \<Rightarrow> actor \<Rightarrow> bool" where
  "may_acquire s x \<longleftrightarrow> can_acquire s x
     \<and> (\<forall>l y. Option.bind (lk_points s x) section_lock = Some (l, Shared) \<longrightarrow> y \<notin> lk_inside s \<longrightarrow>
          Option.bind (lk_points s y) section_lock \<noteq> Some (l, Exclusive))"

definition busy :: "point \<Rightarrow> bool" where
  "busy pt \<longleftrightarrow> section_lock pt \<noteq> None \<or> (\<exists>info handle. pt = RaiseShutdown info handle)"

text \<open>Steps that finish what was begun: sections, entered by \<open>parking_lot\<close>'s rule.\<close>

definition finishing :: "locked \<Rightarrow> locked_event \<Rightarrow> bool" where
  "finishing s e = (case e of
     Acquire x \<Rightarrow> may_acquire s x
   | Run x env \<Rightarrow> (\<exists>pt. lk_points s x = Some pt \<and> busy pt)
   | _ \<Rightarrow> False)"

inductive finishing_run :: "'b bincode \<Rightarrow> locked \<Rightarrow> locked \<Rightarrow> bool" for bc where
  finished: "finishing_run bc s s"
| finishing: "locked_step bc s e s' \<Longrightarrow> finishing s e \<Longrightarrow> finishing_run bc s' s'' \<Longrightarrow> finishing_run bc s s''"

text \<open>
  How many sections a thread has before it, once a ticker thread knows whom to send to;
  \<open>early\<close> counts those that do not yet.
\<close>

fun removals_left :: "after_removal \<Rightarrow> nat" where
  "removals_left (EndOfStream info) = 0"
| "removals_left (NextDead t is) = 3 * length is"

fun sections_left :: "point \<Rightarrow> nat" where
  "sections_left (AddEnter info ts) = 5"
| "sections_left (AddCheck info ts) = 4"
| "sections_left (AddInsert info ts) = 3"
| "sections_left (AddSubscribe info ts) = 2"
| "sections_left (AddHandle info) = 1"
| "sections_left (TakeHandle info) = 6"
| "sections_left (RaiseShutdown info handle) = 5"
| "sections_left (CloneRegistries info) = 4"
| "sections_left (ReadReceiver i k) = 3 + removals_left k"
| "sections_left (RemoveReceiver i ts k) = 2 + removals_left k"
| "sections_left (Unsubscribe i ts k) = 1 + removals_left k"
| "sections_left (ReadPrice t) = 3"
| "sections_left (WritePrice t price now) = 2"
| "sections_left (CopyIds t q) = 1"
| "sections_left (SendQuotes t q ids) = 1 + 3 * length ids"
| "sections_left _ = 0"

fun early :: "point \<Rightarrow> nat" where
  "early (ReadPrice t) = 1"
| "early (WritePrice t price now) = 1"
| "early (CopyIds t q) = 1"
| "early _ = 0"

lemma finish_removal_left:
  "sections_left (fst (finish_removal k p)) \<le> removals_left k \<and> early (fst (finish_removal k p)) = 0"
  by (induction k p rule: finish_removal.induct) simp_all

lemma distribute_dead: "distribute q recvs ids ch dead = (ch', dead') \<Longrightarrow> dead' \<subseteq> dead \<union> set ids"
proof (induction ids arbitrary: ch dead)
  case (Cons i ids)
  then show ?case
    by (auto split: option.splits prod.splits sum.splits dest!: Cons.IH)
qed simp

lemma run_section_left:
  assumes "busy pt" "hash_order_ok (te_order env)" "fst (run_section env pt p) = pt'"
  shows "early pt' < early pt \<or> early pt' = early pt \<and> sections_left pt' < sections_left pt"
proof (cases pt)
  case (SendQuotes t q ids)
  obtain ch dead where d: "distribute q (receivers (p_generator p)) ids (p_channels p) {} = (ch, dead)"
    by (cases "distribute q (receivers (p_generator p)) ids (p_channels p) {}")
  have dead: "dead \<subseteq> set ids" using distribute_dead [OF d] by simp
  then have "finite dead" by (rule finite_subset) simp
  then have "length (id_order (te_order env) dead) = card dead"
    using assms(2) by (metis distinct_card hash_order_ok_def)
  also have "\<dots> \<le> length ids"
    using dead card_mono [of "set ids" dead] card_length [of ids] by simp
  finally show ?thesis
    using assms(3) SendQuotes d
      finish_removal_left [of "NextDead t (id_order (te_order env) dead)" "p\<lparr>p_channels := ch\<rparr>"]
    by (cases "dead = {}") (auto simp del: finish_removal.simps)
next
  case (Unsubscribe i ts k)
  then show ?thesis using assms(3) finish_removal_left by (auto simp: less_Suc_eq_le)
qed (use assms in \<open>auto simp: busy_def split: option.splits outcome.splits if_splits\<close>)

lemma sum_changed:
  assumes "finite A" "x \<in> A" "\<And>y. y \<noteq> x \<Longrightarrow> f y = g y"
  shows "f x \<le> g x \<Longrightarrow> sum f A \<le> (sum g A :: nat)" "f x < g x \<Longrightarrow> sum f A < sum g A"
  using assms(3) by (metis sum_mono order_refl, metis sum_strict_mono_ex1 assms(1,2) order_refl order_less_imp_le)

text \<open>The measure that finishing steps decrease: first \<open>early\<close>, then what is left to run and to acquire.\<close>

definition point_of :: "locked \<Rightarrow> actor \<Rightarrow> point" where
  "point_of s x = (case lk_points s x of None \<Rightarrow> Ended | Some pt \<Rightarrow> pt)"

definition work_of :: "locked \<Rightarrow> actor \<Rightarrow> nat" where
  "work_of s x = 2 * sections_left (point_of s x) - (if x \<in> lk_inside s then 1 else 0)"

definition work :: "locked \<Rightarrow> nat \<times> nat" where
  "work s = (\<Sum>x \<in> dom (lk_points s). early (point_of s x), \<Sum>x \<in> dom (lk_points s). work_of s x)"

lemma sections_left_pos: "section_lock pt \<noteq> None \<Longrightarrow> 0 < sections_left pt"
  by (cases pt) auto

lemma finishing_works:
  assumes "locked_step bc s e s'" "finishing s e" "finite (dom (lk_points s))"
  shows "(work s', work s) \<in> less_than <*lex*> less_than \<and> dom (lk_points s') = dom (lk_points s)"
  using assms
proof (induction rule: locked_step.induct)
  case (acquire s x)
  then obtain pt where pt: "lk_points s x = Some pt" "section_lock pt \<noteq> None" "x \<notin> lk_inside s"
    by (auto simp: can_acquire_def bind_eq_Some_conv split: option.splits)
  let ?s = "s\<lparr>lk_inside := insert x (lk_inside s)\<rparr>"
  have same: "point_of ?s = point_of s" by (simp add: fun_eq_iff point_of_def)
  have "sum (work_of ?s) (dom (lk_points s)) < sum (work_of s) (dom (lk_points s))"
    using acquire.prems pt sections_left_pos [of pt]
    by (intro sum_changed(2) [of _ x]) (auto simp: work_of_def same point_of_def)
  then show ?case by (simp add: work_def same)
next
  case (run s x pt env)
  then have pt: "busy pt" "lk_points s x = Some pt" by (auto simp: finishing_def)
  let ?s = "move x (run_section env pt (lk_proc s)) s"
  have dom: "dom (lk_points ?s) = dom (lk_points s)" "x \<in> dom (lk_points s)"
    using pt by (auto simp: move_def)
  have at: "point_of s x = pt" "point_of ?s x = fst (run_section env pt (lk_proc s))"
    using pt by (simp_all add: point_of_def move_def)
  have others: "point_of ?s y = point_of s y" "work_of ?s y = work_of s y" if "y \<noteq> x" for y
    using that by (simp_all add: point_of_def move_def work_of_def)
  have "early (point_of ?s x) < early (point_of s x)
      \<or> early (point_of ?s x) \<le> early (point_of s x) \<and> work_of ?s x < work_of s x"
    using run_section_left [OF pt(1) run.hyps(3) refl, of "lk_proc s"] at
    by (auto simp: work_of_def move_def)
  then show ?case
    using sum_changed [OF run.prems(2) dom(2), of "\<lambda>y. early (point_of ?s y)" "\<lambda>y. early (point_of s y)"]
      sum_changed(2) [OF run.prems(2) dom(2), of "work_of ?s" "work_of s"] others
    by (auto simp: work_def dom)
qed (simp_all add: finishing_def)

lemma some_step_finishes:
  assumes "lk_points s x = Some pt" "busy pt"
  shows "\<exists>e s'. locked_step bc s e s' \<and> finishing s e"
proof -
  define env where "env = \<lparr>te_rng = low_rng, te_now = 0, te_order = sorted_order\<rparr>"
  have env: "hash_order_ok (te_order env)" by (simp add: env_def sorted_order_ok)
  show ?thesis
  proof (cases "section_lock pt")
    case None
    with assms env show ?thesis
      using locked_step.run [of s x pt env bc] by (force simp: finishing_def)
  next
    case (Some l)
    then obtain y q l m where y: "lk_points s y = Some q" "section_lock q = Some (l, m)"
      "y \<in> lk_inside s
       \<or> (\<forall>z r n. lk_points s z = Some r \<longrightarrow> (l, n) \<notin> set (guards section_lock kept_guards (z \<in> lk_inside s) r))
         \<and> (m = Shared \<longrightarrow> (\<forall>z r. lk_points s z = Some r \<longrightarrow> z \<notin> lk_inside s \<longrightarrow> section_lock r \<noteq> Some (l, Exclusive)))"
      using server_locks.some_can_go_on [of "lk_points s" x pt "lk_inside s"] assms(1) by blast
    show ?thesis
    proof (cases "y \<in> lk_inside s")
      case True
      with y env have "locked_step bc s (Run y env) (move y (run_section env q (lk_proc s)) s)"
        by (intro locked_step.run) auto
      with y show ?thesis by (force simp: finishing_def busy_def)
    next
      case False
      then have "may_acquire s y"
        using y by (auto simp: may_acquire_def can_acquire_def guards_of_def bind_eq_Some_conv split: option.splits)
      then show ?thesis
        using locked_step.acquire [of s y bc] by (force simp: finishing_def may_acquire_def)
    qed
  qed
qed

lemma finishes:
  "finite (dom (lk_points s)) \<Longrightarrow>
     \<exists>s'. finishing_run bc s s' \<and> (\<forall>x pt. lk_points s' x = Some pt \<longrightarrow> \<not> busy pt)"
proof (induction "work s" arbitrary: s rule: wf_induct_rule [OF wf_lex_prod [OF wf_less_than wf_less_than]])
  case 1
  show ?case
  proof (cases "\<exists>x pt. lk_points s x = Some pt \<and> busy pt")
    case True
    then obtain e s' where e: "locked_step bc s e s'" "finishing s e"
      using some_step_finishes by blast
    from 1(1) [of s'] finishing_works [OF e 1(2)] 1(2) obtain s'' where
      "finishing_run bc s' s''" "\<forall>x pt. lk_points s'' x = Some pt \<longrightarrow> \<not> busy pt" by auto
    with e show ?thesis by (blast intro: finishing_run.finishing)
  next
    case False
    then show ?thesis by (blast intro: finishing_run.finished)
  qed
qed

lemma step_finite: "locked_step bc s e s' \<Longrightarrow> finite (dom (lk_points s)) \<Longrightarrow> finite (dom (lk_points s'))"
  by (induction rule: locked_step.induct) (simp_all add: move_def)

lemma run_finite: "locked_run bc s es s' \<Longrightarrow> finite (dom (lk_points s)) \<Longrightarrow> finite (dom (lk_points s'))"
  by (induction rule: locked_run.induct) (auto dest: step_finite)

end
