(* ===== verification/Interleaving.thy ===== *)
theory Interleaving
  imports Sections
begin

text \<open>
  What holds between the sections. The two registries of the generator disagree while a
  subscription is half entered or half removed, and a receiver may be without a handle;
  the invariant says exactly for whom, and that nobody else is affected. Once no such
  operation is under way the invariant of \<open>Processor\<close> holds again.
\<close>

section \<open>Who is where\<close>

text \<open>
  The subscriber a thread belongs to; the id it is about to subscribe (\<open>joining\<close> while
  the receiver is not inserted yet), the ids it is about to remove, and the ids it is about
  to send to.
\<close>

fun after_info :: "after_removal \<Rightarrow> subscriber_info option" where
  "after_info (EndOfStream info) = Some info"
| "after_info (NextDead t is) = None"

fun own_info :: "point \<Rightarrow> subscriber_info option" where
  "own_info (AddEnter info ts) = Some info"
| "own_info (AddCheck info ts) = Some info"
| "own_info (AddInsert info ts) = Some info"
| "own_info (AddSubscribe info ts) = Some info"
| "own_info (AddHandle info) = Some info"
| "own_info (StreamLoop info) = Some info"
| "own_info (TakeHandle info) = Some info"
| "own_info (RaiseShutdown info handle) = Some info"
| "own_info (CloneRegistries info) = Some info"
| "own_info (ReadReceiver i k) = after_info k"
| "own_info (RemoveReceiver i ts k) = after_info k"
| "own_info (Unsubscribe i ts k) = after_info k"
| "own_info _ = None"

fun joining :: "u64 \<Rightarrow> point \<Rightarrow> bool" where
  "joining i (AddEnter info ts) = (si_id info = i)"
| "joining i (AddCheck info ts) = (si_id info = i)"
| "joining i (AddInsert info ts) = (si_id info = i)"
| "joining i _ = False"

fun adding :: "u64 \<Rightarrow> point \<Rightarrow> bool" where
  "adding i (AddSubscribe info ts) = (si_id info = i)"
| "adding i (AddHandle info) = (si_id info = i)"
| "adding i pt = joining i pt"

fun after_ids :: "after_removal \<Rightarrow> u64 set" where
  "after_ids (EndOfStream info) = {}"
| "after_ids (NextDead t is) = set is"

fun leaving :: "point \<Rightarrow> u64 set" where
  "leaving (ReadReceiver i k) = insert i (after_ids k)"
| "leaving (RemoveReceiver i ts k) = insert i (after_ids k)"
| "leaving (Unsubscribe i ts k) = insert i (after_ids k)"
| "leaving _ = {}"

fun seen :: "point \<Rightarrow> u64 set" where
  "seen (SendQuotes t q ids) = set ids"
| "seen _ = {}"

text \<open>Subscriptions half entered, half removed, and subscribers without a handle.\<close>

fun entering :: "u64 \<Rightarrow> string \<Rightarrow> point \<Rightarrow> bool" where
  "entering i t (AddSubscribe info ts) = (si_id info = i \<and> t \<in> set ts)"
| "entering i t _ = False"

fun forgetting :: "u64 \<Rightarrow> string \<Rightarrow> point \<Rightarrow> bool" where
  "forgetting i t (Unsubscribe j ts k) = (j = i \<and> t \<in> set ts)"
| "forgetting i t _ = False"

fun handleless :: "u64 \<Rightarrow> point \<Rightarrow> bool" where
  "handleless i (AddSubscribe info ts) = (si_id info = i)"
| "handleless i (AddHandle info) = (si_id info = i)"
| "handleless i (RaiseShutdown info handle) = (si_id info = i)"
| "handleless i (CloneRegistries info) = (si_id info = i)"
| "handleless i (ReadReceiver j k) = (j = i \<and> after_info k \<noteq> None)"
| "handleless i (RemoveReceiver j ts k) = (j = i \<and> after_info k \<noteq> None)"
| "handleless i _ = False"

section \<open>The invariant\<close>

text \<open>What a thread at a point relies on.\<close>

definition placed :: "processor \<Rightarrow> actor \<Rightarrow> subscriber_info \<Rightarrow> bool" where
  "placed p x info \<longleftrightarrow> x = Subscriber (si_channel info) \<and> si_shutdown info = si_channel info
     \<and> si_channel info < p_next_addr p \<and> si_id info < p_next_id p"

definition newcomer :: "processor \<Rightarrow> subscriber_info \<Rightarrow> bool" where
  "newcomer p info \<longleftrightarrow> receivers (p_generator p) (si_id info) = None
     \<and> (\<forall>t. \<not> listed (p_generator p) (si_id info) t)
     \<and> rx_alive (p_channels p) (si_channel info)
     \<and> (\<forall>i r. receivers (p_generator p) i = Some r \<longrightarrow> ri_channel r \<noteq> si_channel info)"

definition registered :: "processor \<Rightarrow> subscriber_info \<Rightarrow> bool" where
  "registered p info \<longleftrightarrow> rx_alive (p_channels p) (si_channel info)
     \<and> (\<exists>ts. receivers (p_generator p) (si_id info) = Some \<lparr>ri_channel = si_channel info, ri_tickers = ts\<rparr>)"

definition known :: "processor \<Rightarrow> string list \<Rightarrow> bool" where
  "known p ts \<longleftrightarrow> (\<forall>t \<in> set ts. tickers_to_receivers (p_generator p) t \<noteq> None)"

fun after_ok :: "processor \<Rightarrow> actor \<Rightarrow> u64 \<Rightarrow> after_removal \<Rightarrow> bool" where
  "after_ok p x i (EndOfStream info) = (placed p x info \<and> si_id info = i)"
| "after_ok p x i (NextDead t is) = (x = Ticker t \<and> i < p_next_id p \<and> (\<forall>j \<in> set is. j < p_next_id p))"

definition wants :: "processor \<Rightarrow> string \<Rightarrow> u64 \<Rightarrow> bool" where
  "wants p t i \<longleftrightarrow> i < p_next_id p
     \<and> (\<forall>r. receivers (p_generator p) i = Some r \<longrightarrow> t \<in> ri_tickers r)"

fun point_ok :: "processor \<Rightarrow> actor \<Rightarrow> point \<Rightarrow> bool" where
  "point_ok p x (AddEnter info ts) = (placed p x info \<and> newcomer p info)"
| "point_ok p x (AddCheck info ts) = (placed p x info \<and> newcomer p info)"
| "point_ok p x (AddInsert info ts) = (placed p x info \<and> newcomer p info \<and> known p ts)"
| "point_ok p x (AddSubscribe info ts) = (placed p x info \<and> registered p info \<and> known p ts
     \<and> (\<forall>r. receivers (p_generator p) (si_id info) = Some r \<longrightarrow> ri_tickers r = set ts))"
| "point_ok p x (AddHandle info) = (placed p x info \<and> registered p info)"
| "point_ok p x (StreamLoop info) = placed p x info"
| "point_ok p x (TakeHandle info) = placed p x info"
| "point_ok p x (RaiseShutdown info handle) = placed p x info"
| "point_ok p x (CloneRegistries info) = placed p x info"
| "point_ok p x (ReadReceiver i k) = after_ok p x i k"
| "point_ok p x (RemoveReceiver i ts k) = (after_ok p x i k
     \<and> (\<forall>r. receivers (p_generator p) i = Some r \<longrightarrow> ri_tickers r = set ts))"
| "point_ok p x (Unsubscribe i ts k) = (after_ok p x i k \<and> receivers (p_generator p) i = None)"
| "point_ok p x (TickStart t) = (x = Ticker t)"
| "point_ok p x (ReadPrice t) = (x = Ticker t)"
| "point_ok p x (WritePrice t price now) = (x = Ticker t \<and> MIN_PRICE \<le> price)"
| "point_ok p x (CopyIds t q) = (x = Ticker t \<and> q_ticker q = t)"
| "point_ok p x (SendQuotes t q ids) = (x = Ticker t \<and> q_ticker q = t \<and> distinct ids
     \<and> (\<forall>i \<in> set ids. wants p t i))"
| "point_ok p x Ended = True"

text \<open>Different subscribers have different ids; nobody removes or sends to a newcomer.\<close>

definition apart :: "point \<Rightarrow> point \<Rightarrow> bool" where
  "apart pt pt' \<longleftrightarrow>
     (\<forall>a b. own_info pt = Some a \<longrightarrow> own_info pt' = Some b \<longrightarrow> si_id a \<noteq> si_id b)
     \<and> (\<forall>i. adding i pt \<longrightarrow> i \<notin> leaving pt') \<and> (\<forall>i. adding i pt' \<longrightarrow> i \<notin> leaving pt)
     \<and> (\<forall>i. joining i pt \<longrightarrow> i \<notin> seen pt') \<and> (\<forall>i. joining i pt' \<longrightarrow> i \<notin> seen pt)"

definition bounded :: "processor \<Rightarrow> bool" where
  "bounded p \<longleftrightarrow> prices_ok (p_generator p) \<and> channels_distinct (p_generator p)
     \<and> dom (prices (p_generator p)) = dom (tickers_to_receivers (p_generator p))
     \<and> (\<forall>t ids. tickers_to_receivers (p_generator p) t = Some ids \<longrightarrow> finite ids)
     \<and> (\<forall>i r. receivers (p_generator p) i = Some r \<longrightarrow>
          finite (ri_tickers r) \<and> i < p_next_id p \<and> ri_channel r < p_next_addr p)
     \<and> (\<forall>i h. p_subscribers p i = Some h \<longrightarrow> i < p_next_id p \<and> sh_shutdown h < p_next_addr p)"

definition agreeing :: "processor \<Rightarrow> (actor \<Rightarrow> point) \<Rightarrow> bool" where
  "agreeing p pts \<longleftrightarrow> (\<forall>i t.
     (subscribed (p_generator p) i t \<longrightarrow> listed (p_generator p) i t \<or> (\<exists>x. entering i t (pts x)))
     \<and> (listed (p_generator p) i t \<longrightarrow> subscribed (p_generator p) i t \<or> (\<exists>x. forgetting i t (pts x))))"

definition handled :: "processor \<Rightarrow> u64 \<Rightarrow> receiver_info \<Rightarrow> bool" where
  "handled p i r \<longleftrightarrow> p_subscribers p i = Some \<lparr>sh_shutdown = ri_channel r\<rparr>"

definition accounted :: "processor \<Rightarrow> (actor \<Rightarrow> point) \<Rightarrow> bool" where
  "accounted p pts \<longleftrightarrow> (\<forall>i r. receivers (p_generator p) i = Some r \<longrightarrow>
     handled p i r \<or> (\<exists>x. handleless i (pts x)))"

definition consistent :: "processor \<Rightarrow> (actor \<Rightarrow> point) \<Rightarrow> bool" where
  "consistent p pts \<longleftrightarrow> (\<forall>x. point_ok p x (pts x)) \<and> (\<forall>x y. x \<noteq> y \<longrightarrow> apart (pts x) (pts y))
     \<and> bounded p \<and> agreeing p pts \<and> accounted p pts"

section \<open>What one thread's step leaves to the others\<close>

text \<open>
  \<open>affects I J C p p'\<close>: only subscriptions of the ids in \<open>I\<close> changed, only ids in \<open>J\<close> got
  a receiver, with a channel in \<open>C\<close>, and only channels in \<open>C\<close> lost theirs.
\<close>

definition affects :: "u64 set \<Rightarrow> u64 set \<Rightarrow> nat set \<Rightarrow> processor \<Rightarrow> processor \<Rightarrow> bool" where
  "affects I J C p p' \<longleftrightarrow> p_next_id p \<le> p_next_id p' \<and> p_next_addr p \<le> p_next_addr p'
     \<and> (\<forall>i. i \<notin> I \<longrightarrow> receivers (p_generator p') i = receivers (p_generator p) i
          \<and> listed (p_generator p') i = listed (p_generator p) i)
     \<and> (\<forall>t. tickers_to_receivers (p_generator p) t \<noteq> None \<longrightarrow> tickers_to_receivers (p_generator p') t \<noteq> None)
     \<and> (\<forall>i r. receivers (p_generator p') i = Some r \<longrightarrow>
          receivers (p_generator p) i = Some r \<or> i \<in> J \<and> ri_channel r \<in> C)
     \<and> (\<forall>a. a \<notin> C \<longrightarrow> rx_alive (p_channels p') a = rx_alive (p_channels p) a)"

lemma placed_frame: "placed p x info \<Longrightarrow> affects I J C p p' \<Longrightarrow> placed p' x info"
  by (auto simp: placed_def affects_def)

lemma newcomer_frame:
  "newcomer p info \<Longrightarrow> affects I J C p p' \<Longrightarrow> si_id info \<notin> I \<Longrightarrow> si_channel info \<notin> C \<Longrightarrow> newcomer p' info"
  unfolding newcomer_def affects_def by metis

lemma registered_frame:
  "registered p info \<Longrightarrow> affects I J C p p' \<Longrightarrow> si_id info \<notin> I \<Longrightarrow> si_channel info \<notin> C \<Longrightarrow> registered p' info"
  unfolding registered_def affects_def by metis

lemma known_frame: "known p ts \<Longrightarrow> affects I J C p p' \<Longrightarrow> known p' ts"
  unfolding known_def affects_def by blast

lemma after_ok_frame: "after_ok p x i k \<Longrightarrow> affects I J C p p' \<Longrightarrow> after_ok p' x i k"
  by (cases k) (auto simp: placed_frame, auto simp: affects_def)

lemma wants_frame: "wants p t i \<Longrightarrow> affects I J C p p' \<Longrightarrow> i \<notin> J \<Longrightarrow> wants p' t i"
  unfolding wants_def affects_def by (metis order_less_le_trans)

lemma point_ok_frame:
  assumes "point_ok p x pt" "affects I J C p p'"
    and "\<forall>i \<in> I. \<not> adding i pt" "\<forall>i \<in> J. i \<notin> leaving pt \<and> i \<notin> seen pt"
    and "\<forall>a \<in> C. x \<noteq> Subscriber a"
  shows "point_ok p' x pt"
proof -
  have "si_channel info \<notin> C" if "placed p x info" for info
    using that assms(5) by (auto simp: placed_def)
  moreover have "receivers (p_generator p') i = Some r \<Longrightarrow> receivers (p_generator p) i = Some r"
    if "i \<in> leaving pt" for i r
    using that assms(2,4) unfolding affects_def by blast
  moreover note frames = placed_frame [OF _ assms(2)] newcomer_frame [OF _ assms(2)]
    registered_frame [OF _ assms(2)] known_frame [OF _ assms(2)] after_ok_frame [OF _ assms(2)]
    wants_frame [OF _ assms(2)]
  moreover have "receivers (p_generator p') i = receivers (p_generator p) i" if "i \<notin> I" for i
    using that assms(2) unfolding affects_def by blast
  moreover have "receivers (p_generator p') i = None"
    if "i \<in> leaving pt" "receivers (p_generator p) i = None" for i
    using that assms(2,4) unfolding affects_def by (metis not_None_eq)
  then have "point_ok p' x pt" if "pt = Unsubscribe i ts k" for i ts k
    using that assms(1) frames(5) by simp
  ultimately show ?thesis
    using assms(1,3,4) by (cases pt) (auto simp: frames)
qed

section \<open>A step keeps the invariant\<close>

text \<open>
  What the step of a thread \<open>x\<close> from \<open>pt\<close> to \<open>pt'\<close> has to fulfil so that the invariant is
  kept. \<open>touched\<close> and \<open>inserted\<close> are the ids whose subscriptions a section changes.
\<close>

fun touched :: "point \<Rightarrow> u64 set" where
  "touched (AddInsert info ts) = {si_id info}"
| "touched (AddSubscribe info ts) = {si_id info}"
| "touched (RemoveReceiver i ts k) = {i}"
| "touched (Unsubscribe i ts k) = {i}"
| "touched _ = {}"

fun inserted :: "point \<Rightarrow> u64 set" where
  "inserted (AddInsert info ts) = {si_id info}"
| "inserted _ = {}"

definition dead_ids :: "processor \<Rightarrow> u64 set" where
  "dead_ids p = {i. \<exists>r. receivers (p_generator p) i = Some r \<and> \<not> rx_alive (p_channels p) (ri_channel r)}"

text \<open>\<open>own_of pt\<close> is the id of the thread's subscriber, \<open>fresh\<close> the next id.\<close>

definition own_of :: "point \<Rightarrow> u64 set" where
  "own_of pt = (case own_info pt of None \<Rightarrow> {} | Some info \<Rightarrow> {si_id info})"

definition points_advance :: "processor \<Rightarrow> point \<Rightarrow> point \<Rightarrow> bool" where
  "points_advance p pt pt' \<longleftrightarrow>
     own_of pt' \<subseteq> insert (p_next_id p) (own_of pt)
     \<and> (\<forall>i. adding i pt' \<longrightarrow> adding i pt \<or> i = p_next_id p)
     \<and> (\<forall>i. joining i pt' \<longrightarrow> joining i pt \<or> i = p_next_id p)
     \<and> leaving pt' \<subseteq> leaving pt \<union> own_of pt \<union> dead_ids p
     \<and> seen pt' \<subseteq> seen pt \<union> {i. \<exists>t. listed (p_generator p) i t}"

definition registry_advance :: "processor \<Rightarrow> point \<Rightarrow> processor \<Rightarrow> point \<Rightarrow> bool" where
  "registry_advance p pt p' pt' \<longleftrightarrow> (\<forall>i t.
     (subscribed (p_generator p') i t \<longrightarrow> listed (p_generator p') i t \<or> entering i t pt'
        \<or> subscribed (p_generator p) i t \<and> \<not> listed (p_generator p) i t \<and> \<not> entering i t pt)
     \<and> (listed (p_generator p') i t \<longrightarrow> subscribed (p_generator p') i t \<or> forgetting i t pt'
        \<or> listed (p_generator p) i t \<and> \<not> subscribed (p_generator p) i t \<and> \<not> forgetting i t pt))"

definition handle_advance :: "processor \<Rightarrow> point \<Rightarrow> processor \<Rightarrow> point \<Rightarrow> bool" where
  "handle_advance p pt p' pt' \<longleftrightarrow> (\<forall>i r. receivers (p_generator p') i = Some r \<longrightarrow>
     handled p' i r \<or> handleless i pt'
     \<or> receivers (p_generator p) i = Some r \<and> \<not> handled p i r \<and> \<not> handleless i pt)"

definition advance :: "actor \<Rightarrow> processor \<Rightarrow> point \<Rightarrow> processor \<Rightarrow> point \<Rightarrow> bool" where
  "advance x p pt p' pt' \<longleftrightarrow>
     affects (touched pt) (inserted pt) {a. x = Subscriber a} p p' \<and> point_ok p' x pt' \<and> bounded p'
     \<and> points_advance p pt pt' \<and> registry_advance p pt p' pt' \<and> handle_advance p pt p' pt'"

lemma joining_adding: "joining i pt \<Longrightarrow> adding i pt"
  by (cases pt) auto

lemma adding_own: "adding i pt \<Longrightarrow> \<exists>info. own_info pt = Some info \<and> si_id info = i"
  by (cases pt) auto

lemma adding_not_leaving: "adding i pt \<Longrightarrow> leaving pt = {} \<and> seen pt = {}"
  by (cases pt) auto

lemma inserted_touched: "inserted pt \<subseteq> touched pt"
  by (cases pt) auto

lemma touched_cases: "i \<in> touched pt \<Longrightarrow> adding i pt \<or> i \<in> leaving pt"
  by (cases pt) auto

lemma inserted_joining: "i \<in> inserted pt \<Longrightarrow> joining i pt"
  by (cases pt) auto

text \<open>Everything a thread holds on to has an id below the next one; who is being added is alive.\<close>

lemma ids_below:
  assumes "point_ok p x pt"
  shows "own_info pt = Some info \<Longrightarrow> si_id info < p_next_id p"
    and "i \<in> leaving pt \<Longrightarrow> i < p_next_id p" and "i \<in> seen pt \<Longrightarrow> i < p_next_id p"
proof -
  have after: "after_ok p x j k \<Longrightarrow> j < p_next_id p \<and> (\<forall>i \<in> after_ids k. i < p_next_id p)
      \<and> (\<forall>a. after_info k = Some a \<longrightarrow> si_id a < p_next_id p)" for j k
    by (cases k) (auto simp: placed_def)
  show "own_info pt = Some info \<Longrightarrow> si_id info < p_next_id p"
    using assms by (cases pt) (auto simp: placed_def dest: after)
  show "i \<in> leaving pt \<Longrightarrow> i < p_next_id p"
    using assms by (cases pt) (auto dest: after)
  show "i \<in> seen pt \<Longrightarrow> i < p_next_id p"
    using assms by (cases pt) (auto simp: wants_def)
qed

lemma adding_alive: "point_ok p x pt \<Longrightarrow> adding i pt \<Longrightarrow> i \<notin> dead_ids p"
  by (cases pt) (auto simp: dead_ids_def newcomer_def registered_def)

lemma joining_unlisted: "point_ok p x pt \<Longrightarrow> joining i pt \<Longrightarrow> \<not> listed (p_generator p) i t"
  by (cases pt) (auto simp: newcomer_def)

lemma apart_sym: "apart pt pt' = apart pt' pt"
  by (auto simp: apart_def)

lemma apart_advance:
  assumes "apart pt q" "points_advance p pt pt'" "point_ok p y q"
  shows "apart pt' q"
proof -
  note below = ids_below [OF assms(3)]
  have new: "\<not> p_next_id p < p_next_id p" by simp
  have own: "si_id a \<noteq> si_id b" if "own_info pt' = Some a" "own_info q = Some b" for a b
  proof -
    have "si_id a \<in> insert (p_next_id p) (own_of pt)"
      using assms(2) that(1) by (auto simp: points_advance_def own_of_def)
    then show ?thesis
      using assms(1) below(1) [OF that(2)] that(2)
      by (auto simp: apart_def own_of_def split: option.splits)
  qed
  have "i \<notin> leaving q" if "adding i pt'" for i
    using that assms(1,2) below(2) unfolding apart_def points_advance_def by blast
  moreover have "i \<notin> leaving pt'" if "adding i q" for i
  proof -
    have "i \<notin> leaving pt" "i \<notin> own_of pt"
      using assms(1) that adding_own [OF that]
      by (auto simp: apart_def own_of_def split: option.splits)
    with adding_alive [OF assms(3) that] assms(2) show ?thesis by (auto simp: points_advance_def)
  qed
  moreover have "i \<notin> seen q" if "joining i pt'" for i
    using that assms(1,2) below(3) unfolding apart_def points_advance_def by blast
  moreover have "i \<notin> seen pt'" if "joining i q" for i
    using that assms(1,2) joining_unlisted [OF assms(3) that]
    unfolding apart_def points_advance_def by blast
  ultimately show ?thesis using own by (auto simp: apart_def)
qed

lemma advance_consistent:
  assumes "consistent p pts" "advance x p (pts x) p' pt'"
  shows "consistent p' (pts(x := pt'))"
proof -
  have ok: "point_ok p y (pts y)" for y using assms(1) by (simp add: consistent_def)
  have ap: "apart (pts x) (pts y)" if "y \<noteq> x" for y
    using assms(1) that by (simp add: consistent_def)
  note adv = assms(2) [unfolded advance_def]
  have others: "point_ok p' y (pts y)" if "y \<noteq> x" for y
  proof (rule point_ok_frame [OF ok])
    show "affects (touched (pts x)) (inserted (pts x)) {a. x = Subscriber a} p p'" using adv by blast
    have distinct: "\<not> (adding i (pts x) \<and> adding i (pts y))" for i
      using ap [OF that] by (auto simp: apart_def dest!: adding_own)
    show "\<forall>i \<in> touched (pts x). \<not> adding i (pts y)"
      using distinct ap [OF that] by (auto simp: apart_def dest!: touched_cases)
    show "\<forall>i \<in> inserted (pts x). i \<notin> leaving (pts y) \<and> i \<notin> seen (pts y)"
      using ap [OF that] by (auto simp: apart_def dest!: inserted_joining dest: joining_adding)
    show "\<forall>a \<in> {a. x = Subscriber a}. y \<noteq> Subscriber a" using that by auto
  qed
  have "apart ((pts(x := pt')) y) ((pts(x := pt')) z)" if "y \<noteq> z" for y z
  proof -
    have new: "apart pt' (pts w)" if "w \<noteq> x" for w
      using apart_advance [OF ap [OF that] _ ok] adv by blast
    moreover have "apart (pts w) pt'" if "w \<noteq> x" for w
      using new [OF that] by (simp only: apart_sym [of _ pt'])
    ultimately show ?thesis
      using that assms(1) by (cases "y = x"; cases "z = x") (auto simp: consistent_def)
  qed
  moreover have "agreeing p' (pts(x := pt'))"
  proof -
    have sub: "listed (p_generator p') i t \<or> (\<exists>y. entering i t ((pts(x := pt')) y))"
      if "subscribed (p_generator p') i t" for i t
    proof (rule ccontr)
      assume no: "\<not> ?thesis"
      then have "\<not> entering i t pt'" by (metis fun_upd_same)
      with no that adv have old: "subscribed (p_generator p) i t" "\<not> listed (p_generator p) i t"
        "\<not> entering i t (pts x)" by (auto simp: registry_advance_def)
      with assms(1) obtain y where "entering i t (pts y)" unfolding consistent_def agreeing_def by blast
      with old(3) no show False by (metis fun_upd_other)
    qed
    have lis: "subscribed (p_generator p') i t \<or> (\<exists>y. forgetting i t ((pts(x := pt')) y))"
      if "listed (p_generator p') i t" for i t
    proof (rule ccontr)
      assume no: "\<not> ?thesis"
      then have "\<not> forgetting i t pt'" by (metis fun_upd_same)
      with no that adv have old: "listed (p_generator p) i t" "\<not> subscribed (p_generator p) i t"
        "\<not> forgetting i t (pts x)" by (auto simp: registry_advance_def)
      with assms(1) obtain y where "forgetting i t (pts y)" unfolding consistent_def agreeing_def by blast
      with old(3) no show False by (metis fun_upd_other)
    qed
    show ?thesis using sub lis by (simp only: agreeing_def) blast
  qed
  moreover have "accounted p' (pts(x := pt'))"
  proof -
    have "handled p' i r \<or> (\<exists>y. handleless i ((pts(x := pt')) y))"
      if "receivers (p_generator p') i = Some r" for i r
    proof (rule ccontr)
      assume no: "\<not> ?thesis"
      then have "\<not> handleless i pt'" by (metis fun_upd_same)
      with no that adv have old: "receivers (p_generator p) i = Some r" "\<not> handled p i r"
        "\<not> handleless i (pts x)" by (auto simp: handle_advance_def)
      with assms(1) obtain y where "handleless i (pts y)" unfolding consistent_def accounted_def by blast
      with old(3) no show False by (metis fun_upd_other)
    qed
    then show ?thesis by (simp add: accounted_def)
  qed
  ultimately show ?thesis
    using others adv by (simp add: consistent_def)
qed

section \<open>Every section advances\<close>

lemma on_simps [simp]:
  "p_generator (on_generator f p) = f (p_generator p)" "p_channels (on_generator f p) = p_channels p"
  "p_subscribers (on_generator f p) = p_subscribers p" "p_next_id (on_generator f p) = p_next_id p"
  "p_next_addr (on_generator f p) = p_next_addr p"
  "p_generator (on_channels g p) = p_generator p" "p_channels (on_channels g p) = g (p_channels p)"
  "p_subscribers (on_channels g p) = p_subscribers p" "p_next_id (on_channels g p) = p_next_id p"
  "p_next_addr (on_channels g p) = p_next_addr p"
  by (simp_all add: on_generator_def on_channels_def)

text \<open>A step that changes neither the generator nor the handles.\<close>

definition same_registries :: "actor \<Rightarrow> processor \<Rightarrow> processor \<Rightarrow> bool" where
  "same_registries x p p' \<longleftrightarrow> p_generator p' = p_generator p \<and> p_subscribers p' = p_subscribers p
     \<and> p_next_id p' = p_next_id p \<and> p_next_addr p' = p_next_addr p
     \<and> (\<forall>a. x \<noteq> Subscriber a \<longrightarrow> rx_alive (p_channels p') a = rx_alive (p_channels p) a)"

lemma same_registries_refl [simp]: "same_registries x p p"
  by (simp add: same_registries_def)

lemma quiet_advance:
  assumes "bounded p" "same_registries x p p'" "point_ok p' x pt'" "points_advance p pt pt'"
    and "\<And>i t. entering i t pt \<Longrightarrow> entering i t pt'" "\<And>i t. forgetting i t pt \<Longrightarrow> forgetting i t pt'"
    and "\<And>i. handleless i pt \<Longrightarrow> handleless i pt'"
  shows "advance x p pt p' pt'"
proof -
  have "affects (touched pt) (inserted pt) {a. x = Subscriber a} p p'"
    using assms(2) by (auto simp: affects_def same_registries_def)
  moreover have "bounded p'" using assms(1,2) by (simp add: bounded_def same_registries_def)
  moreover have "registry_advance p pt p' pt'"
    using assms(2,5,6) by (auto simp: registry_advance_def same_registries_def)
  moreover have "handle_advance p pt p' pt'"
    using assms(2,7) by (auto simp: handle_advance_def same_registries_def handled_def)
  ultimately show ?thesis using assms(3,4) by (simp add: advance_def)
qed

text \<open>Drops of channel ends and sends, seen by the other threads.\<close>

lemma distribute_alive:
  "rx_alive (fst (distribute q recvs ids ch dead)) a = rx_alive ch a"
proof (induction ids arbitrary: ch dead)
  case (Cons i ids)
  then show ?case using send_ends(1) [of ch _ q a]
    by (auto split: option.splits prod.splits sum.splits) (metis snd_conv)+
qed simp

lemma distribute_dead_ids:
  assumes "distribute q recvs ids ch dead = (ch', dead')" "i \<in> dead'"
  shows "i \<in> dead \<or> i \<in> set ids \<and> (\<exists>r. recvs i = Some r \<and> \<not> rx_alive ch (ri_channel r))"
  using assms(1)
proof (induction ids arbitrary: ch dead)
  case Nil
  then show ?case using assms(2) by simp
next
  case (Cons j ids)
  show ?case
  proof (cases "recvs j")
    case None
    then show ?thesis using Cons by auto
  next
    case (Some r)
    obtain e ch1 where send: "chan_send ch (ri_channel r) q = (e, ch1)" by force
    then have alive: "rx_alive ch1 a = rx_alive ch a" for a
      using send_ends(1) [of ch "ri_channel r" q a] by simp
    have "e = (if rx_alive ch (ri_channel r) then Inr () else Inl ())"
      using send send_result [of ch "ri_channel r" q] by simp
    with Cons Some send alive show ?thesis
      by (fastforce split: if_splits)
  qed
qed

lemma advance_insert:
  assumes "bounded p" "point_ok p x (AddInsert info ts)"
    and "run_section env (AddInsert info ts) p = (pt', p')"
  shows "advance x p (AddInsert info ts) p' pt'"
proof -
  from assms(2) have pre: "x = Subscriber (si_channel info)" "newcomer p info" "known p ts"
    "placed p x info" by (auto simp: placed_def)
  have pt': "pt' = AddSubscribe info ts" using assms(3) by simp
  have gen: "p_generator p' = (p_generator p)\<lparr>receivers := (receivers (p_generator p))
      (si_id info \<mapsto> \<lparr>ri_channel = si_channel info, ri_tickers = set ts\<rparr>)\<rparr>"
    and rest: "p_subscribers p' = p_subscribers p" "p_next_id p' = p_next_id p"
      "p_next_addr p' = p_next_addr p" "\<And>a. rx_alive (p_channels p') a = rx_alive (p_channels p) a"
    using assms(3) by (auto simp: channel)
  have lis: "listed (p_generator p') i t = listed (p_generator p) i t" for i t
    by (simp add: gen listed_def)
  have sub: "subscribed (p_generator p') i t =
      (if i = si_id info then t \<in> set ts else subscribed (p_generator p) i t)" for i t
    by (simp add: gen subscribed_def)
  have "affects {si_id info} {si_id info} {a. x = Subscriber a} p p'"
    using pre(1) by (auto simp: affects_def gen rest listed_def)
  moreover have "channels_distinct (p_generator p')"
    using assms(1) pre(2) unfolding channels_distinct_def gen bounded_def newcomer_def
    by (auto split: if_splits) blast+
  then have "bounded p'"
    using assms(1) pre(4)
    by (auto simp: bounded_def gen rest prices_ok_def placed_def split: if_splits)
  moreover have "registry_advance p (AddInsert info ts) p' pt'"
    using pre(2) by (auto simp: registry_advance_def pt' lis sub newcomer_def)
  moreover have "handle_advance p (AddInsert info ts) p' pt'"
    by (auto simp: handle_advance_def pt' gen rest handled_def)
  moreover have "point_ok p' x pt'"
    using pre by (auto simp: pt' placed_def registered_def known_def gen rest newcomer_def)
  ultimately show ?thesis by (simp add: advance_def points_advance_def pt' own_of_def)
qed

lemma advance_subscribe:
  assumes "bounded p" "point_ok p x (AddSubscribe info ts)"
    and "run_section env (AddSubscribe info ts) p = (pt', p')"
  shows "advance x p (AddSubscribe info ts) p' pt'"
proof -
  from assms(2) have pre: "registered p info" "known p ts" "placed p x info"
    "\<And>r. receivers (p_generator p) (si_id info) = Some r \<Longrightarrow> ri_tickers r = set ts" by auto
  then have own: "subscribed (p_generator p) (si_id info) t = (t \<in> set ts)" for t
    by (auto simp: registered_def subscribed_def)
  have pt': "pt' = AddHandle info" using assms(3) by simp
  have gen: "p_generator p' = (p_generator p)\<lparr>tickers_to_receivers :=
      subscribe_to (si_id info) ts (tickers_to_receivers (p_generator p))\<rparr>"
    and rest: "p_subscribers p' = p_subscribers p" "p_next_id p' = p_next_id p"
      "p_next_addr p' = p_next_addr p" "p_channels p' = p_channels p"
    using assms(3) by auto
  have lis: "listed (p_generator p') i t = (listed (p_generator p) i t \<or> i = si_id info \<and> t \<in> set ts)" for i t
    by (auto simp: gen listed_def subscribe_to_apply split: option.splits)
  have sub: "subscribed (p_generator p') = subscribed (p_generator p)"
    by (simp add: fun_eq_iff gen subscribed_def)
  have dom: "dom (tickers_to_receivers (p_generator p')) = dom (tickers_to_receivers (p_generator p))"
    using pre(2) by (auto simp: gen dom_def subscribe_to_apply known_def split: if_splits)
  have "affects {si_id info} {} {a. x = Subscriber a} p p'"
    using dom by (auto simp: affects_def rest lis fun_eq_iff) (auto simp: gen)
  moreover have "bounded p'"
    using assms(1) dom
    by (auto simp: bounded_def gen rest prices_ok_def channels_distinct_def subscribe_to_apply split: if_splits option.splits)
  moreover have "registry_advance p (AddSubscribe info ts) p' pt'"
    by (auto simp: registry_advance_def pt' lis sub own)
  moreover have "handle_advance p (AddSubscribe info ts) p' pt'"
    by (auto simp: handle_advance_def pt' gen rest handled_def)
  moreover have "point_ok p' x pt'"
    using pre by (auto simp: pt' placed_def registered_def gen rest)
  ultimately show ?thesis by (simp add: advance_def points_advance_def pt' own_of_def)
qed

lemma advance_handle:
  assumes "bounded p" "point_ok p x (AddHandle info)"
    and "run_section env (AddHandle info) p = (pt', p')"
  shows "advance x p (AddHandle info) p' pt'"
proof -
  from assms(2) have pre: "registered p info" "placed p x info" by auto
  have pt': "pt' = StreamLoop info" using assms(3) by simp
  have p': "p' = p\<lparr>p_subscribers := (p_subscribers p)(si_id info \<mapsto> \<lparr>sh_shutdown = si_shutdown info\<rparr>),
      p_spawned := p_spawned p @ [info]\<rparr>"
    using assms(3) by simp
  have "affects {} {} {a. x = Subscriber a} p p'" by (simp add: affects_def p')
  moreover have "bounded p'"
    using assms(1) pre(2) by (auto simp: bounded_def p' placed_def)
  moreover have "registry_advance p (AddHandle info) p' pt'"
    by (auto simp: registry_advance_def p')
  moreover have "handle_advance p (AddHandle info) p' pt'"
    using pre by (auto simp: handle_advance_def p' handled_def registered_def placed_def)
  ultimately show ?thesis
    using pre(2) by (simp add: advance_def points_advance_def pt' own_of_def p' placed_def)
qed

lemma advance_take:
  assumes "bounded p" "point_ok p x (TakeHandle info)"
    and "run_section env (TakeHandle info) p = (pt', p')"
  shows "advance x p (TakeHandle info) p' pt'"
proof (cases "p_subscribers p (si_id info)")
  case None
  with assms(2,3) have "pt' = Ended" "p' = on_channels (drop_receiver (si_channel info)) p"
    "x = Subscriber (si_channel info)"
    by (auto simp: placed_def)
  then show ?thesis
    by (intro quiet_advance assms(1)) (auto simp: same_registries_def channel points_advance_def own_of_def)
next
  case (Some handle)
  with assms(3) have pt': "pt' = RaiseShutdown info handle"
    and p': "p' = p\<lparr>p_subscribers := (p_subscribers p)(si_id info := None)\<rparr>" by auto
  have "affects {} {} {a. x = Subscriber a} p p'" by (simp add: affects_def p')
  moreover have "bounded p'" using assms(1) by (auto simp: bounded_def p')
  moreover have "registry_advance p (TakeHandle info) p' pt'"
    by (auto simp: registry_advance_def p')
  moreover have "handle_advance p (TakeHandle info) p' pt'"
    by (auto simp: handle_advance_def p' pt' handled_def)
  ultimately show ?thesis
    using assms(2) by (simp add: advance_def points_advance_def pt' own_of_def p' placed_def)
qed

lemma advance_remove:
  assumes "bounded p" "point_ok p x (RemoveReceiver i ts k)"
    and "run_section env (RemoveReceiver i ts k) p = (pt', p')"
  shows "advance x p (RemoveReceiver i ts k) p' pt'"
proof -
  from assms(2) have pre: "after_ok p x i k"
    "\<And>r. receivers (p_generator p) i = Some r \<Longrightarrow> ri_tickers r = set ts" by auto
  have pt': "pt' = Unsubscribe i ts k" using assms(3) by simp
  have gen: "p_generator p' = (p_generator p)\<lparr>receivers := (receivers (p_generator p))(i := None)\<rparr>"
    and rest: "p_subscribers p' = p_subscribers p" "p_next_id p' = p_next_id p"
      "p_next_addr p' = p_next_addr p" "\<And>a. rx_alive (p_channels p') a = rx_alive (p_channels p) a"
    using assms(3) by (auto simp: channel)
  have lis: "listed (p_generator p') j t = listed (p_generator p) j t" for j t
    by (simp add: gen listed_def)
  have sub: "subscribed (p_generator p') j t = (j \<noteq> i \<and> subscribed (p_generator p) j t)" for j t
    by (simp add: gen subscribed_def)
  have own: "subscribed (p_generator p) i t \<Longrightarrow> t \<in> set ts" for t
    using pre(2) by (auto simp: subscribed_def split: option.splits)
  have frame: "affects {i} {} {a. x = Subscriber a} p p'"
    by (auto simp: affects_def gen rest listed_def)
  moreover have "bounded p'"
    using assms(1)
    by (auto simp: bounded_def gen rest prices_ok_def channels_distinct_def split: if_splits)
  moreover have "registry_advance p (RemoveReceiver i ts k) p' pt'"
    using own by (auto simp: registry_advance_def pt' lis sub)
  moreover have "handle_advance p (RemoveReceiver i ts k) p' pt'"
    by (auto simp: handle_advance_def gen rest handled_def)
  moreover have "point_ok p' x pt'"
    using after_ok_frame [OF pre(1) frame] by (simp add: pt' gen)
  ultimately show ?thesis by (auto simp: advance_def points_advance_def pt' own_of_def)
qed

lemma finish_removal_after:
  assumes "finish_removal k p = (pt', p')" "after_ok p x i k"
  shows "p_generator p' = p_generator p \<and> p_subscribers p' = p_subscribers p
    \<and> p_next_id p' = p_next_id p \<and> p_next_addr p' = p_next_addr p
    \<and> (\<forall>a. x \<noteq> Subscriber a \<longrightarrow> rx_alive (p_channels p') a = rx_alive (p_channels p) a)
    \<and> point_ok p' x pt' \<and> own_info pt' = None \<and> leaving pt' \<subseteq> after_ids k
    \<and> (\<forall>j. \<not> adding j pt') \<and> (\<forall>j. \<not> joining j pt') \<and> seen pt' = {}"
  using assms by (induction k p rule: finish_removal.induct) (auto simp: placed_def channel)

lemma advance_unsubscribe:
  assumes "bounded p" "point_ok p x (Unsubscribe i ts k)"
    and "run_section env (Unsubscribe i ts k) p = (pt', p')"
  shows "advance x p (Unsubscribe i ts k) p' pt'"
proof -
  define p1 where "p1 = on_generator (\<lambda>g. g\<lparr>tickers_to_receivers :=
      unsubscribe_from i ts (tickers_to_receivers g)\<rparr>) p"
  have "after_ok p1 x i k" using assms(2) by (cases k) (auto simp: p1_def placed_def)
  moreover have "finish_removal k p1 = (pt', p')" using assms(3) by (simp add: p1_def)
  ultimately have fin: "p_generator p' = p_generator p1" "p_subscribers p' = p_subscribers p"
    "p_next_id p' = p_next_id p" "p_next_addr p' = p_next_addr p"
    "\<forall>a. x \<noteq> Subscriber a \<longrightarrow> rx_alive (p_channels p') a = rx_alive (p_channels p) a"
    "point_ok p' x pt'" "own_info pt' = None" "leaving pt' \<subseteq> after_ids k"
    "\<forall>j. \<not> adding j pt'" "\<forall>j. \<not> joining j pt'" "seen pt' = {}"
    using finish_removal_after [of k p1 pt' p' x i] by (auto simp: p1_def)
  have gen: "p_generator p' = (p_generator p)\<lparr>tickers_to_receivers :=
      unsubscribe_from i ts (tickers_to_receivers (p_generator p))\<rparr>"
    by (simp add: fin p1_def)
  have none: "receivers (p_generator p) i = None" using assms(2) by simp
  have lis: "listed (p_generator p') j t = (listed (p_generator p) j t \<and> \<not> (j = i \<and> t \<in> set ts))" for j t
    by (auto simp: gen listed_def unsubscribe_from_apply split: option.splits)
  have sub: "subscribed (p_generator p') = subscribed (p_generator p)"
    by (simp add: fun_eq_iff gen subscribed_def)
  have dom: "dom (tickers_to_receivers (p_generator p')) = dom (tickers_to_receivers (p_generator p))"
    by (auto simp: gen dom_def unsubscribe_from_apply split: if_splits)
  have "affects {i} {} {a. x = Subscriber a} p p'"
    using dom fin(5) by (auto simp: affects_def fin(2-4) lis fun_eq_iff) (auto simp: gen)
  moreover have "bounded p'"
    using assms(1) dom
    by (auto simp: bounded_def gen fin(2-4) prices_ok_def channels_distinct_def unsubscribe_from_apply split: if_splits)
  moreover have "registry_advance p (Unsubscribe i ts k) p' pt'"
    using none by (auto simp: registry_advance_def lis sub subscribed_def)
  moreover have "handle_advance p (Unsubscribe i ts k) p' pt'"
    by (auto simp: handle_advance_def gen fin(2) handled_def)
  moreover have "points_advance p (Unsubscribe i ts k) pt'"
    using fin(7-11) by (auto simp: points_advance_def own_of_def)
  ultimately show ?thesis using fin(6) by (simp add: advance_def)
qed

lemma advance_write:
  assumes "bounded p" "point_ok p x (WritePrice t price now)"
    and "run_section env (WritePrice t price now) p = (pt', p')"
  shows "advance x p (WritePrice t price now) p' pt'"
proof -
  define ps where "ps = (case prices (p_generator p) t of
      Some data \<Rightarrow> (prices (p_generator p))(t \<mapsto> data\<lparr>pc_price := price, pc_last_change := now\<rparr>)
    | None \<Rightarrow> prices (p_generator p))"
  have gen: "p_generator p' = (p_generator p)\<lparr>prices := ps\<rparr>"
    using assms(3) by (auto simp: ps_def)
  have ps: "dom ps = dom (prices (p_generator p))"
      "\<And>u d. ps u = Some d \<Longrightarrow> prices (p_generator p) u = Some d \<or> pc_price d = price"
    by (auto simp: ps_def split: option.splits if_splits)
  have rest: "p_subscribers p' = p_subscribers p" "p_next_id p' = p_next_id p"
      "p_next_addr p' = p_next_addr p" "p_channels p' = p_channels p"
    and pt': "\<exists>q. pt' = CopyIds t q \<and> q_ticker q = t"
    using assms(3) by auto
  have "prices_ok (p_generator p')"
    using assms(1,2) ps(2) by (auto simp: bounded_def gen prices_ok_def)
  then have "bounded p'"
    using assms(1) ps(1) by (auto simp: bounded_def gen rest channels_distinct_def)
  moreover have "affects {} {} {a. x = Subscriber a} p p'" by (simp add: affects_def gen rest)
  moreover have "registry_advance p (WritePrice t price now) p' pt'"
    by (auto simp: registry_advance_def gen)
  moreover have "handle_advance p (WritePrice t price now) p' pt'"
    by (auto simp: handle_advance_def gen rest handled_def)
  ultimately show ?thesis
    using assms(2) pt' by (auto simp: advance_def points_advance_def own_of_def)
qed

lemma advance_send:
  assumes "bounded p" "point_ok p x (SendQuotes t q ids)" "hash_order_ok (te_order env)"
    and "run_section env (SendQuotes t q ids) p = (pt', p')"
  shows "advance x p (SendQuotes t q ids) p' pt'"
proof -
  obtain ch dead where d: "distribute q (receivers (p_generator p)) ids (p_channels p) {} = (ch, dead)"
    by (cases "distribute q (receivers (p_generator p)) ids (p_channels p) {}")
  have alive: "rx_alive ch a = rx_alive (p_channels p) a" for a
    using distribute_alive [of q "receivers (p_generator p)" ids "p_channels p" "{}" a] d by simp
  have "dead \<subseteq> set ids" "dead \<subseteq> dead_ids p"
    using distribute_dead_ids [OF d] by (auto simp: dead_ids_def)
  moreover from this have "set (id_order (te_order env) dead) = dead"
    using assms(3) by (simp add: hash_order_ok_def finite_subset)
  ultimately have order: "set (id_order (te_order env) dead) \<subseteq> set ids \<inter> dead_ids p" by auto
  have p': "p' = p\<lparr>p_channels := ch\<rparr>"
    and pt': "pt' = TickStart t \<or> (\<exists>i is. set (i # is) \<subseteq> set ids \<inter> dead_ids p \<and> pt' = ReadReceiver i (NextDead t is))"
    using assms(4) order d
    by (cases "id_order (te_order env) dead"; auto split: if_splits)+
  show ?thesis
  proof (rule quiet_advance [OF assms(1)])
    show "same_registries x p p'" by (simp add: same_registries_def p' alive)
    show "point_ok p' x pt'" using pt' assms(2) by (fastforce simp: p' wants_def)
    show "points_advance p (SendQuotes t q ids) pt'"
      using pt' by (auto simp: points_advance_def own_of_def)
  qed auto
qed

lemma advance_copy:
  assumes "consistent p pts" "pts x = CopyIds t q" "hash_order_ok (te_order env)"
    and "run_section env (CopyIds t q) p = (pt', p')"
  shows "advance x p (CopyIds t q) p' pt'"
proof -
  have ok: "point_ok p y (pts y)" for y using assms(1) by (simp add: consistent_def)
  have "bounded p" using assms(1) by (simp add: consistent_def)
  have wants: "wants p t i" if "listed (p_generator p) i t" for i
  proof (cases "subscribed (p_generator p) i t")
    case True
    with \<open>bounded p\<close> show ?thesis
      by (auto simp: wants_def subscribed_def bounded_def split: option.splits)
  next
    case False
    with that assms(1) obtain y where "forgetting i t (pts y)"
      unfolding consistent_def agreeing_def by blast
    moreover then obtain ts k where "pts y = Unsubscribe i ts k" by (cases "pts y") auto
    ultimately show ?thesis
      using ok [of y] ids_below(2) [OF ok [of y], of i] by (simp add: wants_def)
  qed
  define ids where "ids = (case tickers_to_receivers (p_generator p) t of
      None \<Rightarrow> [] | Some ids \<Rightarrow> id_order (te_order env) ids)"
  have "set ids = {i. listed (p_generator p) i t}"
    using \<open>bounded p\<close> assms(3)
    by (auto simp: ids_def listed_def bounded_def hash_order_ok_def split: option.splits)
  then have ids: "\<forall>i \<in> set ids. listed (p_generator p) i t" by simp
  have distinct: "distinct ids"
    using \<open>bounded p\<close> assms(3) by (auto simp: ids_def bounded_def hash_order_ok_def split: option.splits)
  have "(pt', p') = (SendQuotes t q ids, p)" using assms(4) by (simp only: ids_def run_section.simps)
  then have eq: "pt' = SendQuotes t q ids" "p' = p" by simp_all
  show ?thesis
    using ids distinct wants ok [of x] assms(2)
    by (intro quiet_advance \<open>bounded p\<close>) (auto simp: eq points_advance_def own_of_def)
qed

lemma run_advance:
  assumes "consistent p pts" "hash_order_ok (te_order env)"
    and "run_section env (pts x) p = (pt', p')"
  shows "advance x p (pts x) p' pt'"
proof -
  have ok: "point_ok p x (pts x)" and b: "bounded p" using assms(1) by (simp_all add: consistent_def)
  have quiet: "same_registries x p p' \<Longrightarrow> point_ok p' x pt' \<Longrightarrow> points_advance p (pts x) pt'
      \<Longrightarrow> (\<And>i t. entering i t (pts x) \<Longrightarrow> entering i t pt') \<Longrightarrow> (\<And>i t. forgetting i t (pts x) \<Longrightarrow> forgetting i t pt')
      \<Longrightarrow> (\<And>i. handleless i (pts x) \<Longrightarrow> handleless i pt') \<Longrightarrow> ?thesis"
    by (rule quiet_advance [OF b])
  have still: ?thesis if "run_section env (pts x) p = (pts x, p)"
    using that assms(3) ok by (intro quiet) (auto simp: points_advance_def)
  show ?thesis
  proof (cases "pts x")
    case (StreamLoop info)
    then show ?thesis by (intro still) simp
  next
    case Ended
    then show ?thesis by (intro still) simp
  next
    case (AddCheck info ts)
    with ok have "x = Subscriber (si_channel info)" by (simp add: placed_def)
    with AddCheck ok assms(3) show ?thesis
      by (intro quiet) (auto simp: same_registries_def channel points_advance_def own_of_def known_def
          check_tickers_None split: option.splits)
  next
    case (ReadReceiver i k)
    then have pt': "pt' = RemoveReceiver i (case receivers (p_generator p) i of
        None \<Rightarrow> [] | Some r \<Rightarrow> str_order (te_order env) (ri_tickers r)) k" "p' = p"
      using assms(3) by auto
    have "set (str_order (te_order env) (ri_tickers r)) = ri_tickers r"
      if "receivers (p_generator p) i = Some r" for r
      using that b assms(2) by (auto simp: bounded_def hash_order_ok_def)
    with ReadReceiver ok show ?thesis
      by (intro quiet) (auto simp: pt' points_advance_def own_of_def)
  next
    case (CopyIds t q)
    then show ?thesis using advance_copy [OF assms(1) CopyIds assms(2)] assms(3) by (simp only: CopyIds)
  next
    case (SendQuotes t q ids)
    then show ?thesis using advance_send [OF b _ assms(2)] ok assms(3) by (simp only: SendQuotes)
  next
    case (RaiseShutdown info handle)
    with assms(3) ok show ?thesis
      by (intro quiet) (auto simp: same_registries_def points_advance_def own_of_def placed_def)
  next
    case (ReadPrice t)
    with assms(3) ok show ?thesis
      by (intro quiet)
         (auto simp: points_advance_def own_of_def min_le_new_price split: option.splits outcome.splits)
  qed (use assms(3) ok b in \<open>auto intro: advance_insert advance_subscribe advance_handle advance_take
      advance_remove advance_unsubscribe advance_write simp del: run_section.simps\<close>,
      (intro quiet_advance; auto simp: points_advance_def own_of_def split: if_splits)+)
qed

section \<open>Reachable states\<close>

definition locked_inv :: "locked \<Rightarrow> bool" where
  "locked_inv s \<longleftrightarrow> consistent (lk_proc s) (point_of s)"

lemma point_of_move: "point_of (move x st s) = (point_of s)(x := fst st)"
  by (simp add: fun_eq_iff point_of_def move_def)

lemma move_inv:
  "locked_inv s \<Longrightarrow> advance x (lk_proc s) (point_of s x) p' pt' \<Longrightarrow> locked_inv (move x (pt', p') s)"
  unfolding locked_inv_def point_of_move using advance_consistent by (simp add: move_def)

lemma point_of_unmoved [simp]:
  "point_of (s\<lparr>lk_inside := I\<rparr>) = point_of s" "point_of (s\<lparr>lk_proc := p\<rparr>) = point_of s"
  by (simp_all add: fun_eq_iff point_of_def)

lemma point_of_at: "lk_points s x = Some pt \<Longrightarrow> point_of s x = pt"
  by (simp add: point_of_def)

text \<open>A change of the processor that no point relies on.\<close>

lemma same_inv:
  assumes "locked_inv s" "\<And>x. same_registries x (lk_proc s) p'"
  shows "locked_inv (s\<lparr>lk_proc := p'\<rparr>)"
proof -
  let ?x = "Subscriber 0"
  have ok: "point_ok (lk_proc s) ?x (point_of s ?x)" "bounded (lk_proc s)"
    using assms(1) by (simp_all add: locked_inv_def consistent_def)
  have "affects {} {} {} (lk_proc s) p'"
    using assms(2) [of "Ticker []"] by (auto simp: affects_def same_registries_def)
  from point_ok_frame [OF ok(1) this] have "point_ok p' ?x (point_of s ?x)" by simp
  then have "advance ?x (lk_proc s) (point_of s ?x) p' (point_of s ?x)"
    using ok assms(2) by (intro quiet_advance) (auto simp: points_advance_def)
  then have "consistent p' ((point_of s)(?x := point_of s ?x))"
    using advance_consistent assms(1) by (simp only: locked_inv_def)
  then show ?thesis by (simp add: locked_inv_def)
qed

lemma stream_step_same:
  assumes "stream_step bc info (p, sent) err = Continue (p', sent')
    \<or> stream_step bc info (p, sent) err = Break (p', sent')"
  shows "same_registries x p p'"
  using stream_channels [OF assms] by (auto simp: same_registries_def recv_ends)

lemma after_ok_below: "after_ok p (Subscriber a) i k \<Longrightarrow> a < p_next_addr p"
  by (cases k) (auto simp: placed_def)

lemma begin_advance:
  assumes "locked_inv s" "p_next_id (lk_proc s) \<noteq> - 1" "begin_request cmd (lk_proc s) = (pt', p')"
  shows "advance (Subscriber (p_next_addr (lk_proc s))) (lk_proc s)
    (point_of s (Subscriber (p_next_addr (lk_proc s)))) p' pt'"
proof -
  let ?p = "lk_proc s" and ?x = "Subscriber (p_next_addr (lk_proc s))"
  have ok: "point_ok ?p y (point_of s y)" for y using assms(1) by (simp add: locked_inv_def consistent_def)
  have b: "bounded ?p" "agreeing ?p (point_of s)" using assms(1) by (simp_all add: locked_inv_def consistent_def)
  have old: "point_of s ?x = Ended"
    using ok [of ?x] by (cases "point_of s ?x") (auto simp: placed_def dest: after_ok_below)
  have less: "p_next_id ?p < p_next_id ?p + 1" using next_id_step [OF _ assms(2)] by simp
  have none: "receivers (p_generator ?p) (p_next_id ?p) = None"
    using b(1) by (metis bounded_def less_irrefl not_None_eq)
  have unlisted: "\<not> listed (p_generator ?p) (p_next_id ?p) t" for t
  proof
    assume "listed (p_generator ?p) (p_next_id ?p) t"
    with b(2) none obtain y where "forgetting (p_next_id ?p) t (point_of s y)"
      unfolding agreeing_def by (fastforce simp: subscribed_def)
    then have "p_next_id ?p \<in> leaving (point_of s y)" by (cases "point_of s y") auto
    from ids_below(2) [OF ok this] show False by simp
  qed
  have p': "p_generator p' = p_generator ?p" "p_subscribers p' = p_subscribers ?p"
    "p_next_id p' = p_next_id ?p + 1" "p_next_addr p' = p_next_addr ?p + 1"
    "p_channels p' = (p_channels ?p)(p_next_addr ?p \<mapsto> new_channel)"
    and pt': "\<exists>info ts. pt' = AddEnter info ts \<and> si_id info = p_next_id ?p
      \<and> si_channel info = p_next_addr ?p \<and> si_shutdown info = p_next_addr ?p"
    using assms(3) by (auto simp: begin_request_def)
  have unused: "ri_channel r \<noteq> p_next_addr ?p" if "receivers (p_generator ?p) i = Some r" for i r
    using b(1) that by (metis bounded_def less_irrefl)
  have "bounded p'"
    using b(1) next_id_step [OF _ assms(2)] by (auto simp: bounded_def p' less_SucI)
  moreover have "point_ok p' ?x pt'"
    using pt' less none unlisted unused
    by (auto simp: placed_def newcomer_def p' channel)
  moreover have "affects {} {} {a. ?x = Subscriber a} ?p p'"
    using less by (auto simp: affects_def p' channel)
  moreover have "points_advance ?p Ended pt'" using pt' by (auto simp: points_advance_def own_of_def)
  moreover have "registry_advance ?p Ended p' pt'" by (auto simp: registry_advance_def p')
  moreover have "handle_advance ?p Ended p' pt'" by (auto simp: handle_advance_def p' handled_def)
  ultimately show ?thesis by (simp add: advance_def old)
qed

lemma step_locked_inv:
  "locked_step bc s e s' \<Longrightarrow> locked_inv s \<Longrightarrow> locked_inv s'"
proof (induction rule: locked_step.induct)
  case (request s cmd)
  then show ?case
    using move_inv [OF request(2) begin_advance [OF request(2,1)]] by (metis prod.collapse)
next
  case (acquire s x)
  then show ?case by (simp add: locked_inv_def)
next
  case (run s x pt env)
  then have "consistent (lk_proc s) (point_of s)" by (simp add: locked_inv_def)
  from run_advance [OF this run(3), of x] run show ?case
    by (metis move_inv point_of_at prod.collapse)
next
  case (stream s a info err p' sent)
  then show ?case using stream_step_same by (blast intro: same_inv)
next
  case (stream_stops s a info err p' sent)
  then have at: "point_of s (Subscriber a) = StreamLoop info" by (simp add: point_of_at)
  then have "point_ok (lk_proc s) (Subscriber a) (StreamLoop info)" "bounded (lk_proc s)"
    using stream_stops(3) by (simp_all add: locked_inv_def consistent_def del: point_ok.simps) (metis at)
  then show ?case
    using stream_step_same [of bc info "lk_proc s" "[]" err p' sent "Subscriber a"] stream_stops(2)
    by (intro move_inv [OF stream_stops(3)], unfold at)
       (intro quiet_advance; auto simp: same_registries_def placed_def points_advance_def own_of_def)
next
  case (bind_fails s a info)
  then have at: "point_of s (Subscriber a) = StreamLoop info" by (simp add: point_of_at)
  then have "point_ok (lk_proc s) (Subscriber a) (StreamLoop info)" "bounded (lk_proc s)"
    using bind_fails(2) by (simp_all add: locked_inv_def consistent_def del: point_ok.simps) (metis at)
  then show ?case
    by (intro move_inv [OF bind_fails(2)], unfold at)
       (intro quiet_advance; auto simp: points_advance_def own_of_def)
next
  case (stream_dies s a info)
  then have at: "point_of s (Subscriber a) = StreamLoop info" by (simp add: point_of_at)
  then have "point_ok (lk_proc s) (Subscriber a) (StreamLoop info)" "bounded (lk_proc s)"
    using stream_dies(2) by (simp_all add: locked_inv_def consistent_def del: point_ok.simps) (metis at)
  then show ?case
    unfolding finish_removal.simps
    by (intro move_inv [OF stream_dies(2)], unfold at)
       (intro quiet_advance; auto simp: same_registries_def placed_def channel points_advance_def own_of_def)
next
  case (monitor_gives_up s a)
  then show ?case by (intro same_inv) (simp_all add: same_registries_def)
qed

lemma run_locked_inv: "locked_run bc s es s' \<Longrightarrow> locked_inv s \<Longrightarrow> locked_inv s'"
  by (induction rule: locked_run.induct) (auto dest: step_locked_inv)

lemma start_points: "point_of (locked_start p) x = (case x of
    Ticker t \<Rightarrow> if prices (p_generator p) t = None then Ended else TickStart t | Subscriber a \<Rightarrow> Ended)"
  by (simp add: point_of_def locked_start_def split: actor.split)

lemma start_locked_inv:
  assumes "processor_inv p"
  shows "locked_inv (locked_start p)"
proof -
  have ok: "registry_inv (p_generator p)" "generator_ok (p_generator p)"
    using assms by (simp_all add: processor_inv_def generator_ok_def)
  have "bounded p"
    using ok receiver_bounds [OF assms] assms
    by (auto simp: bounded_def generator_ok_def registry_inv_def processor_inv_def)
  moreover have "agreeing p (point_of (locked_start p))"
    using ok(1) by (simp add: agreeing_def registry_inv_def)
  moreover have "accounted p (point_of (locked_start p))"
    using assms by (auto simp: accounted_def processor_inv_def handled_def)
  moreover have "point_ok p x (point_of (locked_start p) x)" for x
    by (simp add: start_points split: actor.split)
  moreover have "apart (point_of (locked_start p) x) (point_of (locked_start p) y)" for x y
    by (simp add: start_points apart_def split: actor.split)
  moreover have "lk_proc (locked_start p) = p" by (simp add: locked_start_def)
  ultimately show ?thesis by (simp add: locked_inv_def consistent_def)
qed

lemma reachable_inv: "processor_inv p \<Longrightarrow> locked_run bc (locked_start p) es s \<Longrightarrow> locked_inv s"
  using run_locked_inv start_locked_inv by blast

text \<open>No operation is under way: the processor's invariant holds.\<close>

definition settled :: "locked \<Rightarrow> bool" where
  "settled s \<longleftrightarrow> (\<forall>x pt. lk_points s x = Some pt \<longrightarrow> \<not> busy pt)"

lemma not_busy: "\<not> busy pt \<Longrightarrow> \<not> entering i t pt \<and> \<not> forgetting i t pt \<and> \<not> handleless i pt"
  by (cases pt) (auto simp: busy_def)

lemma settled_inv:
  assumes "locked_inv s" "settled s"
  shows "processor_inv (lk_proc s)"
proof -
  have quiet: "\<not> busy (point_of s x)" for x
    using assms(2) by (auto simp: settled_def point_of_def busy_def split: option.splits)
  have c: "bounded (lk_proc s)" "agreeing (lk_proc s) (point_of s)" "accounted (lk_proc s) (point_of s)"
    using assms(1) by (simp_all add: locked_inv_def consistent_def)
  have agree: "subscribed (p_generator (lk_proc s)) i t = listed (p_generator (lk_proc s)) i t" for i t
    using c(2) not_busy [OF quiet] unfolding agreeing_def by blast
  have handled: "handled (lk_proc s) i r" if "receivers (p_generator (lk_proc s)) i = Some r" for i r
    using c(3) not_busy [OF quiet] that unfolding accounted_def by blast
  have "registry_inv (p_generator (lk_proc s))"
    using c(1) agree by (auto simp: registry_inv_def bounded_def)
  with c(1) handled show ?thesis
    by (auto simp: processor_inv_def generator_ok_def bounded_def handled_def)
qed

section \<open>A thread that nobody disturbs\<close>

lemma locked_run_trans:
  "locked_run bc s' fs s'' \<Longrightarrow> locked_run bc s es s' \<Longrightarrow> locked_run bc s (es @ fs) s''"
proof (induction rule: locked_run.induct)
  case (locked_snoc s fs s' e s'')
  then show ?case using locked_run.locked_snoc by (metis append_assoc)
qed simp

lemma locked_run_one: "locked_step bc s e s' \<Longrightarrow> locked_run bc s [e] s'"
  using locked_run.locked_snoc [OF locked_run.locked_nil] by fastforce

lemma finishing_locked: "finishing_run bc s s' \<Longrightarrow> \<exists>es. locked_run bc s es s'"
proof (induction rule: finishing_run.induct)
  case (finished s)
  show ?case by (blast intro: locked_run.locked_nil)
next
  case (finishing s e s' s'')
  then show ?case using locked_run_trans locked_run_one by blast
qed

text \<open>
  With every other thread outside the locks, a thread runs its sections as \<open>run_alone\<close>
  does.
\<close>

definition undisturbed :: "locked \<Rightarrow> actor \<Rightarrow> bool" where
  "undisturbed s x \<longleftrightarrow> lk_inside s = {}
     \<and> (\<forall>y pt. y \<noteq> x \<longrightarrow> lk_points s y = Some pt \<longrightarrow> kept_guards pt = [])"

lemma undisturbed_start: "undisturbed (locked_start p) x"
  by (simp add: undisturbed_def locked_start_def split: actor.split)

lemma undisturbed_move: "undisturbed s x \<Longrightarrow> undisturbed (move x st s) x"
  by (simp add: undisturbed_def move_def)

lemma undisturbed_acquired:
  "undisturbed s x \<Longrightarrow> undisturbed (move x st (s\<lparr>lk_inside := {x}\<rparr>)) x"
  by (simp add: undisturbed_def move_def)

lemma move_move: "move x st' (move x st s) = move x st' s"
  by (simp add: move_def)

lemma undisturbed_can_acquire:
  assumes "undisturbed s x" "lk_points s x = Some pt" "section_lock pt \<noteq> None"
  shows "can_acquire s x"
proof -
  have "(l, n) \<notin> set (guards_of s y)" if "y \<noteq> x" for l n y
    using assms(1) that by (auto simp: undisturbed_def guards_of_def guards_def split: option.splits)
  then show ?thesis
    using assms by (auto simp: can_acquire_def undisturbed_def split: prod.splits)
qed

lemma section_alone:
  assumes "undisturbed s x" "hash_order_ok (te_order env)"
    and "lk_points s x = Some pt" "run_section env pt (lk_proc s) = st"
  shows "\<exists>es. locked_run bc s es (move x st s)"
proof (cases "section_lock pt")
  case None
  with locked_step.run [of s x pt env bc] assms show ?thesis by (blast intro: locked_run_one)
next
  case (Some l)
  let ?s = "s\<lparr>lk_inside := insert x (lk_inside s)\<rparr>"
  have "locked_step bc s (Acquire x) ?s"
    using assms(1,3) Some by (intro locked_step.acquire undisturbed_can_acquire) auto
  moreover have "locked_step bc ?s (Run x env) (move x st ?s)"
    using locked_step.run [of ?s x pt env bc] assms(2-4) by simp
  moreover have "move x st ?s = move x st s" using assms(1) by (simp add: move_def undisturbed_def)
  ultimately have "locked_run bc s ([Acquire x] @ [Run x env]) (move x st s)"
    using locked_run_trans locked_run_one by metis
  then show ?thesis by blast
qed

lemma lone_run:
  assumes "undisturbed s x" "hash_order_ok (te_order env)"
    and "lk_points s x = Some pt" "run_alone env n (pt, lk_proc s) = st"
  shows "\<exists>es. locked_run bc s es (move x st s)"
  using assms
proof (induction n arbitrary: s pt)
  case 0
  then have "move x st s = s" by (auto simp: move_def undisturbed_def fun_upd_idem)
  then show ?case using locked_run.locked_nil by metis
next
  case (Suc n)
  obtain pt1 p1 where one: "run_section env pt (lk_proc s) = (pt1, p1)" by force
  let ?s = "move x (pt1, p1) s"
  obtain es where es: "locked_run bc s es ?s" using section_alone [OF Suc.prems(1-3) one] by blast
  have "run_alone env n (pt1, lk_proc ?s) = st" "lk_points ?s x = Some pt1"
    using Suc.prems(4) one by (simp_all add: run_alone_Suc move_def)
  with Suc.IH [OF undisturbed_move [OF Suc.prems(1)] Suc.prems(2)] obtain fs where
    "locked_run bc ?s fs (move x st ?s)" by blast
  then show ?case using locked_run_trans [OF _ es] by (auto simp: move_move)
qed

section \<open>Concrete inputs\<close>

lemma example_send_one:
  "\<exists>ch. distribute q (receivers (p_generator subscribed_processor)) [0]
     (p_channels subscribed_processor) {} = (ch, {}) \<and> queue_at ch 0 = [q]"
proof -
  obtain ch dead where d: "distribute q (receivers (p_generator subscribed_processor)) [0]
      (p_channels subscribed_processor) {} = (ch, dead)" by (metis prod.exhaust)
  have "channels_distinct (p_generator subscribed_processor)"
    using subscribed_processor_inv by (simp add: processor_inv_def generator_ok_def)
  note spec = distribute_spec [OF d _ this [unfolded channels_distinct_def], of 0]
  have "dead = {}" using spec by (simp add: subscribed_registries)
  moreover have "to_channel (receivers (p_generator subscribed_processor)) [0] 0"
    by (simp add: to_channel_def subscribed_registries)
  with spec have "queue_at ch 0 = [q]"
    by (simp only: subscribed_registries(5,6) if_True simp_thms append_Nil distinct_singleton)
  ultimately show ?thesis using d by blast
qed

lemma example_finite: "finite (dom (prices (p_generator example_processor)))"
  by (simp add: example_processor_def example_generator_facts)

abbreviation example_request :: locked where
  "example_request \<equiv> move (Subscriber 0) (begin_request example_command example_processor)
     (locked_start example_processor)"

lemma example_requested:
  "locked_run reference_bincode (locked_start example_processor) [Request example_command] example_request"
proof -
  have p: "lk_proc (locked_start example_processor) = example_processor" by (simp add: locked_start_def)
  show ?thesis
    using locked_step.request [of "locked_start example_processor" reference_bincode example_command]
    by (intro locked_run_one) (simp add: p example_ids)
qed

lemma acquire_alone:
  "undisturbed s x \<Longrightarrow> lk_points s x = Some pt \<Longrightarrow> section_lock pt \<noteq> None \<Longrightarrow>
     locked_step bc s (Acquire x) (s\<lparr>lk_inside := {x}\<rparr>)"
  using locked_step.acquire [of s x bc] undisturbed_can_acquire by (simp add: undisturbed_def)

text \<open>The steps of a tick from its copy of the ids on.\<close>

lemma example_tick:
  "\<exists>es s s1 s2 s3 q. locked_run reference_bincode (locked_start subscribed_processor) es s
     \<and> lk_points s (Ticker ''XYZ'') = Some (CopyIds ''XYZ'' q) \<and> q_ticker q = ''XYZ''
     \<and> listed (p_generator (lk_proc s)) 0 ''XYZ''
     \<and> locked_step reference_bincode s (Run (Ticker ''XYZ'') example_env) s1
     \<and> locked_step reference_bincode s1 (Acquire (Ticker ''XYZ'')) s2
     \<and> lk_points s2 (Ticker ''XYZ'') = Some (SendQuotes ''XYZ'' q [0])
     \<and> receivers (p_generator (lk_proc s2)) = receivers (p_generator subscribed_processor)
     \<and> p_channels (lk_proc s2) = p_channels subscribed_processor
     \<and> locked_step reference_bincode s2 (Run (Ticker ''XYZ'') example_env) s3
     \<and> queue_at (p_channels (lk_proc s3)) 0 = [q]"
proof -
  let ?start = "locked_start subscribed_processor" and ?t = "Ticker ''XYZ''"
  let ?q = "\<lparr>q_ticker = ''XYZ'', q_price = generate_new_price low_rng MIN_PRICE,
      q_volume = random_volume low_rng ''XYZ'', q_timestamp = 5\<rparr>"
  let ?p = "on_generator (\<lambda>g. g\<lparr>prices := (prices g)(''XYZ'' \<mapsto>
        \<lparr>pc_price = q_price ?q, pc_last_change = 5\<rparr>)\<rparr>) subscribed_processor"
  let ?s = "move ?t (CopyIds ''XYZ'' ?q, ?p) ?start"
  have order: "hash_order_ok (te_order example_env)" by (simp add: sorted_order_ok)
  have "run_section example_env (TickStart ''XYZ'') subscribed_processor = (ReadPrice ''XYZ'', subscribed_processor)"
    by (simp add: subscribed_registries)
  moreover have "run_section example_env (ReadPrice ''XYZ'') subscribed_processor =
      (WritePrice ''XYZ'' (q_price ?q) 5, subscribed_processor)"
    by (simp add: subscribed_registries unix_millis_def)
  moreover have "run_section example_env (WritePrice ''XYZ'' (q_price ?q) 5) subscribed_processor =
      (CopyIds ''XYZ'' ?q, ?p)"
    by (simp add: on_generator_def subscribed_registries)
  ultimately have "run_alone example_env 3 (TickStart ''XYZ'', lk_proc ?start) = (CopyIds ''XYZ'' ?q, ?p)"
    by (simp add: run_alone_Suc numeral_eq_Suc locked_start_def del: run_section.simps)
  moreover have "lk_points ?start ?t = Some (TickStart ''XYZ'')"
    by (simp add: locked_start_def subscribed_registries)
  ultimately obtain es where es: "locked_run reference_bincode ?start es ?s"
    using lone_run [OF undisturbed_start order] by blast
  let ?i = "?s\<lparr>lk_inside := {?t}\<rparr>"
  have "locked_step reference_bincode ?s (Acquire ?t) ?i"
    by (rule acquire_alone [OF undisturbed_move [OF undisturbed_start]]) (simp add: move_def, simp)
  from locked_run.locked_snoc [OF es this] have run: "locked_run reference_bincode ?start (es @ [Acquire ?t]) ?i" .
  let ?s1 = "move ?t (SendQuotes ''XYZ'' ?q [0], ?p) ?i"
  have copied: "run_section example_env (CopyIds ''XYZ'' ?q) (lk_proc ?i) = (SendQuotes ''XYZ'' ?q [0], ?p)"
    by (simp add: move_def subscribed_registries sorted_order_def)
  have copy: "locked_step reference_bincode ?i (Run ?t example_env) ?s1"
    unfolding copied [symmetric] by (rule locked_step.run) (simp_all add: move_def sorted_order_ok)
  let ?s2 = "?s1\<lparr>lk_inside := {?t}\<rparr>"
  have "undisturbed ?s1 ?t"
    by (intro undisturbed_acquired undisturbed_move undisturbed_start)
  then have acquired: "locked_step reference_bincode ?s1 (Acquire ?t) ?s2"
    by (rule acquire_alone) (simp add: move_def, simp)
  let ?s3 = "move ?t (run_section example_env (SendQuotes ''XYZ'' ?q [0]) (lk_proc ?s2)) ?s2"
  have send: "locked_step reference_bincode ?s2 (Run ?t example_env) ?s3"
    by (rule locked_step.run) (simp_all add: move_def sorted_order_ok)
  obtain ch where "distribute ?q (receivers (p_generator subscribed_processor)) [0]
      (p_channels subscribed_processor) {} = (ch, {})" "queue_at ch 0 = [?q]"
    using example_send_one by blast
  then have "queue_at (p_channels (lk_proc ?s3)) 0 = [?q]"
    by (simp add: move_def del: distribute.simps)
  then show ?thesis
    using run copy acquired send
    by (intro exI [of _ "es @ [Acquire ?t]"] exI [of _ ?i] exI [of _ ?s1] exI [of _ ?s2] exI [of _ ?s3] exI [of _ ?q])
       (simp add: move_def listed_def subscribed_registries)
qed

lemma start_finite:
  assumes "finite (dom (prices (p_generator p)))"
  shows "finite (dom (lk_points (locked_start p)))"
proof -
  have "dom (lk_points (locked_start p)) \<subseteq> Ticker ` dom (prices (p_generator p))"
    by (force simp: locked_start_def split: actor.splits if_splits)
  with assms show ?thesis by (meson finite_imageI finite_subset)
qed

section \<open>Properties\<close>

text \<open>
  Claim C13. No deadlock: whatever sections requests, removals and ticks have reached in
  whatever order, everything that was begun can be finished, under \<open>parking_lot\<close>'s rule
  that readers give way to waiting writers, until no thread waits for a lock or holds one.
\<close>

theorem operations_finish:
  assumes "finite (dom (prices (p_generator p)))" "locked_run bc (locked_start p) es s"
  shows "\<exists>s'. finishing_run bc s s' \<and> settled s'"
  using finishes [OF run_finite [OF assms(2) start_finite [OF assms(1)]]] by (simp only: settled_def)

theorem operations_finish_witness:
  "\<exists>s. finishing_run reference_bincode example_request s \<and> settled s"
  by (rule operations_finish [OF example_finite example_requested])

text \<open>
  Claim C14. The registries between the locks: in every interleaving of the critical
  sections the two maps of the generator disagree on a subscription only while some
  thread is about to list it or to unlist it; and whenever no operation is under way the
  whole invariant of the processor holds, as it does between the unbroken operations.
\<close>

theorem registries_settle:
  assumes "processor_inv p" "locked_run bc (locked_start p) es s"
  shows "(subscribed (p_generator (lk_proc s)) i t \<noteq> listed (p_generator (lk_proc s)) i t \<longrightarrow>
      (\<exists>x pt. lk_points s x = Some pt \<and> (entering i t pt \<or> forgetting i t pt)))
    \<and> (settled s \<longrightarrow> processor_inv (lk_proc s))"
proof -
  note inv = reachable_inv [OF assms]
  have "\<exists>x. entering i t (point_of s x) \<or> forgetting i t (point_of s x)"
    if "subscribed (p_generator (lk_proc s)) i t \<noteq> listed (p_generator (lk_proc s)) i t"
    using that inv unfolding locked_inv_def consistent_def agreeing_def by blast
  then show ?thesis
    using settled_inv [OF inv] by (fastforce simp: point_of_def split: option.splits)
qed

theorem registries_settle_witness:
  "\<exists>es s. locked_run reference_bincode (locked_start example_processor) (Request example_command # es) s
     \<and> settled s \<and> processor_inv (lk_proc s)"
proof -
  obtain es s where s: "locked_run reference_bincode example_request es s" "settled s"
    using finishes [of example_request] run_finite [OF example_requested] finishing_locked
    by (metis start_finite [OF example_finite] settled_def)
  have run: "locked_run reference_bincode (locked_start example_processor) (Request example_command # es) s"
    using locked_run_trans [OF s(1) example_requested] by simp
  with registries_settle [OF example_processor_inv run] s(2) show ?thesis by blast
qed

text \<open>
  Claim C16. Cut into critical sections the code does what it does in one piece: run by
  themselves, with the same random numbers, clock and hash order, the sections of a
  request, of the end of a streaming thread and of one tick compute \<open>add_subscriber\<close>,
  \<open>remove_subscriber\<close> and one iteration of \<open>start_for_quote\<close>.
\<close>

theorem sections_refine:
  "(\<exists>n. run_alone env n (begin_request cmd p) =
      (case add_subscriber cmd p of
         (Inr i, p') \<Rightarrow> (StreamLoop (last (p_spawned p')), p')
       | (Inl e, p') \<Rightarrow> (Ended, p')))
   \<and> (\<exists>n. run_alone env n (TakeHandle info, p) =
      (Ended, on_channels (drop_receiver (si_channel info)) (remove_subscriber (te_order env) (si_id info) p)))
   \<and> (\<exists>n. run_alone env n (TickStart t, p) =
      (case start_for_quote_step t (p_generator p, p_channels p, {}) env of
         Continue (g, ch, _) \<Rightarrow> (TickStart t, p\<lparr>p_generator := g, p_channels := ch\<rparr>)
       | Break (_, g, ch) \<Rightarrow> (Ended, p\<lparr>p_generator := g, p_channels := ch\<rparr>)))"
  by (intro conjI add_alone remove_alone tick_alone)

end
