(* ===== verification/Broker.thy ===== *)
theory Broker
  imports Server Interleaving
begin

text \<open>
  The server as an abstract message broker, and the proof that both models of its threads,
  the one that interleaves whole operations and the one that interleaves critical
  sections, refine it. The broker knows who subscribes to what and what waits in whose
  inbox; it has no second registry, no handles, no flags and no locks.
\<close>

section \<open>The broker\<close>

text \<open>
  A subscriber has an inbox, named by the address of its channel, and its tickers; an inbox
  that is closed is absent. \<open>Publish q D\<close> puts a quote into the open inboxes of the
  subscribers in \<open>D\<close>, who have to have asked for it.
\<close>

record broker =
  bk_subs :: "u64 \<rightharpoonup> receiver_info"
  bk_inbox :: "nat \<rightharpoonup> stock_quote list"

datatype broker_event =
    Open nat
  | Join u64 receiver_info
  | Leave u64
  | Publish stock_quote "u64 set"
  | Take nat
  | Close nat

definition subscribers :: "broker \<Rightarrow> string \<Rightarrow> u64 set" where
  "subscribers b t = {i. \<exists>r. bk_subs b i = Some r \<and> t \<in> ri_tickers r}"

definition inbox_of :: "broker \<Rightarrow> u64 set \<Rightarrow> nat \<Rightarrow> bool" where
  "inbox_of b D a \<longleftrightarrow> (\<exists>i \<in> D. \<exists>r. bk_subs b i = Some r \<and> ri_channel r = a)"

inductive broker_step :: "broker \<Rightarrow> broker_event \<Rightarrow> broker \<Rightarrow> bool" where
  open_inbox: "\<not> inbox_of b UNIV a \<Longrightarrow> broker_step b (Open a) (b\<lparr>bk_inbox := (bk_inbox b)(a \<mapsto> [])\<rparr>)"
| join: "bk_subs b i = None \<Longrightarrow> \<not> inbox_of b UNIV (ri_channel r) \<Longrightarrow> bk_inbox b (ri_channel r) \<noteq> None \<Longrightarrow>
    broker_step b (Join i r) (b\<lparr>bk_subs := (bk_subs b)(i \<mapsto> r)\<rparr>)"
| leave: "broker_step b (Leave i) (b\<lparr>bk_subs := (bk_subs b)(i := None)\<rparr>)"
| publish: "D \<subseteq> subscribers b (q_ticker q) \<Longrightarrow>
    broker_step b (Publish q D) (b\<lparr>bk_inbox := (\<lambda>a. if inbox_of b D a
      then map_option (\<lambda>qs. qs @ [q]) (bk_inbox b a) else bk_inbox b a)\<rparr>)"
| take: "bk_inbox b a = Some (q # qs) \<Longrightarrow> broker_step b (Take a) (b\<lparr>bk_inbox := (bk_inbox b)(a \<mapsto> qs)\<rparr>)"
| close: "broker_step b (Close a) (b\<lparr>bk_inbox := (bk_inbox b)(a := None)\<rparr>)"

inductive broker_run :: "broker \<Rightarrow> broker_event list \<Rightarrow> broker \<Rightarrow> bool" where
  broker_nil: "broker_run b [] b"
| broker_cons: "broker_step b e b' \<Longrightarrow> broker_run b' es b'' \<Longrightarrow> broker_run b (e # es) b''"

inductive_simps broker_run_simps [simp]:
  "broker_run b [] b'"
  "broker_run b (e # es) b'"

lemma broker_run_append:
  "broker_run b es b' \<Longrightarrow> broker_run b' fs b'' \<Longrightarrow> broker_run b (es @ fs) b''"
  by (induction rule: broker_run.induct) auto

lemma broker_leaves:
  "broker_run b (map Leave is) (b\<lparr>bk_subs := (\<lambda>i. if i \<in> set is then None else bk_subs b i)\<rparr>)"
proof (induction "is" arbitrary: b)
  case (Cons i "is")
  have "b\<lparr>bk_subs := (bk_subs b)(i := None)\<rparr>\<lparr>bk_subs := (\<lambda>j. if j \<in> set is then None
      else bk_subs (b\<lparr>bk_subs := (bk_subs b)(i := None)\<rparr>) j)\<rparr>
    = b\<lparr>bk_subs := (\<lambda>j. if j \<in> set (i # is) then None else bk_subs b j)\<rparr>"
    by (simp add: fun_eq_iff)
  with Cons.IH [of "b\<lparr>bk_subs := (bk_subs b)(i := None)\<rparr>"] show ?case
    by (auto intro!: broker_step.leave exI)
qed simp

text \<open>
  The broker keeps its inboxes apart, and an inbox is a queue: as long as a subscriber
  stays and its inbox is open, the inbox holds what was published to the subscriber, in
  that order, less what was taken.
\<close>

definition inboxes_apart :: "broker \<Rightarrow> bool" where
  "inboxes_apart b \<longleftrightarrow> (\<forall>i j r r'. bk_subs b i = Some r \<longrightarrow> bk_subs b j = Some r' \<longrightarrow>
     ri_channel r = ri_channel r' \<longrightarrow> i = j)"

fun published :: "u64 \<Rightarrow> broker_event list \<Rightarrow> stock_quote list" where
  "published i (Publish q D # es) = (if i \<in> D then q # published i es else published i es)"
| "published i (e # es) = published i es"
| "published i [] = []"

lemma step_inboxes_apart: "broker_step b e b' \<Longrightarrow> inboxes_apart b \<Longrightarrow> inboxes_apart b'"
proof (induction rule: broker_step.induct)
  case (join b i r)
  then show ?case unfolding inboxes_apart_def inbox_of_def by (auto split: if_splits) metis
qed (auto simp: inboxes_apart_def split: if_splits)

lemma step_inbox:
  assumes "broker_step b e b'" "inboxes_apart b" "bk_subs b i = Some r" "bk_inbox b (ri_channel r) = Some qs"
    and "e \<noteq> Leave i" "e \<noteq> Close (ri_channel r)"
  shows "bk_subs b' i = Some r
    \<and> bk_inbox b' (ri_channel r) = Some (drop (count_list [e] (Take (ri_channel r))) (qs @ published i [e]))
    \<and> (e = Take (ri_channel r) \<longrightarrow> qs \<noteq> [])"
  using assms
proof (induction rule: broker_step.induct)
  case (publish D b q)
  then have "inbox_of b D (ri_channel r) \<longleftrightarrow> i \<in> D"
    unfolding inboxes_apart_def inbox_of_def subscribers_def by blast
  with publish show ?case by simp
qed (auto simp: inbox_of_def)

lemma run_inbox:
  assumes "broker_run b es b'" "inboxes_apart b" "bk_subs b i = Some r" "bk_inbox b (ri_channel r) = Some qs"
    and "Leave i \<notin> set es" "Close (ri_channel r) \<notin> set es"
  shows "bk_subs b' i = Some r \<and> bk_inbox b' (ri_channel r) =
    Some (drop (count_list es (Take (ri_channel r))) (qs @ published i es))"
  using assms
proof (induction arbitrary: qs rule: broker_run.induct)
  case (broker_cons b e b' es b'')
  let ?a = "ri_channel r"
  note step = step_inbox [OF broker_cons.hyps(1) broker_cons.prems(1-3)]
  have now: "bk_subs b' i = Some r"
    "bk_inbox b' ?a = Some (drop (count_list [e] (Take ?a)) (qs @ published i [e]))"
    "e = Take ?a \<longrightarrow> qs \<noteq> []"
    using step broker_cons.prems(4,5) by auto
  have "bk_inbox b'' ?a = Some (drop (count_list es (Take ?a))
      (drop (count_list [e] (Take ?a)) (qs @ published i [e]) @ published i es))" "bk_subs b'' i = Some r"
    using broker_cons.IH [OF step_inboxes_apart [OF broker_cons.hyps(1) broker_cons.prems(1)] now(1,2)]
      broker_cons.prems(4,5) by simp_all
  moreover have "published i (e # es) = published i [e] @ published i es" by (cases e) simp_all
  ultimately show ?case
    using now(3) by (cases "e = Take ?a"; cases qs) (simp_all del: drop_append)
qed simp

section \<open>Refinement\<close>

text \<open>
  The history of a run of some model: the broker's events that its steps stand for. A model
  refines the broker when each of its steps, from a state in order, is seen through \<open>view\<close>
  as those events.
\<close>

inductive history :: "('s \<Rightarrow> 'e \<Rightarrow> 's \<Rightarrow> bool) \<Rightarrow> ('s \<Rightarrow> 'e \<Rightarrow> 'b list) \<Rightarrow>
    's \<Rightarrow> 'b list \<Rightarrow> 's \<Rightarrow> bool" for step events where
  history_nil: "history step events s [] s"
| history_snoc: "history step events s bs s' \<Longrightarrow> step s' e s'' \<Longrightarrow>
    history step events s (bs @ events s' e) s''"

text \<open>The whole trace of a run, each event with the state it happened in, yields any history.\<close>

abbreviation (input) traced :: "'s \<Rightarrow> 'e \<Rightarrow> ('s \<times> 'e) list" where
  "traced s e \<equiv> [(s, e)]"

definition along :: "('s \<Rightarrow> 'e \<Rightarrow> 'b list) \<Rightarrow> ('s \<times> 'e) list \<Rightarrow> 'b list" where
  "along events tr = concat (map (\<lambda>(s, e). events s e) tr)"

lemma along_simps [simp]:
  "along events [] = []" "along events (tr @ [(s, e)]) = along events tr @ events s e"
  by (simp_all add: along_def)

lemma trace_history: "history step traced s tr s' \<Longrightarrow> history step events s (along events tr) s'"
  by (induction rule: history.induct) (auto intro: history.intros)

lemma history_trace:
  "history step events s bs s' \<Longrightarrow> \<exists>tr. history step traced s tr s' \<and> bs = along events tr"
proof (induction rule: history.induct)
  case (history_snoc s bs s' e s'')
  then obtain tr where "history step traced s tr s'" "bs = along events tr" by blast
  with history.history_snoc [OF this(1) history_snoc(2)] show ?case
    by (intro exI [of _ "tr @ [(s', e)]"]) simp
qed (intro exI [of _ "[]"], simp add: history.intros)

locale broker_refinement =
  fixes ok :: "'s \<Rightarrow> bool"
    and step :: "'s \<Rightarrow> 'e \<Rightarrow> 's \<Rightarrow> bool"
    and view :: "'s \<Rightarrow> broker"
    and events :: "'s \<Rightarrow> 'e \<Rightarrow> broker_event list"
  assumes step_ok: "ok s \<Longrightarrow> step s e s' \<Longrightarrow> ok s'"
    and keeps_apart: "ok s \<Longrightarrow> inboxes_apart (view s)"
    and simulates: "ok s \<Longrightarrow> step s e s' \<Longrightarrow> broker_run (view s) (events s e) (view s')"
begin

lemma simulates_history:
  "history step events s bs s' \<Longrightarrow> ok s \<Longrightarrow> ok s' \<and> broker_run (view s) bs (view s')"
proof (induction rule: history.induct)
  case (history_snoc s bs s' e s'')
  then show ?case using step_ok simulates broker_run_append by blast
qed simp

lemma queues:
  assumes "history step events s bs s'" "ok s"
    and "bk_subs (view s) i = Some r" "bk_inbox (view s) (ri_channel r) = Some qs"
    and "Leave i \<notin> set bs" "Close (ri_channel r) \<notin> set bs"
  shows "bk_inbox (view s') (ri_channel r) =
    Some (drop (count_list bs (Take (ri_channel r))) (qs @ published i bs))"
  using run_inbox [of "view s" bs "view s'"] simulates_history [OF assms(1,2)] keeps_apart assms(2-6) by blast

end

section \<open>The processor seen as a broker\<close>

definition broker_view :: "processor \<Rightarrow> broker" where
  "broker_view p = \<lparr>bk_subs = receivers (p_generator p),
     bk_inbox = (\<lambda>a. if rx_alive (p_channels p) a then Some (queue_at (p_channels p) a) else None)\<rparr>"

lemma view_simps [simp]:
  "bk_subs (broker_view p) = receivers (p_generator p)"
  "bk_inbox (broker_view p) a = (if rx_alive (p_channels p) a then Some (queue_at (p_channels p) a) else None)"
  by (simp_all add: broker_view_def)

lemma broker_eqI: "bk_subs b = bk_subs b' \<Longrightarrow> (\<And>a. bk_inbox b a = bk_inbox b' a) \<Longrightarrow> b = (b' :: broker)"
  by (cases b; cases b') (auto simp: fun_eq_iff)

text \<open>What the broker sees of the steps that the models share.\<close>

lemma view_unchanged:
  assumes "receivers (p_generator p') = receivers (p_generator p)" "p_channels p' = p_channels p"
  shows "broker_view p' = broker_view p"
  by (rule broker_eqI) (simp_all add: assms)

lemma view_close:
  assumes "receivers (p_generator p') = receivers (p_generator p)"
    and "\<And>b. queue_at (p_channels p') b = (if b = a then [] else queue_at (p_channels p) b)"
    and "\<And>b. rx_alive (p_channels p') b = (b \<noteq> a \<and> rx_alive (p_channels p) b)"
  shows "broker_run (broker_view p) [Close a] (broker_view p')"
proof -
  have "broker_view p' = (broker_view p)\<lparr>bk_inbox := (bk_inbox (broker_view p))(a := None)\<rparr>"
    by (rule broker_eqI) (simp_all add: assms)
  then show ?thesis by (simp add: broker_step.close)
qed

lemma view_open:
  assumes "receivers (p_generator p') = receivers (p_generator p)"
    and "p_channels p' = (p_channels p)(a \<mapsto> new_channel)"
    and "\<And>i r. receivers (p_generator p) i = Some r \<Longrightarrow> ri_channel r \<noteq> a"
  shows "broker_run (broker_view p) [Open a] (broker_view p')"
proof -
  have "broker_view p' = (broker_view p)\<lparr>bk_inbox := (bk_inbox (broker_view p))(a \<mapsto> [])\<rparr>"
    by (rule broker_eqI) (simp_all add: assms(1,2) new_channel_effect)
  moreover have "\<not> inbox_of (broker_view p) UNIV a" using assms(3) by (auto simp: inbox_of_def)
  ultimately show ?thesis by (simp add: broker_step.open_inbox)
qed

lemma view_leave:
  assumes "receivers (p_generator p') = (receivers (p_generator p))(i := None)"
    and "\<And>a. queue_at (p_channels p') a = queue_at (p_channels p) a"
    and "\<And>a. rx_alive (p_channels p') a = rx_alive (p_channels p) a"
  shows "broker_run (broker_view p) [Leave i] (broker_view p')"
proof -
  have "broker_view p' = (broker_view p)\<lparr>bk_subs := (bk_subs (broker_view p))(i := None)\<rparr>"
    by (rule broker_eqI) (simp_all add: assms)
  then show ?thesis by (simp only: broker_run_simps) (metis broker_step.leave)
qed

lemma view_join:
  assumes "receivers (p_generator p') = (receivers (p_generator p))(i \<mapsto> r)"
    and "\<And>a. queue_at (p_channels p') a = queue_at (p_channels p) a"
    and "\<And>a. rx_alive (p_channels p') a = rx_alive (p_channels p) a"
    and "receivers (p_generator p) i = None" "rx_alive (p_channels p) (ri_channel r)"
    and "\<And>j r'. receivers (p_generator p) j = Some r' \<Longrightarrow> ri_channel r' \<noteq> ri_channel r"
  shows "broker_run (broker_view p) [Join i r] (broker_view p')"
proof -
  have "broker_view p' = (broker_view p)\<lparr>bk_subs := (bk_subs (broker_view p))(i \<mapsto> r)\<rparr>"
    by (rule broker_eqI) (simp_all add: assms)
  moreover have "\<not> inbox_of (broker_view p) UNIV (ri_channel r)" using assms(6) by (auto simp: inbox_of_def)
  ultimately show ?thesis
    using broker_step.join [of "broker_view p" i r] assms(4,5) by (simp only: broker_run_simps) simp
qed

lemma view_publish:
  assumes "receivers (p_generator p') = receivers (p_generator p)"
    and "\<And>a. rx_alive (p_channels p') a = rx_alive (p_channels p) a"
    and "\<And>a. rx_alive (p_channels p) a \<Longrightarrow> queue_at (p_channels p') a =
      (if inbox_of (broker_view p) D a then queue_at (p_channels p) a @ [q] else queue_at (p_channels p) a)"
    and "D \<subseteq> subscribers (broker_view p) (q_ticker q)"
  shows "broker_run (broker_view p) [Publish q D] (broker_view p')"
proof -
  have "broker_view p' = (broker_view p)\<lparr>bk_inbox := (\<lambda>a. if inbox_of (broker_view p) D a
      then map_option (\<lambda>qs. qs @ [q]) (bk_inbox (broker_view p) a) else bk_inbox (broker_view p) a)\<rparr>"
    by (rule broker_eqI) (simp_all add: assms(1-3))
  then show ?thesis using broker_step.publish [OF assms(4)] by simp
qed

text \<open>An iteration of the streaming loop takes the oldest quote from its inbox, if there is one.\<close>

definition stream_events :: "subscriber_info \<Rightarrow> processor \<Rightarrow> broker_event list" where
  "stream_events info p =
     (if \<not> flag_set p (si_shutdown info) \<and> rx_alive (p_channels p) (si_channel info)
        \<and> queue_at (p_channels p) (si_channel info) \<noteq> []
      then [Take (si_channel info)] else [])"

lemma view_stream:
  assumes "stream_step bc info (p, sent) err = Continue (p', sent')
    \<or> stream_step bc info (p, sent) err = Break (p', sent')"
  shows "broker_run (broker_view p) (stream_events info p) (broker_view p')"
proof (cases "flag_set p (si_shutdown info)")
  case True
  with assms have "p' = p" by (auto simp: stream_step_flagged)
  with True show ?thesis by (simp add: stream_events_def)
next
  case False
  let ?a = "si_channel info"
  let ?p = "p\<lparr>p_channels := snd (chan_recv (p_channels p) ?a)\<rparr>"
  have "p' = ?p"
    using assms False by (auto simp: stream_step_def split: if_splits prod.splits recv_result.splits sum.splits)
  moreover have "broker_view ?p = (broker_view p)\<lparr>bk_inbox := (\<lambda>a. if a = ?a
      then map_option tl (bk_inbox (broker_view p) a) else bk_inbox (broker_view p) a)\<rparr>"
    by (rule broker_eqI) (simp_all add: recv_queue recv_ends)
  moreover have "\<dots> = (if stream_events info p = [] then broker_view p
      else (broker_view p)\<lparr>bk_inbox := (bk_inbox (broker_view p))(?a \<mapsto> tl (queue_at (p_channels p) ?a))\<rparr>)"
    using False by (auto intro!: broker_eqI simp: stream_events_def)
  moreover have "broker_step (broker_view p) (Take ?a)
      ((broker_view p)\<lparr>bk_inbox := (bk_inbox (broker_view p))(?a \<mapsto> tl (queue_at (p_channels p) ?a))\<rparr>)"
    if "stream_events info p \<noteq> []"
    using that by (intro broker_step.take [of _ _ "hd (queue_at (p_channels p) ?a)"])
      (auto simp: stream_events_def split: if_splits)
  ultimately show ?thesis by (auto simp: stream_events_def)
qed

section \<open>The interleaved sections refine the broker\<close>

fun section_events :: "point \<Rightarrow> processor \<Rightarrow> broker_event list" where
  "section_events (AddCheck info ts) p =
     (if check_tickers (tickers_to_receivers (p_generator p)) ts = None then [] else [Close (si_channel info)])"
| "section_events (AddInsert info ts) p =
     [Join (si_id info) \<lparr>ri_channel = si_channel info, ri_tickers = set ts\<rparr>]"
| "section_events (TakeHandle info) p =
     (if p_subscribers p (si_id info) = None then [Close (si_channel info)] else [])"
| "section_events (RemoveReceiver i ts k) p = [Leave i]"
| "section_events (Unsubscribe i ts (EndOfStream info)) p = [Close (si_channel info)]"
| "section_events (SendQuotes t q ids) p = [Publish q {i \<in> set ids. receivers (p_generator p) i \<noteq> None}]"
| "section_events pt p = []"

definition locked_events :: "locked \<Rightarrow> locked_event \<Rightarrow> broker_event list" where
  "locked_events s e = (case e of
     Request cmd \<Rightarrow> [Open (p_next_addr (lk_proc s))]
   | Run x env \<Rightarrow> section_events (point_of s x) (lk_proc s)
   | StreamIteration a err \<Rightarrow> (case point_of s (Subscriber a) of
       StreamLoop info \<Rightarrow> stream_events info (lk_proc s) | _ \<Rightarrow> [])
   | StreamDies a \<Rightarrow> (case point_of s (Subscriber a) of StreamLoop info \<Rightarrow> [Close (si_channel info)] | _ \<Rightarrow> [])
   | _ \<Rightarrow> [])"

lemma same_view [simp]: "broker_view (p\<lparr>p_flags := f\<rparr>) = broker_view p"
  by (rule view_unchanged) simp_all

lemma finish_removal_view:
  "broker_run (broker_view p) (case k of EndOfStream info \<Rightarrow> [Close (si_channel info)] | NextDead t is \<Rightarrow> [])
     (broker_view (snd (finish_removal k p)))"
  by (induction k p rule: finish_removal.induct) (simp_all add: view_close channel del: broker_run_simps(2))

lemma section_view:
  assumes "consistent p pts" "hash_order_ok (te_order env)"
  shows "broker_run (broker_view p) (section_events (pts x) p) (broker_view (snd (run_section env (pts x) p)))"
proof -
  have ok: "point_ok p x (pts x)" and b: "bounded p" using assms(1) by (simp_all add: consistent_def)
  have unchanged: ?thesis if "section_events (pts x) p = []"
    "receivers (p_generator (snd (run_section env (pts x) p))) = receivers (p_generator p)"
    "p_channels (snd (run_section env (pts x) p)) = p_channels p"
    using view_unchanged [OF that(2,3)] that(1) by simp
  show ?thesis
  proof (cases "pts x")
    case (AddCheck info ts)
    then show ?thesis
      by (auto simp: view_close channel simp del: broker_run_simps(2) split: option.split)
  next
    case (AddInsert info ts)
    with ok have "newcomer p info" by simp
    with AddInsert show ?thesis
      by (auto intro!: view_join simp: newcomer_def channel simp del: broker_run_simps(2))
  next
    case (TakeHandle info)
    show ?thesis
    proof (cases "p_subscribers p (si_id info)")
      case None
      with TakeHandle show ?thesis by (simp add: view_close channel del: broker_run_simps(2))
    next
      case (Some handle)
      with TakeHandle show ?thesis by (intro unchanged) simp_all
    qed
  next
    case (RemoveReceiver i ts k)
    then show ?thesis by (auto intro!: view_leave simp: channel simp del: broker_run_simps(2))
  next
    case (Unsubscribe i ts k)
    define p1 where "p1 = on_generator (\<lambda>g. g\<lparr>tickers_to_receivers :=
      unsubscribe_from i ts (tickers_to_receivers g)\<rparr>) p"
    have "broker_view p1 = broker_view p" by (rule view_unchanged) (simp_all add: p1_def)
    then show ?thesis
      using finish_removal_view [of p1 k] by (cases k) (simp_all add: Unsubscribe p1_def del: broker_run_simps(2))
  next
    case (SendQuotes t q ids)
    obtain ch dead where d: "distribute q (receivers (p_generator p)) ids (p_channels p) {} = (ch, dead)"
      by (cases "distribute q (receivers (p_generator p)) ids (p_channels p) {}")
    let ?D = "{i \<in> set ids. receivers (p_generator p) i \<noteq> None}" and ?p = "p\<lparr>p_channels := ch\<rparr>"
    from ok SendQuotes have pt: "distinct ids" "q_ticker q = t" "\<And>i. i \<in> set ids \<Longrightarrow> wants p t i" by auto
    have "\<forall>i j a b. receivers (p_generator p) i = Some a \<longrightarrow> receivers (p_generator p) j = Some b \<longrightarrow>
        ri_channel a = ri_channel b \<longrightarrow> i = j"
      using b by (simp add: bounded_def channels_distinct_def)
    note spec = distribute_spec [OF d pt(1) this]
    have "inbox_of (broker_view p) ?D a = to_channel (receivers (p_generator p)) ids a" for a
      by (auto simp: inbox_of_def to_channel_def)
    moreover have "?D \<subseteq> subscribers (broker_view p) (q_ticker q)"
      using pt by (auto simp: subscribers_def wants_def)
    ultimately have "broker_run (broker_view p) [Publish q ?D] (broker_view ?p)"
      using spec by (intro view_publish) simp_all
    moreover have "broker_view (snd (run_section env (pts x) p)) = broker_view ?p"
      using finish_removal_view [of ?p "NextDead t (id_order (te_order env) dead)"] SendQuotes d by simp
    ultimately show ?thesis by (simp only: SendQuotes section_events.simps)
  qed (use unchanged in \<open>auto split: option.splits outcome.splits prod.splits\<close>)
qed

lemma locked_step_view:
  assumes "locked_step bc s e s'" "locked_inv s"
  shows "broker_run (broker_view (lk_proc s)) (locked_events s e) (broker_view (lk_proc s'))"
  using assms
proof (induction rule: locked_step.induct)
  case (request s cmd)
  then have "bounded (lk_proc s)" by (simp add: locked_inv_def consistent_def)
  then have "ri_channel r \<noteq> p_next_addr (lk_proc s)"
    if "receivers (p_generator (lk_proc s)) i = Some r" for i r
    using that by (metis bounded_def less_irrefl)
  then show ?case
    by (auto intro!: view_open simp: locked_events_def move_def begin_request_def simp del: broker_run_simps(2))
next
  case (run s x pt env)
  then show ?case
    using section_view [of "lk_proc s" "point_of s" env x]
    by (simp add: locked_inv_def locked_events_def point_of_at move_def)
next
  case (stream s a info err p' sent)
  then show ?case
    using view_stream [of bc info "lk_proc s" "[]" err p' sent] by (simp add: locked_events_def point_of_at)
next
  case (stream_stops s a info err p' sent)
  then show ?case
    using view_stream [of bc info "lk_proc s" "[]" err p' sent]
    by (simp add: locked_events_def point_of_at move_def)
next
  case (stream_dies s a info)
  then show ?case
    using finish_removal_view [of "lk_proc s" "EndOfStream info"]
    by (simp add: locked_events_def point_of_at move_def del: broker_run_simps(2))
qed (simp_all add: locked_events_def move_def)

lemma bounded_apart: "bounded p \<Longrightarrow> inboxes_apart (broker_view p)"
  by (auto simp: bounded_def channels_distinct_def inboxes_apart_def)

interpretation section_broker: broker_refinement locked_inv "locked_step bc" "\<lambda>s. broker_view (lk_proc s)"
    locked_events for bc
proof
  show "inboxes_apart (broker_view (lk_proc s))" if "locked_inv s" for s
    using that by (simp add: locked_inv_def consistent_def bounded_apart)
qed (simp_all add: step_locked_inv locked_step_view)

section \<open>The interleaved operations refine the broker\<close>

definition add_events :: "subscribe_command \<Rightarrow> processor \<Rightarrow> broker_event list" where
  "add_events cmd p = Open (p_next_addr p) # (case first_unknown p cmd of
     None \<Rightarrow> [Join (p_next_id p) \<lparr>ri_channel = p_next_addr p, ri_tickers = set (sc_tickers cmd)\<rparr>]
   | Some t \<Rightarrow> [Close (p_next_addr p)])"

definition tick_events :: "string \<Rightarrow> tick_env \<Rightarrow> processor \<Rightarrow> broker_event list" where
  "tick_events t env p = (case generate_quote (te_rng env) (te_now env) (prices (p_generator p)) t of
     Value (Some q, ps) \<Rightarrow> Publish q {i. subscribed (p_generator p) i t}
       # map Leave (id_order (te_order env) {i. dead_subscriber (p_generator p) (p_channels p) t i})
   | _ \<Rightarrow> [])"

definition cleanup_events :: "subscriber_info \<Rightarrow> broker_event list" where
  "cleanup_events info = [Leave (si_id info), Close (si_channel info)]"

definition server_events :: "server \<Rightarrow> server_event \<Rightarrow> broker_event list" where
  "server_events s e =
     (let of_thread = (\<lambda>a f. case sv_threads s a of None \<Rightarrow> [] | Some th \<Rightarrow> f (st_info th)) in
      case e of
        Accept (AcceptConn inp out) \<Rightarrow> (case fst (read_tcp_message inp) of
          Inr (Cmd cmd) \<Rightarrow> add_events cmd (sv_proc s) | _ \<Rightarrow> [])
      | Tick t env \<Rightarrow> tick_events t env (sv_proc s)
      | BindFailed a err h \<Rightarrow> of_thread a cleanup_events
      | CloneFailed a err \<Rightarrow> of_thread a (\<lambda>info. [Close (si_channel info)])
      | SendQuote a err \<Rightarrow> of_thread a (\<lambda>info. stream_events info (sv_proc s))
      | JoinMonitor a h \<Rightarrow> of_thread a cleanup_events
      | _ \<Rightarrow> [])"

lemma add_view:
  assumes "processor_inv p"
  shows "broker_run (broker_view p) (add_events cmd p) (broker_view (snd (add_subscriber cmd p)))"
proof -
  let ?a = "p_next_addr p" and ?r = "\<lparr>ri_channel = p_next_addr p, ri_tickers = set (sc_tickers cmd)\<rparr>"
  let ?p = "p\<lparr>p_channels := (p_channels p)(?a \<mapsto> new_channel)\<rparr>"
  have fresh: "receivers (p_generator p) i = Some r \<Longrightarrow> ri_channel r \<noteq> ?a" for i r
    using receiver_bounds [OF assms] by (metis less_irrefl)
  then have opened: "broker_run (broker_view p) [Open ?a] (broker_view ?p)"
    by (intro view_open) simp_all
  show ?thesis
  proof (cases rule: add_subscriber_cases [OF assms, of cmd])
    case (1 t)
    then have "broker_run (broker_view ?p) [Close ?a] (broker_view (snd (add_subscriber cmd p)))"
      by (intro view_close) (simp_all add: channel)
    with broker_run_append [OF opened this] 1(1) show ?thesis by (simp add: add_events_def)
  next
    case (2 g)
    have "receivers g = (receivers (p_generator p))(p_next_id p \<mapsto> ?r)"
      using 2(2) by (cases rule: add_receiver_cases [of "p_generator p" "sc_tickers cmd" "p_next_id p"
            "p_next_addr p" "(p_channels p)(p_next_addr p \<mapsto> new_channel)"]) auto
    then have "broker_run (broker_view ?p) [Join (p_next_id p) ?r] (broker_view (snd (add_subscriber cmd p)))"
      using next_id_unused [OF assms] fresh by (intro view_join) (auto simp: 2(3) channel)
    with broker_run_append [OF opened this] 2(1) show ?thesis by (simp add: add_events_def)
  qed
qed

lemma tick_view:
  assumes "generator_ok (p_generator p)" "hash_order_ok (te_order env)"
    and "start_for_quote_step t (p_generator p, p_channels p, {}) env = Continue (g, ch, {})"
  shows "broker_run (broker_view p) (tick_events t env p) (broker_view (p\<lparr>p_generator := g, p_channels := ch\<rparr>))"
proof (cases "prices (p_generator p) t")
  case None
  have "\<not> gen_shutdown (p_generator p)"
    using assms(3) tick_shutdown [of "p_generator p" t "p_channels p" "{}" env] by auto
  with None assms(3) have "broker_view (p\<lparr>p_generator := g, p_channels := ch\<rparr>) = broker_view p"
    by (intro view_unchanged) (simp_all add: tick_absent)
  with None show ?thesis by (simp add: tick_events_def generate_quote_absent)
next
  case (Some data)
  let ?g = "p_generator p" and ?ch = "p_channels p"
  let ?dead = "{i. dead_subscriber ?g ?ch t i}" and ?D = "{i. subscribed ?g i t}"
  have run: "\<not> gen_shutdown ?g"
    using assms(3) tick_shutdown [of ?g t ?ch "{}" env] by auto
  then have now: "0 \<le> te_now env" using tick_panic [OF run Some, of env ?ch] assms(3) by force
  have inv: "registry_inv ?g" "channels_distinct ?g" using assms(1) by (simp_all add: generator_ok_def)
  obtain q where q: "generate_quote (te_rng env) (te_now env) (prices ?g) t = Value (Some q, prices g)"
      "q_ticker q = t"
      "\<And>a. queue_at ch a = (if (\<exists>i info. receivers ?g i = Some info \<and> t \<in> ri_tickers info
          \<and> ri_channel info = a) \<and> rx_alive ?ch a then queue_at ?ch a @ [q] else queue_at ?ch a)"
      "\<And>a. rx_alive ch a = rx_alive ?ch a"
      "\<And>i. receivers g i = (if dead_subscriber ?g ?ch t i then None else receivers ?g i)"
    using tick_step [OF inv assms(2) run Some now, of ?ch] assms(3) by auto
  have mem: "i \<in> ?D \<longleftrightarrow> (\<exists>info. receivers ?g i = Some info \<and> t \<in> ri_tickers info)" for i
    by (simp add: subscribed_def split: option.split)
  have "inbox_of (broker_view p) ?D a \<longleftrightarrow>
      (\<exists>i info. receivers ?g i = Some info \<and> t \<in> ri_tickers info \<and> ri_channel info = a)" for a
    unfolding inbox_of_def Bex_def mem view_simps by (metis option.inject)
  then have published: "broker_run (broker_view p) [Publish q ?D] (broker_view (p\<lparr>p_channels := ch\<rparr>))"
    using q by (intro view_publish) (auto simp: subscribers_def subscribed_def split: option.splits)
  define ids where "ids = id_order (te_order env) ?dead"
  have "?dead \<subseteq> ?D"
    by (auto simp: dead_subscriber_def subscribed_def split: option.splits)
  then have "finite ?dead"
    using inv(1) by (auto simp: registry_inv_def listed_def split: option.splits intro: finite_subset)
  then have "set ids = ?dead"
    using assms(2) by (simp add: hash_order_ok_def ids_def)
  then have "broker_view (p\<lparr>p_generator := g, p_channels := ch\<rparr>) =
      (broker_view (p\<lparr>p_channels := ch\<rparr>))\<lparr>bk_subs := (\<lambda>i. if i \<in> set ids
        then None else bk_subs (broker_view (p\<lparr>p_channels := ch\<rparr>)) i)\<rparr>"
    using q(5) by (intro broker_eqI) (simp_all add: fun_eq_iff)
  then have "broker_run (broker_view (p\<lparr>p_channels := ch\<rparr>)) (map Leave ids)
      (broker_view (p\<lparr>p_generator := g, p_channels := ch\<rparr>))"
    using broker_leaves [of "broker_view (p\<lparr>p_channels := ch\<rparr>)" ids] by (simp only:)
  from broker_run_append [OF published this] show ?thesis
    by (simp add: tick_events_def q(1) ids_def del: broker_run_simps)
qed

lemma cleanup_view:
  assumes "processor_inv p" "hash_order_ok h"
  shows "broker_run (broker_view p) (cleanup_events (st_info th)) (broker_view (cleanup h th p))"
proof -
  let ?p = "remove_subscriber h (si_id (st_info th)) p"
  have "broker_run (broker_view p) [Leave (si_id (st_info th))] (broker_view ?p)"
    by (intro view_leave) (simp_all add: remove_subscriber_subs [OF assms] remove_subscriber_frame)
  moreover have "broker_run (broker_view ?p) [Close (si_channel (st_info th))] (broker_view (cleanup h th p))"
    by (intro view_close) (simp_all add: cleanup_def Let_def channel)
  ultimately show ?thesis
    using broker_run_append by (simp add: cleanup_events_def del: broker_run_simps) fastforce
qed

lemma server_step_view:
  assumes "server_step sd bc s e s'" "server_inv bc s"
  shows "broker_run (broker_view (sv_proc s)) (server_events s e) (broker_view (sv_proc s'))"
  using assms
proof (induction rule: server_step.induct)
  case (accept s ev p')
  then have p: "processor_inv (sv_proc s)" by (simp add: server_inv_def)
  have run: "\<not> p_shutdown (sv_proc s)"
    using accept(2) accept_step_simps(1) [of "sv_proc s" sd ev] by auto
  show ?case
  proof (cases ev)
    case (AcceptConn inp out)
    then have p': "p' = serve sd inp (sv_proc s)" using accept(2) accept_step_simps(2) [OF run] by simp
    show ?thesis
      using add_view [OF p] response_cases [OF p, of sd]
      by (auto simp: p' AcceptConn server_events_def serve_def response_to_def simp del: broker_run_simps(2)
          split: sum.splits tcp_message.splits)
  next
    case (AcceptErr err)
    then show ?thesis using accept(2) accept_step_simps(3) [OF run] by (simp add: server_events_def)
  qed
next
  case (tick env t s g ch)
  then show ?case
    using tick_view by (simp add: server_events_def server_inv_def processor_inv_def)
next
  case (bind_failed s a th h e r p' sent)
  then show ?case
    using cleanup_view [of "sv_proc s" h th] by (simp add: server_events_def server_inv_def bind_failed_cleanup)
next
  case (clone_failed s a th h e r p' sent)
  then have "p' = (sv_proc s)\<lparr>p_channels := drop_receiver (si_channel (st_info th)) (p_channels (sv_proc s))\<rparr>"
    by (simp add: start_streaming_def)
  then show ?case
    using clone_failed(1)
    by (auto intro!: view_close simp: server_events_def channel simp del: broker_run_simps(2))
next
  case (send_quote s a th err p' sent)
  then show ?case
    using view_stream [of bc "st_info th" "sv_proc s" "st_sent th" err p' sent] by (simp add: server_events_def)
next
  case (stop_streaming s a th err p' sent)
  then show ?case
    using view_stream [of bc "st_info th" "sv_proc s" "st_sent th" err p' sent]
    by (simp add: server_events_def set_flag_def)
next
  case (join_monitor s a th e h r p')
  then have "p' = cleanup h th (set_flag (si_shutdown (st_info th)) (sv_proc s))"
    by (simp add: stream_end_cleanup)
  then show ?case
    using join_monitor(1,4,6) cleanup_view [of "set_flag (si_shutdown (st_info th)) (sv_proc s)" h th]
    by (simp add: server_events_def server_inv_def) (simp add: set_flag_def)
qed (simp_all add: server_events_def set_flag_def)

lemma processor_apart: "processor_inv p \<Longrightarrow> inboxes_apart (broker_view p)"
  by (auto simp: processor_inv_def generator_ok_def channels_distinct_def inboxes_apart_def)

interpretation server_broker: broker_refinement "server_inv bc" "server_step sd bc"
    "\<lambda>s. broker_view (sv_proc s)" server_events for sd bc
proof
  show "inboxes_apart (broker_view (sv_proc s))" if "server_inv bc s" for s
    using that by (simp add: server_inv_def processor_apart)
qed (rule step_server_inv server_step_view; assumption)+

section \<open>From the copy of the ids to the sends\<close>

lemma ticker_waits:
  "locked_step bc s e s' \<Longrightarrow> (\<And>env. e \<noteq> Run (Ticker t) env) \<Longrightarrow>
     lk_points s' (Ticker t) = lk_points s (Ticker t)"
  by (induction rule: locked_step.induct) (auto simp: move_def)

lemma ticker_waits_run:
  "locked_run bc s es s' \<Longrightarrow> (\<forall>env. Run (Ticker t) env \<notin> set es) \<Longrightarrow>
     lk_points s' (Ticker t) = lk_points s (Ticker t)"
proof (induction rule: locked_run.induct)
  case (locked_snoc s es s' e s'')
  then have "e \<noteq> Run (Ticker t) env" for env by auto
  with locked_snoc show ?case using ticker_waits [of bc s' e s'' t] by simp
qed simp

lemma copied_ids:
  assumes "bounded p" "hash_order_ok (te_order env)"
  obtains ids where "run_section env (CopyIds t q) p = (SendQuotes t q ids, p)"
    "set ids = {i. listed (p_generator p) i t}"
proof
  let ?ids = "case tickers_to_receivers (p_generator p) t of None \<Rightarrow> [] | Some ids \<Rightarrow> id_order (te_order env) ids"
  show "run_section env (CopyIds t q) p = (SendQuotes t q ?ids, p)" by simp
  show "set ?ids = {i. listed (p_generator p) i t}"
    using assms by (auto simp: listed_def bounded_def hash_order_ok_def split: option.splits)
qed

lemma sent_quotes:
  assumes "bounded p" "distinct ids" "receivers (p_generator p) i = Some r" "rx_alive (p_channels p) (ri_channel r)"
  shows "queue_at (p_channels (snd (run_section env (SendQuotes t q ids) p))) (ri_channel r) =
    queue_at (p_channels p) (ri_channel r) @ (if i \<in> set ids then [q] else [])"
proof -
  obtain ch dead where d: "distribute q (receivers (p_generator p)) ids (p_channels p) {} = (ch, dead)"
    by (cases "distribute q (receivers (p_generator p)) ids (p_channels p) {}")
  have dist: "\<forall>i j a b. receivers (p_generator p) i = Some a \<longrightarrow> receivers (p_generator p) j = Some b \<longrightarrow>
      ri_channel a = ri_channel b \<longrightarrow> i = j"
    using assms(1) by (simp add: bounded_def channels_distinct_def)
  then have "to_channel (receivers (p_generator p)) ids (ri_channel r) = (i \<in> set ids)"
    using assms(3) by (auto simp: to_channel_def)
  then have "queue_at ch (ri_channel r) =
      queue_at (p_channels p) (ri_channel r) @ (if i \<in> set ids then [q] else [])"
    using distribute_spec [OF d assms(2) dist, of "ri_channel r"] assms(4) by simp
  moreover have "p_channels (snd (finish_removal (NextDead t is) p')) = p_channels p'" for "is" p'
    by (cases "is") simp_all
  ultimately show ?thesis using d by (simp del: finish_removal.simps)
qed

lemma locked_history:
  "locked_run bc s es s' \<Longrightarrow> \<exists>bs. history (locked_step bc) locked_events s bs s'"
  by (induction rule: locked_run.induct) (blast intro: history.intros)+

lemma history_one: "step s e s' \<Longrightarrow> history step events s (events s e) s'"
  using history.history_snoc [OF history.history_nil, of step s e s' events] by simp

inductive_cases server_run_noneE: "server_run sd bc s [] s'"

inductive_cases server_run_singleE: "server_run sd bc s [e] s'"

lemma server_run_single: "server_run sd bc s [e] s' = server_step sd bc s e s'"
  by (auto elim!: server_run_singleE server_run_noneE intro: server_run_one)

lemmas section_history = history_one [of "locked_step bc" for bc, where events = locked_events]

lemmas server_history = history_one [of "server_step sd bc" for sd bc, where events = server_events]

lemma history_invariant:
  "processor_inv p \<Longrightarrow> history (locked_step bc) locked_events (locked_start p) bs s \<Longrightarrow> locked_inv s"
  using section_broker.simulates_history start_locked_inv by blast

section \<open>Properties\<close>

text \<open>
  Claim C9. A tick loses nobody between its locks: when a ticker thread copies the ids
  registered for its ticker, lets go of the lock, and sends the quote later, after any
  steps of the other threads, then every subscriber that is connected at the send gets
  exactly that quote, once, if it was registered for the ticker when the ids were copied,
  and nothing otherwise; who has asked for the ticker is registered unless its request is
  still between its two insertions.
\<close>

theorem sections_deliver:
  assumes "processor_inv p" "locked_run bc (locked_start p) es s"
    and "lk_points s (Ticker t) = Some (CopyIds t q)" "locked_step bc s (Run (Ticker t) env) s1"
    and "locked_run bc s1 fs s2" "\<forall>env. Run (Ticker t) env \<notin> set fs"
    and "locked_step bc s2 (Run (Ticker t) env') s3"
    and "receivers (p_generator (lk_proc s2)) i = Some r" "rx_alive (p_channels (lk_proc s2)) (ri_channel r)"
  shows "queue_at (p_channels (lk_proc s3)) (ri_channel r) =
      queue_at (p_channels (lk_proc s2)) (ri_channel r) @
        (if listed (p_generator (lk_proc s)) i t then [q] else [])
    \<and> (subscribed (p_generator (lk_proc s)) i t \<longrightarrow>
        listed (p_generator (lk_proc s)) i t \<or> (\<exists>x. entering i t (point_of s x)))"
proof -
  have inv: "locked_inv s" by (rule reachable_inv [OF assms(1,2)])
  then have inv2: "locked_inv s2"
    using run_locked_inv [OF assms(5)] step_locked_inv [OF assms(4)] by blast
  have b: "bounded (lk_proc s)" "agreeing (lk_proc s) (point_of s)" "bounded (lk_proc s2)"
    using inv inv2 by (simp_all add: locked_inv_def consistent_def)
  from assms(4) obtain pt where pt: "lk_points s (Ticker t) = Some pt" "hash_order_ok (te_order env)"
    "s1 = move (Ticker t) (run_section env pt (lk_proc s)) s" by (elim section_stepE) blast
  obtain ids where ids: "run_section env (CopyIds t q) (lk_proc s) = (SendQuotes t q ids, lk_proc s)"
    "set ids = {i. listed (p_generator (lk_proc s)) i t}" using copied_ids [OF b(1) pt(2)] .
  moreover have "pt = CopyIds t q" using pt(1) assms(3) by simp
  ultimately have "lk_points s1 (Ticker t) = Some (SendQuotes t q ids)"
    by (simp only: pt(3)) (simp add: move_def del: run_section.simps)
  then have at: "lk_points s2 (Ticker t) = Some (SendQuotes t q ids)"
    using ticker_waits_run [OF assms(5,6)] by simp
  then have "point_ok (lk_proc s2) (Ticker t) (SendQuotes t q ids)"
    using inv2 point_of_at [OF at] unfolding locked_inv_def consistent_def by metis
  then have "distinct ids" by simp
  moreover from assms(7) obtain pt' where "lk_points s2 (Ticker t) = Some pt'"
    "s3 = move (Ticker t) (run_section env' pt' (lk_proc s2)) s2" by (elim section_stepE) blast
  moreover from this(1) at have "pt' = SendQuotes t q ids" by simp
  ultimately have "queue_at (p_channels (lk_proc s3)) (ri_channel r) =
      queue_at (p_channels (lk_proc s2)) (ri_channel r) @ (if i \<in> set ids then [q] else [])"
    using sent_quotes [OF b(3) _ assms(8,9)] by (simp add: move_def del: run_section.simps)
  moreover have "subscribed (p_generator (lk_proc s)) i t \<longrightarrow>
        listed (p_generator (lk_proc s)) i t \<or> (\<exists>x. entering i t (point_of s x))"
    using b(2) by (simp add: agreeing_def)
  ultimately show ?thesis by (simp add: ids(2))
qed

theorem sections_deliver_witness:
  "\<exists>es s s1 s2 s3 q. locked_run reference_bincode (locked_start subscribed_processor) es s
     \<and> lk_points s (Ticker ''XYZ'') = Some (CopyIds ''XYZ'' q)
     \<and> locked_run reference_bincode s1 [Acquire (Ticker ''XYZ'')] s2
     \<and> locked_step reference_bincode s2 (Run (Ticker ''XYZ'') example_env) s3
     \<and> queue_at (p_channels (lk_proc s3)) 0 = queue_at (p_channels (lk_proc s2)) 0 @ [q]"
proof -
  obtain es s s1 s2 s3 q where tick:
    "locked_run reference_bincode (locked_start subscribed_processor) es s"
    "lk_points s (Ticker ''XYZ'') = Some (CopyIds ''XYZ'' q)" "listed (p_generator (lk_proc s)) 0 ''XYZ''"
    "locked_step reference_bincode s (Run (Ticker ''XYZ'') example_env) s1"
    "locked_step reference_bincode s1 (Acquire (Ticker ''XYZ'')) s2"
    "receivers (p_generator (lk_proc s2)) = receivers (p_generator subscribed_processor)"
    "p_channels (lk_proc s2) = p_channels subscribed_processor"
    "locked_step reference_bincode s2 (Run (Ticker ''XYZ'') example_env) s3"
    using example_tick by blast
  have here: "receivers (p_generator (lk_proc s2)) 0 = Some \<lparr>ri_channel = 0, ri_tickers = {''XYZ''}\<rparr>"
    "rx_alive (p_channels (lk_proc s2)) (ri_channel \<lparr>ri_channel = 0, ri_tickers = {''XYZ''}\<rparr>)"
    by (simp_all add: tick(6,7) subscribed_registries)
  from sections_deliver [OF subscribed_processor_inv tick(1,2,4) locked_run_one [OF tick(5)] _ tick(8) here]
  have "queue_at (p_channels (lk_proc s3)) 0 = queue_at (p_channels (lk_proc s2)) 0 @ [q]"
    using tick(3) by simp
  with tick(1,2,8) locked_run_one [OF tick(5)] show ?thesis by blast
qed

text \<open>
  Claim C7. Refinement of the broker by the critical sections: whatever sections of
  requests, ticks, streaming threads and removals interleave in whatever order, the server
  seen from outside is a broker that takes the steps which the history names. A publication
  among them is only to subscribers who asked for the quote's ticker; the two registries, the
  handles, the flags and the locks do not show.
\<close>

theorem sections_refine_broker:
  assumes "processor_inv p" "history (locked_step bc) locked_events (locked_start p) bs s"
  shows "broker_run (broker_view p) bs (broker_view (lk_proc s)) \<and> inboxes_apart (broker_view (lk_proc s))"
  using section_broker.simulates_history [OF assms(2) start_locked_inv [OF assms(1)]]
    section_broker.keeps_apart by (auto simp: locked_start_def)

theorem sections_refine_broker_witness:
  "broker_run (broker_view example_processor) [Open 0] (broker_view (lk_proc example_request))"
proof -
  have step: "locked_step reference_bincode (locked_start example_processor) (Request example_command) example_request"
    using locked_step.request [of "locked_start example_processor" reference_bincode example_command]
    by (simp add: locked_start_def example_ids)
  have "locked_events (locked_start example_processor) (Request example_command) = [Open 0]"
    by (simp add: locked_events_def locked_start_def example_ids)
  with sections_refine_broker [OF example_processor_inv section_history [OF step]] show ?thesis
    by (simp only:)
qed

text \<open>
  Claim C8. Delivery in order: from any state of the interleaved sections on, for as long as
  a subscriber stays registered and its streaming thread keeps its end of the channel, the
  channel holds exactly the quotes that were published to the subscriber since, behind those
  that were waiting, in the order of publication, less those the streaming thread has taken
  from the front: none is lost, doubled or overtaken, however ticks of several tickers, other
  requests and removals interleave.
\<close>

theorem sections_fifo:
  assumes "processor_inv p" "history (locked_step bc) locked_events (locked_start p) bs s"
    and "history (locked_step bc) locked_events s cs s'"
    and "receivers (p_generator (lk_proc s)) i = Some r" "rx_alive (p_channels (lk_proc s)) (ri_channel r)"
    and "Leave i \<notin> set cs" "Close (ri_channel r) \<notin> set cs"
  shows "rx_alive (p_channels (lk_proc s')) (ri_channel r)
    \<and> queue_at (p_channels (lk_proc s')) (ri_channel r) =
      drop (count_list cs (Take (ri_channel r)))
        (queue_at (p_channels (lk_proc s)) (ri_channel r) @ published i cs)"
  using section_broker.queues [OF assms(3) history_invariant [OF assms(1,2)], of i r] assms(4-)
  by (simp split: if_splits)

theorem sections_fifo_witness:
  "\<exists>s s' q. history (locked_step reference_bincode) locked_events s [Publish q {0}] s'
     \<and> queue_at (p_channels (lk_proc s')) 0 = [q]"
proof -
  obtain es s0 s1 s2 s3 q where tick:
    "locked_run reference_bincode (locked_start subscribed_processor) es s0"
    "locked_step reference_bincode s0 (Run (Ticker ''XYZ'') example_env) s1"
    "locked_step reference_bincode s1 (Acquire (Ticker ''XYZ'')) s2"
    "lk_points s2 (Ticker ''XYZ'') = Some (SendQuotes ''XYZ'' q [0])"
    "receivers (p_generator (lk_proc s2)) = receivers (p_generator subscribed_processor)"
    "p_channels (lk_proc s2) = p_channels subscribed_processor"
    "locked_step reference_bincode s2 (Run (Ticker ''XYZ'') example_env) s3"
    using example_tick by blast
  from locked_run_trans [OF locked_run_trans [OF locked_run_one [OF tick(3)] locked_run_one [OF tick(2)]] tick(1)]
  obtain bs where bs: "history (locked_step reference_bincode) locked_events (locked_start subscribed_processor) bs s2"
    using locked_history by blast
  have "locked_events s2 (Run (Ticker ''XYZ'') example_env) = [Publish q {0}]"
    by (simp add: locked_events_def point_of_at [OF tick(4)] tick(5) subscribed_registries)
  with section_history [OF tick(7)]
  have cs: "history (locked_step reference_bincode) locked_events s2 [Publish q {0}] s3" by simp
  have here: "receivers (p_generator (lk_proc s2)) 0 = Some \<lparr>ri_channel = 0, ri_tickers = {''XYZ''}\<rparr>"
    "rx_alive (p_channels (lk_proc s2)) (ri_channel \<lparr>ri_channel = 0, ri_tickers = {''XYZ''}\<rparr>)"
    by (simp_all add: tick(5,6) subscribed_registries)
  from sections_fifo [OF subscribed_processor_inv bs cs here] have "queue_at (p_channels (lk_proc s3)) 0 = [q]"
    by (simp add: tick(6) subscribed_registries(6))
  with cs show ?thesis by blast
qed

text \<open>
  Claim C15. Refinement of the broker by the interleaved operations: the server whose
  requests, ticks, streaming loops and monitors run in one piece is seen from outside as the
  same broker. An accepted subscription opens an inbox and joins, a refused one closes its
  inbox again; a tick publishes one quote to all who have asked for the ticker and then
  removes those whose inbox is closed; a streaming thread that ends leaves and closes its
  inbox; monitors and connection errors change nothing.
\<close>

theorem server_refines_broker:
  assumes "processor_inv p" "history (server_step sd bc) server_events (new_server p) bs s"
  shows "broker_run (broker_view p) bs (broker_view (sv_proc s))"
  using server_broker.simulates_history [OF assms(2) new_server_inv [OF assms(1)]]
  by (simp add: new_server_def)

theorem server_refines_broker_witness:
  "broker_run (broker_view example_processor) [Open 0, Join 0 \<lparr>ri_channel = 0, ri_tickers = {''XYZ''}\<rparr>]
     (broker_view (sv_proc example_server))"
proof -
  let ?ev = "AcceptConn \<lparr>avail = frame ''CMD|STREAM|UDP|127.0.0.1|8091|XYZ'',
        in_end = IoError UnexpectedEof None ''''\<rparr> \<lparr>written = [], room = None, out_end = IoError OtherKind None ''''\<rparr>"
  have "server_step strum_text reference_bincode (new_server example_processor) (Accept ?ev) example_server"
    using example_accepted by (simp add: server_run_single)
  moreover have "server_events (new_server example_processor) (Accept ?ev) =
      [Open 0, Join 0 \<lparr>ri_channel = 0, ri_tickers = {''XYZ''}\<rparr>]"
    using example_request example_known(1)
    by (simp add: server_events_def new_server_def add_events_def example_ids example_command_def)
  ultimately show ?thesis
    using server_refines_broker [OF example_processor_inv server_history] by metis
qed

end
