(* ===== verification/Delivery.thy ===== *)
theory Delivery
  imports Broker
begin

text \<open>
  What a streaming thread has sent, against the trace of the server: the quotes published to
  its subscriber are those it took from its channel and those that still wait, and it sent
  each quote it took, in order, unless \<open>bincode\<close> or the socket refused that quote.
\<close>

section \<open>Datagrams and published quotes\<close>

text \<open>
  The quote that an iteration of the streaming loop takes from the channel of the thread at
  \<open>a\<close>, with what \<open>send_to\<close> returns should it be called.
\<close>

definition taken :: "nat \<Rightarrow> server \<Rightarrow> server_event \<Rightarrow> (stock_quote \<times> io_error option) list" where
  "taken a s e =
     (case e of
        SendQuote b err \<Rightarrow>
          (case sv_threads s a of
             None \<Rightarrow> []
           | Some th \<Rightarrow>
               if b = a \<and> stream_events (st_info th) (sv_proc s) \<noteq> []
               then [(hd (queue_at (p_channels (sv_proc s)) a), err)] else [])
      | _ \<Rightarrow> [])"

text \<open>
  \<open>log\<close> is what the thread took. What was published after the thread has finished waits
  nowhere.
\<close>

definition delivered ::
    "'b bincode \<Rightarrow> broker_event list \<Rightarrow> (stock_quote \<times> io_error option) list \<Rightarrow> processor \<Rightarrow> nat
      \<Rightarrow> stream_thread \<Rightarrow> bool" where
  "delivered bc bs log p a th \<longleftrightarrow> (\<exists>rest. published (thread_id th) bs = map fst log @ rest
     \<and> st_sent th = concat (map (\<lambda>(q, err). datagrams_for bc (si_udp_addr (st_info th)) q err) log)
     \<and> (\<forall>q \<in> set (map fst log). q_ticker q \<in> st_tickers th)
     \<and> (unfinished th \<longrightarrow> rest = queue_at (p_channels p) a))"

definition delivery_inv :: "'b bincode \<Rightarrow> (server \<times> server_event) list \<Rightarrow> server \<Rightarrow> bool" where
  "delivery_inv bc tr s \<longleftrightarrow>
     (\<forall>i. p_next_id (sv_proc s) \<le> i \<longrightarrow> published i (along server_events tr) = [])
     \<and> (\<forall>a. case sv_threads s a of
          None \<Rightarrow> along (taken a) tr = []
        | Some th \<Rightarrow> delivered bc (along server_events tr) (along (taken a) tr) (sv_proc s) a th)"

lemma delivery_invD:
  assumes "delivery_inv bc tr s"
  shows "sv_threads s a = Some th \<Longrightarrow> delivered bc (along server_events tr) (along (taken a) tr) (sv_proc s) a th"
    and "sv_threads s a = None \<Longrightarrow> along (taken a) tr = []"
    and "p_next_id (sv_proc s) \<le> i \<Longrightarrow> published i (along server_events tr) = []"
  using assms unfolding delivery_inv_def by (metis option.simps(4,5))+

lemma published_append: "published i (bs @ cs) = published i bs @ published i cs"
  by (induction i bs rule: published.induct) auto

lemma published_leaves: "published i (map Leave is @ bs) = published i bs"
  by (induction "is") simp_all

section \<open>What a step publishes and to whom\<close>

lemma publishes_to_registered:
  assumes "published i (server_events s e) \<noteq> []"
  shows "receivers (p_generator (sv_proc s)) i \<noteq> None"
  using assms published_leaves [of i _ "[]"]
  by (auto simp: server_events_def add_events_def tick_events_def cleanup_events_def stream_events_def subscribed_def
      split: server_event.splits accepted.splits sum.splits tcp_message.splits option.splits
        outcome.splits prod.splits if_splits)

lemma next_id_unpublished:
  assumes "server_inv bc s" "p_next_id (sv_proc s) \<le> i"
  shows "published i (server_events s e) = []"
proof (rule ccontr)
  assume "\<not> ?thesis"
  then obtain r where "receivers (p_generator (sv_proc s)) i = Some r"
    using publishes_to_registered by blast
  with assms receiver_bounds [of "sv_proc s" i r] show False by (simp add: server_inv_def leD)
qed

lemma step_next_id:
  assumes "server_step sd bc s e s'" "server_inv bc s"
  shows "p_next_id (sv_proc s) \<le> p_next_id (sv_proc s')"
  using assms
proof (induction rule: server_step.induct)
  case (accept s ev p')
  then have p: "processor_inv (sv_proc s)" by (simp add: server_inv_def)
  from accept_cases [OF accept(2) p] show ?case
  proof (elim disjE exE)
    fix cmd assume "p' = snd (add_subscriber cmd (sv_proc s))"
    with next_id_step [OF disjI2 [OF refl] accept(1)] show ?case
      by (cases rule: add_subscriber_cases [OF p, of cmd]) (auto intro: less_imp_le)
  qed simp
qed (auto simp: stream_end_cleanup bind_failed_cleanup start_streaming_def cleanup_def remove_subscriber_frame Let_def
    dest!: stream_step_frame)

text \<open>
  What a step does to a thread that is there: only its own iteration of the streaming loop
  changes what it has sent, and it never starts again.
\<close>

definition sends :: "'b bincode \<Rightarrow> server \<Rightarrow> server_event \<Rightarrow> nat \<Rightarrow> stream_thread \<Rightarrow> stream_thread \<Rightarrow> bool" where
  "sends bc s e a th th' \<longleftrightarrow> unfinished th \<and> unfinished th' \<and> (\<exists>err p'. e = SendQuote a err
     \<and> stream_step bc (st_info th) (sv_proc s, st_sent th) err = Continue (p', st_sent th'))"

definition continues :: "'b bincode \<Rightarrow> server \<Rightarrow> server_event \<Rightarrow> nat \<Rightarrow> stream_thread \<Rightarrow> stream_thread \<Rightarrow> bool" where
  "continues bc s e a th th' \<longleftrightarrow> st_info th' = st_info th \<and> st_tickers th' = st_tickers th
     \<and> (unfinished th' \<longrightarrow> unfinished th)
     \<and> (unfinished th' \<longrightarrow> Leave (thread_id th) \<notin> set (server_events s e) \<and> Close a \<notin> set (server_events s e))
     \<and> (sends bc s e a th th' \<or> st_sent th' = st_sent th \<and> taken a s e = []
         \<and> (unfinished th' \<longrightarrow> Take a \<notin> set (server_events s e)))"

lemma tick_leaves:
  assumes "processor_inv p" "hash_order_ok (te_order env)" "Leave i \<in> set (tick_events t env p)"
  shows "dead_subscriber (p_generator p) (p_channels p) t i"
proof -
  let ?dead = "{i. dead_subscriber (p_generator p) (p_channels p) t i}"
  have "?dead \<subseteq> {i. subscribed (p_generator p) i t}"
    by (auto simp: dead_subscriber_def subscribed_def split: option.splits)
  then have "finite ?dead"
    using assms(1) by (auto simp: processor_inv_def generator_ok_def registry_inv_def listed_def
        split: option.splits intro: finite_subset)
  then have "set (id_order (te_order env) ?dead) = ?dead"
    using assms(2) by (simp add: hash_order_ok_def)
  with assms(3) show ?thesis
    by (auto simp: tick_events_def split: outcome.splits option.splits prod.splits)
qed

lemma tick_no_take: "Take a \<notin> set (tick_events t env p)" "Close a \<notin> set (tick_events t env p)"
  by (auto simp: tick_events_def split: outcome.splits option.splits prod.splits)

lemma thread_facts:
  assumes "server_inv bc s" "sv_threads s a = Some th"
  shows "thread_ok bc (sv_proc s) a th" "si_channel (st_info th) = a" "a < p_next_addr (sv_proc s)"
    "processor_inv (sv_proc s)"
  using assms by (auto simp: server_inv_def thread_ok_def thread_placed_def)

lemma cleanup_elsewhere:
  assumes "server_inv bc s" "sv_threads s a = Some th" "sv_threads s b = Some u" "a \<noteq> b"
    and "unfinished th" "unfinished u"
  shows "Leave (thread_id th) \<notin> set (cleanup_events (st_info u)) \<and> Close a \<notin> set (cleanup_events (st_info u))"
  using assms threads_distinct [OF thread_facts(1) [OF assms(1,2)] thread_facts(1) [OF assms(1,3)]]
    thread_facts(2) [OF assms(1,3)]
  by (auto simp: cleanup_events_def thread_id_def)

lemma continues_untouched:
  assumes "taken a s e = []"
    and "unfinished th \<Longrightarrow> Leave (thread_id th) \<notin> set (server_events s e) \<and> Close a \<notin> set (server_events s e)
      \<and> Take a \<notin> set (server_events s e)"
  shows "continues bc s e a th th"
  using assms by (simp add: continues_def)

lemma accept_threads:
  assumes "server_inv bc s" "p_next_id (sv_proc s) \<noteq> - 1" "accept_step sd (sv_proc s) ev = Continue p'"
  shows "start_threads (sv_proc s) p' (sv_threads s) = sv_threads s
    \<or> (\<exists>th. start_threads (sv_proc s) p' (sv_threads s) = (sv_threads s)(p_next_addr (sv_proc s) \<mapsto> th)
        \<and> st_sent th = [] \<and> st_monitor th = None \<and> thread_id th = p_next_id (sv_proc s)
        \<and> queue_at (p_channels p') (p_next_addr (sv_proc s)) = [])"
proof -
  have p: "processor_inv (sv_proc s)" using assms(1) by (simp add: server_inv_def)
  from accept_cases [OF assms(3) p] show ?thesis
  proof (elim disjE exE)
    fix cmd assume p': "p' = snd (add_subscriber cmd (sv_proc s))"
    show ?thesis
    proof (cases "first_unknown (sv_proc s) cmd")
      case (Some t)
      with add_subscriber_refused [OF p Some] show ?thesis by (simp add: p' start_threads_def)
    next
      case None
      from add_subscriber_subs [OF p None] added_thread(1) [OF p assms(2) p' None] show ?thesis
        by (auto simp: p' new_thread_def thread_id_def channel)
    qed
  qed (simp add: start_threads_same)
qed

lemma step_continues:
  assumes "server_step sd bc s e s'" "server_inv bc s" "sv_threads s a = Some th"
  shows "\<exists>th'. sv_threads s' a = Some th' \<and> continues bc s e a th th'"
  using assms
proof (induction rule: server_step.induct)
  case (accept s ev p')
  note facts = thread_facts [OF accept.prems]
  have "continues bc s (Accept ev) a th th"
    using facts(3) by (intro continues_untouched)
      (auto simp: taken_def server_events_def add_events_def split: accepted.splits sum.splits tcp_message.splits option.splits)
  with accept_threads [OF accept.prems(1) accept.hyps] accept.prems facts(3) show ?case by auto
next
  case (tick env t s g ch)
  note facts = thread_facts [OF tick.prems]
  have "continues bc s (Tick t env) a th th"
  proof (rule continues_untouched)
    show "taken a s (Tick t env) = []" by (simp add: taken_def)
    assume "unfinished th"
    with facts have "\<not> dead_subscriber (p_generator (sv_proc s)) (p_channels (sv_proc s)) t (thread_id th)"
      by (simp add: dead_subscriber_def thread_ok_def thread_live_def)
    with tick_leaves [OF facts(4) tick(1)] tick_no_take
    show "Leave (thread_id th) \<notin> set (server_events s (Tick t env)) \<and> Close a \<notin> set (server_events s (Tick t env))
      \<and> Take a \<notin> set (server_events s (Tick t env))" by (auto simp: server_events_def)
  qed
  with tick.prems show ?case by auto
next
  case (bind_failed s b u h e r p' sent)
  show ?case
  proof (cases "a = b")
    case True
    with bind_failed show ?thesis by (simp add: continues_def taken_def)
  next
    case False
    have "continues bc s (BindFailed b e h) a th th"
      using cleanup_elsewhere [OF bind_failed.prems bind_failed(1) False] bind_failed(1,2)
      by (intro continues_untouched) (auto simp: taken_def server_events_def unfinished_def cleanup_events_def)
    with False bind_failed.prems show ?thesis by auto
  qed
next
  case (clone_failed s b u h e r p' sent)
  show ?case
  proof (cases "a = b")
    case True
    with clone_failed show ?thesis by (simp add: continues_def taken_def)
  next
    case False
    with thread_facts(2) [OF clone_failed.prems(1) clone_failed(1)]
    have "continues bc s (CloneFailed b e) a th th"
      using clone_failed(1) by (intro continues_untouched) (simp_all add: taken_def server_events_def)
    with False clone_failed.prems show ?thesis by auto
  qed
next
  case (begin_streaming s b u start)
  then show ?case by (auto simp: continues_def taken_def server_events_def unfinished_def)
next
  case (begin_unmonitored s b u err start e m)
  then show ?case by (auto simp: continues_def taken_def server_events_def unfinished_def)
next
  case (send_quote s b u err p' sent)
  then show ?case
    using thread_facts(2) [OF send_quote.prems(1) send_quote(1)]
    by (cases "a = b") (auto simp: continues_def taken_def sends_def server_events_def stream_events_def unfinished_def)
next
  case (stop_streaming s b u err p' sent)
  note facts = thread_facts [OF stop_streaming.prems(1) stop_streaming(1)]
  with stop_streaming(2) have "tx_alive (p_channels (sv_proc s)) (si_channel (st_info u))"
    by (simp add: thread_ok_def thread_live_def unfinished_def)
  from stream_break_flag [OF stop_streaming(3) this] stop_streaming show ?case
    by (cases "a = b") (auto simp: continues_def taken_def server_events_def stream_events_def unfinished_def)
next
  case (join_monitor s b u e h r p')
  show ?case
  proof (cases "a = b")
    case True
    with join_monitor show ?thesis by (simp add: continues_def taken_def)
  next
    case False
    have "continues bc s (JoinMonitor b h) a th th"
      using cleanup_elsewhere [OF join_monitor.prems join_monitor(1) False] join_monitor(1,2)
      by (intro continues_untouched) (auto simp: taken_def server_events_def unfinished_def cleanup_events_def)
    with False join_monitor.prems show ?thesis by auto
  qed
next
  case (monitor s b u m ev m')
  then show ?case by (auto simp: continues_def taken_def server_events_def)
next
  case (monitor_end s b u m ev e m')
  then show ?case by (auto simp: continues_def taken_def server_events_def)
qed

section \<open>Every step keeps the account\<close>

text \<open>The channel of a thread that goes on, after a step.\<close>

lemma step_queue:
  assumes "server_step sd bc s e s'" "server_inv bc s" "sv_threads s a = Some th" "continues bc s e a th th'"
    and "unfinished th'"
  shows "queue_at (p_channels (sv_proc s')) a =
    drop (count_list (server_events s e) (Take a))
      (queue_at (p_channels (sv_proc s)) a @ published (thread_id th) (server_events s e))"
proof -
  let ?r = "\<lparr>ri_channel = a, ri_tickers = st_tickers th\<rparr>"
  have "unfinished th" using assms(4,5) by (simp add: continues_def)
  then have "receivers (p_generator (sv_proc s)) (thread_id th) = Some ?r" "rx_alive (p_channels (sv_proc s)) a"
    using thread_facts(1) [OF assms(2,3)] by (simp_all add: thread_ok_def thread_live_def)
  then show ?thesis
    using run_inbox [OF server_step_view [OF assms(1,2)], of "thread_id th" ?r "queue_at (p_channels (sv_proc s)) a"]
      processor_apart [OF thread_facts(4) [OF assms(2,3)]] assms(4,5)
    by (auto simp: continues_def split: if_splits)
qed

lemma count_list_not_mem: "x \<notin> set xs \<Longrightarrow> count_list xs x = 0"
  by (induction xs) auto

text \<open>One iteration of the streaming loop takes a quote, if one waits, and sends it or not.\<close>

lemma step_sends:
  assumes "server_inv bc s" "sv_threads s a = Some th" "sends bc s e a th th'"
  shows "(\<exists>q qs err. queue_at (p_channels (sv_proc s)) a = q # qs \<and> server_events s e = [Take a]
        \<and> taken a s e = [(q, err)] \<and> st_sent th' = st_sent th @ datagrams_for bc (si_udp_addr (st_info th)) q err)
    \<or> queue_at (p_channels (sv_proc s)) a = [] \<and> server_events s e = [] \<and> taken a s e = []
        \<and> st_sent th' = st_sent th"
proof -
  obtain err p' where e: "e = SendQuote a err"
    and step: "stream_step bc (st_info th) (sv_proc s, st_sent th) err = Continue (p', st_sent th')"
    using assms(3) by (auto simp: sends_def)
  have run: "\<not> flag_set (sv_proc s) (si_shutdown (st_info th))"
    using step by (auto simp: stream_step_flagged)
  have here: "si_channel (st_info th) = a" "rx_alive (p_channels (sv_proc s)) a"
    using thread_facts(1) [OF assms(1,2)] assms(3) by (simp_all add: sends_def thread_ok_def thread_placed_def thread_live_def)
  show ?thesis
  proof (cases "queue_at (p_channels (sv_proc s)) a")
    case Nil
    then have "fst (chan_recv (p_channels (sv_proc s)) a) \<in> {RecvTimeout, RecvDisconnected}"
      by (simp add: recv_result)
    with step run have "st_sent th' = st_sent th"
      by (auto simp: stream_step_def here split: prod.splits recv_result.splits)
    with Nil assms(2) show ?thesis by (simp add: e taken_def server_events_def stream_events_def here)
  next
    case (Cons q qs)
    with stream_step_received [OF run, of q qs bc "st_sent th" err] step assms(2) run
    show ?thesis by (auto simp: e taken_def server_events_def stream_events_def here)
  qed
qed

lemma step_delivered:
  assumes "server_step sd bc s e s'" "server_inv bc s" "sv_threads s a = Some th" "continues bc s e a th th'"
    and "delivered bc bs log (sv_proc s) a th"
  shows "delivered bc (bs @ server_events s e) (log @ taken a s e) (sv_proc s') a th'"
proof -
  let ?ev = "server_events s e" and ?queue = "queue_at (p_channels (sv_proc s)) a"
  have same: "st_info th' = st_info th" "st_tickers th' = st_tickers th" "thread_id th' = thread_id th"
    "unfinished th' \<Longrightarrow> unfinished th"
    using assms(4) by (auto simp: continues_def thread_id_def)
  obtain rest where old: "published (thread_id th) bs = map fst log @ rest" "unfinished th \<longrightarrow> rest = ?queue"
    "st_sent th = concat (map (\<lambda>(q, err). datagrams_for bc (si_udp_addr (st_info th)) q err) log)"
    "\<forall>q \<in> set (map fst log). q_ticker q \<in> st_tickers th"
    using assms(5) by (auto simp: delivered_def)
  note queue = step_queue [OF assms(1-4)]
  show ?thesis
  proof (cases "sends bc s e a th th'")
    case True
    then have rest: "rest = ?queue" "unfinished th'" using old(2) by (auto simp: sends_def)
    from step_sends [OF assms(2,3) True] show ?thesis
    proof (elim disjE exE conjE)
      fix q qs err
      assume q: "?queue = q # qs" "?ev = [Take a]" "taken a s e = [(q, err)]"
        "st_sent th' = st_sent th @ datagrams_for bc (si_udp_addr (st_info th)) q err"
      then have "q_ticker q \<in> st_tickers th"
        using thread_facts(1) [OF assms(2,3)] by (simp add: thread_ok_def thread_quotes_def)
      then show ?thesis
        using queue [OF rest(2)] old by (simp add: delivered_def same q rest(1) published_append)
    next
      assume "?queue = []" "?ev = []" "taken a s e = []" "st_sent th' = st_sent th"
      then show ?thesis using queue [OF rest(2)] old by (simp add: delivered_def same rest(1))
    qed
  next
    case False
    then have sent: "st_sent th' = st_sent th" "taken a s e = []" "unfinished th' \<Longrightarrow> count_list ?ev (Take a) = 0"
      using assms(4) by (auto simp: continues_def count_list_not_mem)
    have "unfinished th' \<longrightarrow> rest @ published (thread_id th) ?ev = queue_at (p_channels (sv_proc s')) a"
      using queue sent(3) old(2) same(4) by auto
    with old show ?thesis by (simp add: delivered_def same sent(1,2) published_append)
  qed
qed

lemma step_new_thread:
  assumes "server_step sd bc s e s'" "server_inv bc s" "sv_threads s a = None" "sv_threads s' a = Some th"
  shows "st_sent th = [] \<and> thread_id th = p_next_id (sv_proc s) \<and> queue_at (p_channels (sv_proc s')) a = []"
  using assms
proof (induction rule: server_step.induct)
  case (accept s ev p')
  with accept_threads [OF accept.prems(1) accept.hyps] show ?case by (auto split: if_splits)
qed (auto split: if_splits)

lemma step_absent_thread:
  assumes "server_step sd bc s e s'" "server_inv bc s" "sv_threads s' a = None"
  shows "sv_threads s a = None"
  using step_continues [OF assms(1,2), of a] assms(3) by fastforce

lemma taken_absent: "sv_threads s a = None \<Longrightarrow> taken a s e = []"
  by (simp add: taken_def split: server_event.splits)

lemma step_delivery_inv:
  assumes "server_step sd bc s e s'" "server_inv bc s" "delivery_inv bc tr s"
  shows "delivery_inv bc (tr @ [(s, e)]) s'"
proof -
  let ?bs = "along server_events tr" and ?log = "\<lambda>a. along (taken a) tr"
  note old = delivery_invD [OF assms(3)]
  have "published i (?bs @ server_events s e) = []" if "p_next_id (sv_proc s') \<le> i" for i
  proof -
    have "p_next_id (sv_proc s) \<le> i" using step_next_id [OF assms(1,2)] that by simp
    with next_id_unpublished [OF assms(2)] old(3) show ?thesis by (simp add: published_append)
  qed
  moreover have "?log a @ taken a s e = []" if "sv_threads s' a = None" for a
    using old(2) step_absent_thread [OF assms(1,2) that] by (simp add: taken_absent)
  moreover have "delivered bc (?bs @ server_events s e) (?log a @ taken a s e) (sv_proc s') a th'"
    if th': "sv_threads s' a = Some th'" for a th'
  proof (cases "sv_threads s a")
    case None
    with step_new_thread [OF assms(1,2) None th'] next_id_unpublished [OF assms(2)] old(2,3)
    show ?thesis by (simp add: published_append delivered_def taken_absent)
  next
    case (Some th)
    with step_continues [OF assms(1,2) Some] th' step_delivered [OF assms(1,2) Some] old(1) show ?thesis by auto
  qed
  ultimately show ?thesis by (auto simp: delivery_inv_def split: option.split)
qed

lemma history_delivery_inv:
  "history (server_step sd bc) traced s tr s' \<Longrightarrow> server_inv bc s \<Longrightarrow> delivery_inv bc [] s
     \<Longrightarrow> delivery_inv bc tr s' \<and> server_inv bc s'"
proof (induction rule: history.induct)
  case (history_snoc s tr s' e s'')
  then show ?case using step_delivery_inv [OF history_snoc(2)] step_server_inv [OF history_snoc(2)] by simp
qed simp

lemma new_delivery_inv: "delivery_inv bc [] (new_server p)"
  by (simp add: delivery_inv_def new_server_def)

lemma server_run_trace:
  "server_run sd bc s es s' \<Longrightarrow> \<exists>tr. history (server_step sd bc) traced s tr s'"
  by (induction rule: server_run.induct) (blast intro: history.intros)+

text \<open>A datagram that carries a quote of the requested tickers to the subscriber; it carries one quote only.\<close>

definition carries :: "'b bincode \<Rightarrow> stream_thread \<Rightarrow> socket_addr \<times> u8 list \<Rightarrow> stock_quote \<Rightarrow> bool" where
  "carries bc th d q \<longleftrightarrow> fst d = si_udp_addr (st_info th) \<and> q_ticker q \<in> st_tickers th
     \<and> udp_to_bytes bc (Quote q) = Inr (snd d)"

lemma carries_unique:
  "bincode_ok bc \<Longrightarrow> udp_to_bytes bc (Quote q) = Inr (snd d) \<Longrightarrow> carries bc th d q' \<Longrightarrow> q' = q"
  using udp_bytes_back [of bc "Quote q" "snd d"] udp_bytes_back [of bc "Quote q'" "snd d"]
  by (simp add: carries_def)

lemma reference_carries:
  "quote_fits q \<Longrightarrow> carries reference_bincode th (addr, write_udp (Quote q)) q' \<Longrightarrow> q' = q"
  using carries_unique [OF reference_bincode_ok, of q "(addr, write_udp (Quote q))" th q']
  by (simp del: write_udp.simps)

lemma sent_published:
  assumes "delivery_inv bc tr s" "sv_threads s a = Some th" "d \<in> set (st_sent th)"
  obtains q where "carries bc th d q" "q \<in> set (published (thread_id th) (along server_events tr))"
proof -
  obtain rest where account: "published (thread_id th) (along server_events tr) = map fst (along (taken a) tr) @ rest"
    "st_sent th = concat (map (\<lambda>(q, err). datagrams_for bc (si_udp_addr (st_info th)) q err) (along (taken a) tr))"
    "\<forall>q \<in> set (map fst (along (taken a) tr)). q_ticker q \<in> st_tickers th"
    using delivery_invD(1) [OF assms(1,2)] unfolding delivered_def by blast
  then obtain q err where "(q, err) \<in> set (along (taken a) tr)"
    "d \<in> set (datagrams_for bc (si_udp_addr (st_info th)) q err)" using assms(3) by auto
  with account(1,3) that show thesis
    by (force simp: carries_def datagrams_for_def split: sum.splits if_splits)
qed

section \<open>Properties\<close>

text \<open>
  Claim C10. What a subscriber is sent: in every interleaving of requests, ticks, streaming
  threads and monitors, the quotes published to a subscriber are, in order, those its thread
  has taken from its channel, followed, while the thread runs, by exactly those that wait
  there; each one taken is of a ticker the subscriber asked for and was sent once, in that order,
  to the address the subscriber asked for, unless bincode refused it or send_to failed on it,
  and the thread has sent nothing else.
\<close>

theorem sent_as_published:
  assumes "history (server_step sd bc) traced (new_server p) tr s" "processor_inv p"
    and "sv_threads s a = Some th"
  shows "\<exists>rest. published (thread_id th) (along server_events tr) = map fst (along (taken a) tr) @ rest
    \<and> (unfinished th \<longrightarrow> rest = queue_at (p_channels (sv_proc s)) (si_channel (st_info th)))
    \<and> (\<forall>q \<in> set (map fst (along (taken a) tr)). q_ticker q \<in> st_tickers th)
    \<and> st_sent th = concat (map (\<lambda>(q, send_error). case udp_to_bytes bc (Quote q) of
          Inl _ \<Rightarrow> []
        | Inr bytes \<Rightarrow> if send_error = None then [(si_udp_addr (st_info th), bytes)] else [])
        (along (taken a) tr))"
proof -
  have inv: "delivery_inv bc tr s" "server_inv bc s"
    using history_delivery_inv [OF assms(1) new_server_inv [OF assms(2)] new_delivery_inv] by simp_all
  from delivery_invD(1) [OF inv(1) assms(3)] show ?thesis
    unfolding delivered_def datagrams_for_def thread_facts(2) [OF inv(2) assms(3)] by blast
qed

theorem sent_as_published_witness:
  "\<exists>tr s th q. history (server_step strum_text reference_bincode) traced (new_server example_processor) tr s
    \<and> sv_threads s 0 = Some th \<and> st_sent th = [((Ipv4 127 0 0 1, 8091), write_udp (Quote q))]
    \<and> q \<in> set (published (thread_id th) (along server_events tr)) \<and> q \<in> set (map fst (along (taken 0) tr))"
proof -
  obtain es s q where run: "server_run strum_text reference_bincode (new_server example_processor) es s"
    and th: "sv_threads s 0 = Some (example_thread\<lparr>st_sent := [((Ipv4 127 0 0 1, 8091), write_udp (Quote q))]\<rparr>)"
      "q_ticker q = ''XYZ''" using example_quote_sent by blast
  let ?th = "example_thread\<lparr>st_sent := [((Ipv4 127 0 0 1, 8091), write_udp (Quote q))]\<rparr>"
  obtain tr where tr: "history (server_step strum_text reference_bincode) traced (new_server example_processor) tr s"
    using server_run_trace [OF run] by blast
  let ?sent = "\<lambda>(q, send_error). case udp_to_bytes reference_bincode (Quote q) of Inl _ \<Rightarrow> []
    | Inr bytes \<Rightarrow> if send_error = (None :: io_error option) then [(si_udp_addr (st_info ?th), bytes)] else []"
  obtain rest where account: "published (thread_id ?th) (along server_events tr) = map fst (along (taken 0) tr) @ rest"
    "st_sent ?th = concat (map ?sent (along (taken 0) tr))"
    using sent_as_published [OF tr example_processor_inv th(1)] by blast
  have "((Ipv4 127 0 0 1, 8091), write_udp (Quote q)) \<in> set (st_sent ?th)" by simp
  then have "((Ipv4 127 0 0 1, 8091), write_udp (Quote q)) \<in> set (concat (map ?sent (along (taken 0) tr)))"
    unfolding account(2) .
  then obtain q' where "q' \<in> set (map fst (along (taken 0) tr))"
    "udp_to_bytes reference_bincode (Quote q') = Inr (write_udp (Quote q))"
    by (force split: sum.splits if_splits)
  moreover have "quote_fits q" by (simp add: quote_fits_def th(2))
  ultimately have "q \<in> set (map fst (along (taken 0) tr))"
    using udp_bytes_back [OF reference_bincode_ok, of "Quote q'" "write_udp (Quote q)"] 
      udp_bytes_back [OF reference_bincode_ok, of "Quote q" "write_udp (Quote q)"] by simp
  with account(1) have "q \<in> set (published (thread_id ?th) (along server_events tr))" by simp
  moreover have "st_sent ?th = [((Ipv4 127 0 0 1, 8091), write_udp (Quote q))]" by simp
  ultimately show ?thesis using tr th(1) \<open>q \<in> set (map fst (along (taken 0) tr))\<close> by blast
qed

end
