(* ===== verification/System.thy ===== *)
theory System
  imports Client Delivery
begin

text \<open>
  A client and the server, each with all its threads, on a network that may lose, repeat,
  delay and reorder datagrams but does not make them up. What the client prints, whom it
  pings and which pings it takes for answered is traced back to what the server did.
\<close>

section \<open>The network\<close>

text \<open>
  \<open>here\<close> is the address of the client's socket, \<open>port a\<close> the one the system gave to the socket
  of the streaming thread \<open>a\<close>, which its monitor shares. The streaming thread and the
  monitor both send to the subscriber. What has been sent may arrive at any time, any number
  of times; the server may hear from anybody else as well, but only the server sends to the client.
\<close>

record system =
  sy_server :: server
  sy_client :: client

datatype system_event = AtServer server_event | AtClient client_event

definition outgoing :: "stream_thread \<Rightarrow> sent_datagrams" where
  "outgoing th = st_sent th @ (case st_monitor th of None \<Rightarrow> [] | Some m \<Rightarrow> m_pongs m)"

definition to_client :: "socket_addr \<Rightarrow> (nat \<Rightarrow> socket_addr) \<Rightarrow> server \<Rightarrow> socket_addr \<Rightarrow> u8 list \<Rightarrow> bool" where
  "to_client here port s src bytes \<longleftrightarrow>
     (\<exists>a th. sv_threads s a = Some th \<and> port a = src \<and> (here, bytes) \<in> set (outgoing th))"

definition to_server :: "(nat \<Rightarrow> socket_addr) \<Rightarrow> client \<Rightarrow> nat \<Rightarrow> u8 list \<Rightarrow> bool" where
  "to_server port c a bytes \<longleftrightarrow> (port a, bytes) \<in> set (c_pinged c)"

inductive system_step ::
    "(strum_error \<Rightarrow> string) \<Rightarrow> 'b bincode \<Rightarrow> socket_addr \<Rightarrow> (nat \<Rightarrow> socket_addr)
      \<Rightarrow> system \<Rightarrow> system_event \<Rightarrow> system \<Rightarrow> bool" for sd bc here port where
  at_server: "server_step sd bc (sy_server s) e sv \<Longrightarrow>
    (\<And>a bytes now. e = MonitorEvent a (Datagram bytes here now) \<Longrightarrow> to_server port (sy_client s) a bytes) \<Longrightarrow>
    system_step sd bc here port s (AtServer e) (s\<lparr>sy_server := sv\<rparr>)"
| at_client: "client_step bc (sy_client s) e c \<Longrightarrow>
    (\<And>bytes src clone clock. e = Receive (Packet bytes src clone clock) \<Longrightarrow>
       \<exists>addr. src = FromV4 addr \<and> to_client here port (sy_server s) addr bytes) \<Longrightarrow>
    system_step sd bc here port s (AtClient e) (s\<lparr>sy_client := c\<rparr>)"

definition system_events :: "system \<Rightarrow> system_event \<Rightarrow> broker_event list" where
  "system_events s e = (case e of AtServer ev \<Rightarrow> server_events (sy_server s) ev | AtClient ev \<Rightarrow> [])"

definition new_system :: "processor \<Rightarrow> io_error + unit \<Rightarrow> worker \<Rightarrow> system" where
  "new_system p socket w = \<lparr>sy_server = new_server p, sy_client = new_client socket w\<rparr>"

section \<open>The parts of a run\<close>

text \<open>A run of the system is a run of the server and a run of the client.\<close>

lemma system_server_history:
  "history (system_step sd bc here port) system_events s bs s' \<Longrightarrow>
     history (server_step sd bc) server_events (sy_server s) bs (sy_server s')"
proof (induction rule: history.induct)
  case (history_snoc s bs s' e s'')
  from history_snoc(2,3) show ?case
    by (induction rule: system_step.induct) (auto simp: system_events_def intro: history.intros)
qed (rule history.intros)

lemma system_client_run:
  "history (system_step sd bc here port) system_events s bs s' \<Longrightarrow>
     \<exists>es. client_run bc (sy_client s) es (sy_client s')"
proof (induction rule: history.induct)
  case (history_snoc s bs s' e s'')
  from history_snoc(2,3) show ?case
    by (induction rule: system_step.induct) (auto intro: client_run.intros)
qed (blast intro: client_run.intros)

text \<open>Seen from outside, the system is a broker like its server.\<close>

interpretation system_broker: broker_refinement "\<lambda>s. server_inv bc (sy_server s)"
    "system_step sd bc here port" "\<lambda>s. broker_view (sv_proc (sy_server s))" system_events
  for sd bc here port
proof
  fix s :: system and e s'
  assume inv: "server_inv bc (sy_server s)"
  show "inboxes_apart (broker_view (sv_proc (sy_server s)))" by (rule server_broker.keeps_apart [OF inv])
  assume "system_step sd bc here port s e s'"
  then show "server_inv bc (sy_server s')"
    and "broker_run (broker_view (sv_proc (sy_server s))) (system_events s e) (broker_view (sv_proc (sy_server s')))"
    using inv by (induction rule: system_step.induct)
      (auto simp: system_events_def intro: server_broker.step_ok server_broker.simulates)
qed

section \<open>What each side learns in a step\<close>

definition pongs_at :: "server \<Rightarrow> nat \<Rightarrow> sent_datagrams" where
  "pongs_at s a = (case sv_threads s a of None \<Rightarrow> [] | Some th \<Rightarrow>
     (case st_monitor th of None \<Rightarrow> [] | Some m \<Rightarrow> m_pongs m))"

lemma monitor_answers:
  assumes "monitor_step bc m ev = Continue m' \<or> (\<exists>e. monitor_step bc m ev = Break (e, m'))"
  shows "m_pongs m' = m_pongs m \<or> (\<exists>bytes src now t pong. ev = Datagram bytes src now
    \<and> udp_from_bytes bc (take monitor_buf bytes) = Inr (Ping t) \<and> udp_to_bytes bc (Pong t) = Inr pong
    \<and> m_pongs m' = m_pongs m @ [(src, pong)])"
  using assms by (auto simp: monitor_step_def Let_def split: udp_event.splits sum.splits udp_message.splits
      if_splits option.splits)

lemma step_pongs:
  assumes "server_step sd bc s e s'" "server_inv bc s" "server_flags s"
  shows "pongs_at s' a = pongs_at s a \<or> (\<exists>bytes src now t pong. e = MonitorEvent a (Datagram bytes src now)
    \<and> udp_from_bytes bc (take monitor_buf bytes) = Inr (Ping t) \<and> udp_to_bytes bc (Pong t) = Inr pong
    \<and> pongs_at s' a = pongs_at s a @ [(src, pong)])"
  using assms
proof (induction rule: server_step.induct)
  case (accept s ev p')
  have "sv_threads s (p_next_addr (sv_proc s)) = None"
    using thread_facts(3) [OF accept.prems(1)] by (metis less_irrefl not_None_eq)
  with accept_threads [OF accept.prems(1) accept.hyps] show ?case by (auto simp: pongs_at_def)
next
  case (begin_streaming s b th start)
  then have "st_monitor th = None" by (simp add: server_flags_def thread_flags_def)
  with begin_streaming show ?case by (simp add: pongs_at_def new_monitor_def)
next
  case (begin_unmonitored s b th err start e m)
  then have "st_monitor th = None" by (simp add: server_flags_def thread_flags_def)
  with begin_unmonitored show ?case by (auto simp: pongs_at_def monitor_connection_def new_monitor_def)
next
  case (monitor s b th m ev m')
  with monitor_answers [of bc m ev m'] show ?case by (auto simp: pongs_at_def)
next
  case (monitor_end s b th m ev e m')
  with monitor_answers [of bc m ev m'] show ?case by (auto simp: pongs_at_def)
qed (auto simp: pongs_at_def)

lemma step_to_client:
  assumes "server_step sd bc s e s'" "server_inv bc s" "server_flags s" "to_client here port s src bytes"
  shows "to_client here port s' src bytes"
proof -
  obtain a th where th: "sv_threads s a = Some th" "port a = src" "(here, bytes) \<in> set (outgoing th)"
    using assms(4) by (auto simp: to_client_def)
  obtain th' where th': "sv_threads s' a = Some th'" "continues bc s e a th th'"
    using step_continues [OF assms(1,2) th(1)] by blast
  have "set (st_sent th) \<subseteq> set (st_sent th')"
    using th'(2) step_sends [OF assms(2) th(1), of e th'] by (auto simp: continues_def)
  moreover have "set (pongs_at s a) \<subseteq> set (pongs_at s' a)" using step_pongs [OF assms(1-3), of a] by auto
  ultimately have "(here, bytes) \<in> set (outgoing th')"
    using th(1,3) th'(1) by (auto simp: outgoing_def pongs_at_def)
  with th'(1) th(2) show ?thesis by (auto simp: to_client_def)
qed

lemma match_pong_answers:
  "r \<in> set (match_pong now_ms t ps) \<Longrightarrow> r \<in> set ps \<or> pr_timestamp r = t"
  by (induction ps) (auto split: if_splits)

text \<open>A datagram the client takes in, decoded.\<close>

definition takes_in :: "'b bincode \<Rightarrow> client_event \<Rightarrow> udp_message \<Rightarrow> bool" where
  "takes_in bc e msg \<longleftrightarrow> (\<exists>bytes src clone clock. e = Receive (Packet bytes src clone clock)
     \<and> udp_from_bytes bc (take MAX_DATAGRAM_SIZE bytes) = Inr msg)"

lemma listen_learns:
  assumes "listen_step bc l ev = Continue l' \<or> (\<exists>e. listen_step bc l ev = Break (e, l'))"
  shows "q \<in> set (l_printed l') \<Longrightarrow> q \<in> set (l_printed l) \<or> takes_in bc (Receive ev) (Quote q)"
    and "r \<in> set (w_pings (l_worker l')) \<Longrightarrow>
      r \<in> set (w_pings (l_worker l)) \<or> takes_in bc (Receive ev) (Pong (pr_timestamp r))"
    and "l_src_addr l' = l_src_addr l \<or> (\<exists>bytes addr clone clock. ev = Packet bytes (FromV4 addr) clone clock
      \<and> l_src_addr l' = Some addr)"
  using assms
  by (auto simp: listen_step_def handle_message_def takes_in_def split: if_splits packet.splits sum.splits
      option.splits source.splits udp_message.splits outcome.splits dest!: match_pong_answers)

lemma logged_pings: "r \<in> set (log_ping t ps) \<Longrightarrow> pr_rtt_ms r \<noteq> None \<Longrightarrow> r \<in> set ps"
  by (auto simp: log_ping_def dest: set_tl split: if_splits)

lemma client_learns:
  assumes "client_step bc c e c'"
  shows "(\<forall>q \<in> set (l_printed (c_listener c')). q \<in> set (l_printed (c_listener c)) \<or> takes_in bc e (Quote q))
    \<and> (\<forall>r \<in> set (w_pings (c_worker c')). pr_rtt_ms r \<noteq> None \<longrightarrow>
        r \<in> set (w_pings (c_worker c)) \<or> takes_in bc e (Pong (pr_timestamp r)))
    \<and> (l_src_addr (c_listener c') = l_src_addr (c_listener c) \<or> (\<exists>bytes addr clone clock.
        e = Receive (Packet bytes (FromV4 addr) clone clock) \<and> l_src_addr (c_listener c') = Some addr))
    \<and> (\<forall>d \<in> set (c_pinged c'). d \<in> set (c_pinged c) \<or> l_src_addr (c_listener c) = Some (fst d))"
  using assms
proof (induction rule: client_step.induct)
  case (receive c ev l)
  with listen_learns [of bc "c_listener c" ev l] show ?case by auto
next
  case (receive_end c ev l)
  with listen_learns [of bc "c_listener c" ev l] show ?case by auto
next
  case (receive_panic c ev l)
  with listen_learns [of bc "c_listener c" ev l] show ?case by auto
next
  case (log_ping c t)
  then show ?case by (auto simp: set_worker_def ping_log_def dest: logged_pings)
qed (auto simp: set_worker_def pinging_def)

section \<open>Tracing what the client knows\<close>

definition client_traced :: "'b bincode \<Rightarrow> socket_addr \<Rightarrow> (nat \<Rightarrow> socket_addr) \<Rightarrow> system \<Rightarrow> bool" where
  "client_traced bc here port s \<longleftrightarrow>
     (let sent = to_client here port (sy_server s);
          arrived = (\<lambda>msg. \<exists>src bytes. sent src bytes \<and> udp_from_bytes bc (take MAX_DATAGRAM_SIZE bytes) = Inr msg);
          l = c_listener (sy_client s) in
      (\<forall>q \<in> set (l_printed l). arrived (Quote q))
      \<and> (\<forall>r \<in> set (w_pings (l_worker l)). pr_rtt_ms r \<noteq> None \<longrightarrow> arrived (Pong (pr_timestamp r)))
      \<and> (\<forall>src. l_src_addr l = Some src \<longrightarrow> (\<exists>bytes. sent src bytes))
      \<and> (\<forall>d \<in> set (c_pinged (sy_client s)). \<exists>bytes. sent (fst d) bytes))"

lemma client_tracedD:
  assumes "client_traced bc here port s"
  shows "q \<in> set (l_printed (c_listener (sy_client s))) \<Longrightarrow> \<exists>src bytes. to_client here port (sy_server s) src bytes
      \<and> udp_from_bytes bc (take MAX_DATAGRAM_SIZE bytes) = Inr (Quote q)"
    and "r \<in> set (w_pings (c_worker (sy_client s))) \<Longrightarrow> pr_rtt_ms r \<noteq> None \<Longrightarrow>
      \<exists>src bytes. to_client here port (sy_server s) src bytes
        \<and> udp_from_bytes bc (take MAX_DATAGRAM_SIZE bytes) = Inr (Pong (pr_timestamp r))"
    and "l_src_addr (c_listener (sy_client s)) = Some src \<Longrightarrow> \<exists>bytes. to_client here port (sy_server s) src bytes"
    and "d \<in> set (c_pinged (sy_client s)) \<Longrightarrow> \<exists>bytes. to_client here port (sy_server s) (fst d) bytes"
  using assms unfolding client_traced_def Let_def by blast+

definition pongs_traced :: "'b bincode \<Rightarrow> socket_addr \<Rightarrow> (nat \<Rightarrow> socket_addr) \<Rightarrow> system \<Rightarrow> bool" where
  "pongs_traced bc here port s \<longleftrightarrow> (\<forall>a. \<forall>(addr, pong) \<in> set (pongs_at (sy_server s) a).
     \<exists>t. udp_to_bytes bc (Pong t) = Inr pong \<and> (addr = here \<longrightarrow> (\<exists>ping. to_server port (sy_client s) a ping
        \<and> udp_from_bytes bc (take monitor_buf ping) = Inr (Ping t))))"

definition system_inv :: "'b bincode \<Rightarrow> socket_addr \<Rightarrow> (nat \<Rightarrow> socket_addr) \<Rightarrow> system \<Rightarrow> bool" where
  "system_inv bc here port s \<longleftrightarrow> server_inv bc (sy_server s) \<and> server_flags (sy_server s)
     \<and> client_traced bc here port s \<and> pongs_traced bc here port s"

lemma pinged_stays: "client_step bc c e c' \<Longrightarrow> set (c_pinged c) \<subseteq> set (c_pinged c')"
  by (induction rule: client_step.induct) (auto simp: set_worker_def)

lemma traced_at_server:
  assumes "server_step sd bc (sy_server s) e sv" "system_inv bc here port s"
    and "\<And>a bytes now. e = MonitorEvent a (Datagram bytes here now) \<Longrightarrow> to_server port (sy_client s) a bytes"
  shows "system_inv bc here port (s\<lparr>sy_server := sv\<rparr>)"
proof -
  have inv: "server_inv bc (sy_server s)" "server_flags (sy_server s)"
    using assms(2) by (simp_all add: system_inv_def)
  note more = step_to_client [OF assms(1) inv]
  have "client_traced bc here port (s\<lparr>sy_server := sv\<rparr>)"
    using assms(2) more [of here port] unfolding system_inv_def client_traced_def Let_def by simp meson
  moreover have "pongs_traced bc here port (s\<lparr>sy_server := sv\<rparr>)"
    unfolding pongs_traced_def
  proof (intro allI ballI, clarify)
    fix a addr pong
    assume pong: "(addr, pong) \<in> set (pongs_at (sy_server (s\<lparr>sy_server := sv\<rparr>)) a)"
    then show "\<exists>t. udp_to_bytes bc (Pong t) = Inr pong \<and> (addr = here \<longrightarrow> (\<exists>ping.
        to_server port (sy_client (s\<lparr>sy_server := sv\<rparr>)) a ping \<and> udp_from_bytes bc (take monitor_buf ping) = Inr (Ping t)))"
      using step_pongs [OF assms(1) inv, of a] assms(2,3) unfolding system_inv_def pongs_traced_def by fastforce
  qed
  ultimately show ?thesis
    using step_server_inv [OF assms(1) inv(1)] step_server_flags [OF assms(1) inv]
    by (simp add: system_inv_def)
qed

lemma traced_at_client:
  assumes "client_step bc (sy_client s) e c" "system_inv bc here port s"
    and "\<And>bytes src clone clock. e = Receive (Packet bytes src clone clock) \<Longrightarrow>
       \<exists>addr. src = FromV4 addr \<and> to_client here port (sy_server s) addr bytes"
  shows "system_inv bc here port (s\<lparr>sy_client := c\<rparr>)"
proof -
  have arrived: "takes_in bc e msg \<Longrightarrow> \<exists>src bytes. to_client here port (sy_server s) src bytes
      \<and> udp_from_bytes bc (take MAX_DATAGRAM_SIZE bytes) = Inr msg" for msg
    using assms(3) unfolding takes_in_def by blast
  have old: "client_traced bc here port s" using assms(2) by (simp add: system_inv_def)
  let ?l = "c_listener (sy_client s)" and ?l' = "c_listener c"
  note learns = client_learns [OF assms(1)]
  have src: "\<exists>bytes. to_client here port (sy_server s) src bytes" if "l_src_addr ?l' = Some src" for src
  proof -
    have "l_src_addr ?l' = l_src_addr ?l \<or> (\<exists>bytes addr clone clock.
        e = Receive (Packet bytes (FromV4 addr) clone clock) \<and> l_src_addr ?l' = Some addr)"
      using learns by (elim conjE)
    then show ?thesis
    proof (elim disjE exE conjE)
      assume "l_src_addr ?l' = l_src_addr ?l"
      with client_tracedD(3) [OF old] that show ?thesis by simp
    next
      fix bytes addr clone clock
      assume "e = Receive (Packet bytes (FromV4 addr) clone clock)" "l_src_addr ?l' = Some addr"
      with assms(3) that show ?thesis by auto
    qed
  qed
  have "client_traced bc here port (s\<lparr>sy_client := c\<rparr>)"
    unfolding client_traced_def Let_def
  proof (intro conjI ballI allI impI, goal_cases)
    case (1 q)
    then have "q \<in> set (l_printed ?l) \<or> takes_in bc e (Quote q)" using learns by simp
    with arrived client_tracedD(1) [OF old] show ?case by auto
  next
    case (2 r)
    then have "r \<in> set (w_pings (l_worker ?l)) \<or> takes_in bc e (Pong (pr_timestamp r))" using learns by simp
    with 2 arrived client_tracedD(2) [OF old] show ?case by auto
  next
    case (3 src)
    with src show ?case by simp
  next
    case (4 d)
    then have "d \<in> set (c_pinged (sy_client s)) \<or> l_src_addr ?l = Some (fst d)" using learns by simp
    with client_tracedD(3) [OF old, of "fst d"] client_tracedD(4) [OF old, of d] show ?case by (elim disjE) simp_all
  qed
  moreover have "pongs_traced bc here port (s\<lparr>sy_client := c\<rparr>)"
    using assms(2) pinged_stays [OF assms(1)] by (fastforce simp: system_inv_def pongs_traced_def to_server_def)
  ultimately show ?thesis using assms(2) by (simp add: system_inv_def)
qed

lemma system_traced:
  "history (system_step sd bc here port) system_events s bs s' \<Longrightarrow> system_inv bc here port s \<Longrightarrow>
     system_inv bc here port s'"
proof (induction rule: history.induct)
  case (history_snoc s bs s' e s'')
  from history_snoc(2) history_snoc.IH [OF history_snoc.prems] show ?case
    by (induction rule: system_step.induct) (auto intro: traced_at_server traced_at_client)
qed

lemma new_system_inv:
  "processor_inv p \<Longrightarrow> w_pings w = [] \<Longrightarrow> system_inv bc here port (new_system p socket w)"
  using new_server_inv [of p bc] new_server_flags [of p]
  by (simp add: system_inv_def new_system_def client_traced_def pongs_traced_def
      pongs_at_def new_server_def new_client_def new_listener_def)

text \<open>What was sent to the client is a quote or a pong.\<close>

lemma sent_cases:
  assumes "delivery_inv bc tr (sy_server s)" "pongs_traced bc here port s"
    and "to_client here port (sy_server s) src bytes"
  obtains (quote) a th q where "sv_threads (sy_server s) a = Some th" "port a = src"
      "carries bc th (here, bytes) q" "q \<in> set (published (thread_id th) (along server_events tr))"
  | (pong) a t ping where "port a = src" "(here, bytes) \<in> set (pongs_at (sy_server s) a)"
      "udp_to_bytes bc (Pong t) = Inr bytes" "to_server port (sy_client s) a ping"
      "udp_from_bytes bc (take monitor_buf ping) = Inr (Ping t)"
proof -
  obtain a th where th: "sv_threads (sy_server s) a = Some th" "port a = src"
    "(here, bytes) \<in> set (st_sent th) \<or> (here, bytes) \<in> set (pongs_at (sy_server s) a)"
    using assms(3) by (auto simp: to_client_def outgoing_def pongs_at_def)
  from th(3) show thesis
  proof
    assume "(here, bytes) \<in> set (st_sent th)"
    from sent_published [OF assms(1) th(1) this] show thesis using quote [OF th(1,2)] by blast
  next
    assume "(here, bytes) \<in> set (pongs_at (sy_server s) a)"
    from bspec [OF spec [OF assms(2) [unfolded pongs_traced_def]] this] obtain t ping where
      "udp_to_bytes bc (Pong t) = Inr bytes" "to_server port (sy_client s) a ping"
      "udp_from_bytes bc (take monitor_buf ping) = Inr (Ping t)" by auto
    with th(2) \<open>(here, bytes) \<in> set (pongs_at (sy_server s) a)\<close> show thesis by (rule pong)
  qed
qed

text \<open>A message whose bytes, if bincode can write it, fit into the client's buffer.\<close>

definition fits :: "'b bincode \<Rightarrow> udp_message \<Rightarrow> bool" where
  "fits bc msg \<longleftrightarrow> (\<forall>bytes. udp_to_bytes bc msg = Inr bytes \<longrightarrow> length bytes \<le> MAX_DATAGRAM_SIZE)"

lemma fits_decodes:
  "bincode_ok bc \<Longrightarrow> fits bc msg \<Longrightarrow> udp_to_bytes bc msg = Inr bytes \<Longrightarrow>
     udp_from_bytes bc (take MAX_DATAGRAM_SIZE bytes) = Inr msg"
  by (simp add: fits_def udp_bytes_back)

section \<open>A run of the whole system\<close>

text \<open>
  A run of the server without datagrams and a run of the client are runs of the system. The
  run below subscribes, sends a quote, which the client prints, and lets the client ping.
\<close>

abbreviation example_here :: socket_addr where
  "example_here \<equiv> (Ipv4 127 0 0 1, 8091)"

abbreviation example_port :: "nat \<Rightarrow> socket_addr" where
  "example_port \<equiv> \<lambda>a. (Ipv4 127 0 0 1, 5000)"

lemma lift_server_run:
  "server_run sd bc s es s' \<Longrightarrow> (\<forall>a ev. MonitorEvent a ev \<notin> set es) \<Longrightarrow>
     \<exists>bs. history (system_step sd bc here port) system_events \<lparr>sy_server = s, sy_client = c\<rparr> bs
       \<lparr>sy_server = s', sy_client = c\<rparr>"
proof (induction rule: server_run.induct)
  case (run_step s es s' e s'')
  then obtain bs where bs: "history (system_step sd bc here port) system_events
      \<lparr>sy_server = s, sy_client = c\<rparr> bs \<lparr>sy_server = s', sy_client = c\<rparr>" by auto
  have "system_step sd bc here port \<lparr>sy_server = s', sy_client = c\<rparr> (AtServer e) \<lparr>sy_server = s'', sy_client = c\<rparr>"
    using system_step.at_server [of sd bc "\<lparr>sy_server = s', sy_client = c\<rparr>" e s'' here port] run_step by auto
  from history.history_snoc [where events = system_events, OF bs this] show ?case by blast
qed (rule exI, rule history.history_nil)

lemma client_does:
  assumes "history (system_step sd bc here port) system_events s bs \<lparr>sy_server = sv, sy_client = c\<rparr>"
    and "client_step bc c e c'" "\<And>bytes src clone clock. e = Receive (Packet bytes src clone clock) \<Longrightarrow>
       \<exists>addr. src = FromV4 addr \<and> to_client here port sv addr bytes"
  shows "history (system_step sd bc here port) system_events s bs \<lparr>sy_server = sv, sy_client = c'\<rparr>"
  using history.history_snoc [OF assms(1), of "AtClient e" "\<lparr>sy_server = sv, sy_client = c'\<rparr>"]
    system_step.at_client [of bc "\<lparr>sy_server = sv, sy_client = c\<rparr>" e c' here port sd] assms(2,3)
  by (simp add: system_events_def)

lemma server_does:
  assumes "history (system_step sd bc here port) system_events s bs \<lparr>sy_server = sv, sy_client = c\<rparr>"
    and "server_step sd bc sv e sv'"
    and "\<And>a bytes now. e = MonitorEvent a (Datagram bytes here now) \<Longrightarrow> to_server port c a bytes"
  shows "history (system_step sd bc here port) system_events s (bs @ server_events sv e) \<lparr>sy_server = sv', sy_client = c\<rparr>"
  using history.history_snoc [OF assms(1), of "AtServer e" "\<lparr>sy_server = sv', sy_client = c\<rparr>"]
    system_step.at_server [of sd bc "\<lparr>sy_server = sv, sy_client = c\<rparr>" e sv' here port] assms(2,3)
  by (simp add: system_events_def)

abbreviation printing_client :: "stock_quote \<Rightarrow> client" where
  "printing_client q \<equiv> served_client\<lparr>c_listener := (c_listener served_client)\<lparr>l_printed := [q]\<rparr>\<rparr>"

abbreviation quoted_thread :: "stock_quote \<Rightarrow> stream_thread" where
  "quoted_thread q \<equiv> example_thread\<lparr>st_sent := [(example_here, write_udp (Quote q))]\<rparr>"

lemma example_prints:
  assumes "q_ticker q = ''XYZ''"
  shows "client_step reference_bincode (new_client (Inr ()) example_worker)
    (Receive (Packet (write_udp (Quote q)) (FromV4 (example_port 0)) (Inr ()) 0)) (printing_client q)"
proof -
  have "quote_fits q" "length (write_udp (Quote q)) \<le> MAX_DATAGRAM_SIZE"
    using assms by (simp_all add: quote_fits_def MAX_DATAGRAM_SIZE_def write_quote_def layout_quote_def)
  then have "listen_step reference_bincode (c_listener (new_client (Inr ()) example_worker))
      (Packet (write_udp (Quote q)) (FromV4 (example_port 0)) (Inr ()) 0) =
    Continue (c_listener (printing_client q))"
    by (simp add: listen_step_def reference_decodes handle_message_def served_client_def new_client_def
        new_listener_def example_worker_facts del: write_udp.simps)
  from client_step.receive [OF _ this] show ?thesis by (simp add: served_client_def new_client_def)
qed

lemma example_printed:
  "\<exists>bs sv q. history (system_step strum_text reference_bincode example_here example_port) system_events
      (new_system example_processor (Inr ()) example_worker) bs \<lparr>sy_server = sv, sy_client = printing_client q\<rparr>
    \<and> sv_threads sv 0 = Some (quoted_thread q) \<and> dom (sv_threads sv) = {0}"
proof -
  obtain es sv q where run: "server_run strum_text reference_bincode (new_server example_processor) es sv"
      "\<forall>a ev. MonitorEvent a ev \<notin> set es"
    and sv: "sv_threads sv 0 = Some (quoted_thread q)" "dom (sv_threads sv) = {0}" "q_ticker q = ''XYZ''"
    using example_quote_sent by blast
  obtain bs where bs: "history (system_step strum_text reference_bincode example_here example_port) system_events
      \<lparr>sy_server = new_server example_processor, sy_client = new_client (Inr ()) example_worker\<rparr> bs
      \<lparr>sy_server = sv, sy_client = new_client (Inr ()) example_worker\<rparr>"
    using lift_server_run [OF run] by blast
  have "to_client example_here example_port sv (example_port 0) (write_udp (Quote q))"
    unfolding to_client_def outgoing_def using sv(1) by (intro exI [of _ 0] exI [of _ "quoted_thread q"]) simp
  then have "history (system_step strum_text reference_bincode example_here example_port) system_events
      \<lparr>sy_server = new_server example_processor, sy_client = new_client (Inr ()) example_worker\<rparr> bs
      \<lparr>sy_server = sv, sy_client = printing_client q\<rparr>"
    by (intro client_does [OF bs example_prints [OF sv(3)]]) auto
  with sv show ?thesis unfolding new_system_def by blast
qed

lemma example_tickers_fit:
  assumes "dom (sv_threads sv) = {0}" "sv_threads sv 0 = Some th0" "st_tickers th0 = {''XYZ''}"
  shows "\<forall>a th q. sv_threads sv a = Some th \<longrightarrow> q_ticker q \<in> st_tickers th \<longrightarrow> fits reference_bincode (Quote q)"
proof (intro allI impI)
  fix a th and q :: stock_quote
  assume "sv_threads sv a = Some th" "q_ticker q \<in> st_tickers th"
  moreover from this have "a = 0" using assms(1) by auto
  ultimately have t: "q_ticker q = ''XYZ''" using assms(2,3) by simp
  then have "quote_fits q" by (simp add: quote_fits_def)
  with t show "fits reference_bincode (Quote q)"
    by (simp add: fits_def MAX_DATAGRAM_SIZE_def write_quote_def layout_quote_def)
qed

lemma example_pongs_fit: "\<forall>t. fits reference_bincode (Pong t)"
  by (simp add: fits_def MAX_DATAGRAM_SIZE_def)

text \<open>The client pings, logs the ping, the monitor answers, the answer arrives.\<close>

abbreviation pinging_client :: "stock_quote \<Rightarrow> ping_record list \<Rightarrow> client" where
  "pinging_client q pings \<equiv> (printing_client q)\<lparr>c_listener := (c_listener (printing_client q))\<lparr>l_worker :=
     example_worker\<lparr>w_pings := pings\<rparr>\<rparr>, c_pinged := [(example_port 0, write_udp (Ping 1))]\<rparr>"

lemma example_pings:
  "client_step reference_bincode (printing_client q) (SendPing 1000000 None)
     ((pinging_client q [])\<lparr>c_pending := Some 1\<rparr>)"
  "client_step reference_bincode ((pinging_client q [])\<lparr>c_pending := Some 1\<rparr>) LogPing
     (pinging_client q [\<lparr>pr_timestamp = 1, pr_rtt_ms = None\<rparr>])"
  "client_step reference_bincode (pinging_client q [\<lparr>pr_timestamp = 1, pr_rtt_ms = None\<rparr>])
     (Receive (pong_packet 1)) (pinging_client q [\<lparr>pr_timestamp = 1, pr_rtt_ms = Some 1\<rparr>])"
proof -
  have "pinging (printing_client q) (example_port 0)" "c_pending (printing_client q) = None"
    "ping_send reference_bincode (c_worker (printing_client q)) (1000000, None) = PingSent 1 (write_udp (Ping 1))"
    by (simp_all add: pinging_def served_client_def new_client_def new_listener_def ping_send_def
        unix_millis_def example_worker_facts del: write_udp.simps)
  from client_step.ping_sent [OF this] show "client_step reference_bincode (printing_client q) (SendPing 1000000 None)
     ((pinging_client q [])\<lparr>c_pending := Some 1\<rparr>)"
    by (simp add: served_client_def new_client_def new_listener_def example_worker_def)
  show "client_step reference_bincode ((pinging_client q [])\<lparr>c_pending := Some 1\<rparr>) LogPing
     (pinging_client q [\<lparr>pr_timestamp = 1, pr_rtt_ms = None\<rparr>])"
    using client_step.log_ping [of "(pinging_client q [])\<lparr>c_pending := Some 1\<rparr>" 1 reference_bincode]
    by (simp add: set_worker_def ping_log_def log_ping_def MAX_PING_LOGS_def served_client_def new_client_def)
  have "saturating_sub (2 :: u64) 1 = 1" by (simp add: saturating_sub_def word_le_nat_alt)
  then have "listen_step reference_bincode (c_listener (pinging_client q [\<lparr>pr_timestamp = 1, pr_rtt_ms = None\<rparr>])) (pong_packet 1)
      = Continue (c_listener (pinging_client q [\<lparr>pr_timestamp = 1, pr_rtt_ms = Some 1\<rparr>]))"
    by (simp add: listen_step_def pong_packet_def short_datagram reference_decodes handle_message_def unix_millis_def
        served_client_def new_client_def new_listener_def example_worker_facts del: write_udp.simps)
  from client_step.receive [OF _ this]
  show "client_step reference_bincode (pinging_client q [\<lparr>pr_timestamp = 1, pr_rtt_ms = None\<rparr>])
     (Receive (pong_packet 1)) (pinging_client q [\<lparr>pr_timestamp = 1, pr_rtt_ms = Some 1\<rparr>])"
    by (simp add: served_client_def new_client_def)
qed

lemma example_answers:
  assumes "sv_threads sv 0 = Some (quoted_thread q)"
  shows "\<exists>sv' th m. server_step strum_text reference_bincode sv (MonitorEvent 0 (Datagram (write_udp (Ping 1)) example_here 0)) sv'
    \<and> dom (sv_threads sv') = dom (sv_threads sv) \<and> sv_threads sv' 0 = Some th \<and> st_tickers th = {''XYZ''}
    \<and> st_monitor th = Some m \<and> (example_here, write_udp (Pong 1)) \<in> set (m_pongs m)"
proof -
  let ?th = "quoted_thread q" and ?m = "(new_monitor 0 False)\<lparr>m_last_ping := Some 0, m_pongs := [(example_here, write_udp (Pong 1))]\<rparr>"
  have running: "st_monitor ?th = Some (new_monitor 0 False)" "st_monitor_end ?th = None"
    by (simp_all add: example_thread_def new_thread_def)
  have "take monitor_buf (write_udp (Ping 1)) = write_udp (Ping 1)"
    by (simp add: monitor_buf_def)
  then have "monitor_step reference_bincode (new_monitor 0 False) (Datagram (write_udp (Ping 1)) example_here 0) = Continue ?m"
    by (simp add: monitor_step_def reference_decodes new_monitor_def del: write_udp.simps)
  note step = server_step.monitor [OF assms running this, of strum_text]
  show ?thesis
    by (rule exI, rule exI [of _ "?th\<lparr>st_monitor := Some ?m\<rparr>"], rule exI [of _ ?m], rule conjI, rule step)
      (use assms in \<open>auto simp: example_thread_facts(3) simp del: write_udp.simps\<close>)
qed

lemma example_answered:
  "\<exists>bs sv q th. history (system_step strum_text reference_bincode example_here example_port) system_events
      (new_system example_processor (Inr ()) example_worker) bs
      \<lparr>sy_server = sv, sy_client = pinging_client q [\<lparr>pr_timestamp = 1, pr_rtt_ms = Some 1\<rparr>]\<rparr>
    \<and> dom (sv_threads sv) = {0} \<and> sv_threads sv 0 = Some th \<and> st_tickers th = {''XYZ''}"
proof -
  let ?sys = "system_step strum_text reference_bincode example_here example_port"
  let ?s = "new_system example_processor (Inr ()) example_worker"
  obtain bs sv q where run: "history ?sys system_events ?s bs \<lparr>sy_server = sv, sy_client = printing_client q\<rparr>"
    and sv: "sv_threads sv 0 = Some (quoted_thread q)" "dom (sv_threads sv) = {0}"
    using example_printed by blast
  have "history ?sys system_events ?s bs \<lparr>sy_server = sv, sy_client = (pinging_client q [])\<lparr>c_pending := Some 1\<rparr>\<rparr>"
    by (rule client_does [OF run example_pings(1)]) simp
  then have pinged: "history ?sys system_events ?s bs
      \<lparr>sy_server = sv, sy_client = pinging_client q [\<lparr>pr_timestamp = 1, pr_rtt_ms = None\<rparr>]\<rparr>"
    by (rule client_does [OF _ example_pings(2)]) simp
  obtain sv' th m where answer: "server_step strum_text reference_bincode sv
      (MonitorEvent 0 (Datagram (write_udp (Ping 1)) example_here 0)) sv'"
    "dom (sv_threads sv') = dom (sv_threads sv)" "sv_threads sv' 0 = Some th" "st_tickers th = {''XYZ''}"
    "st_monitor th = Some m" "(example_here, write_udp (Pong 1)) \<in> set (m_pongs m)"
    using example_answers [OF sv(1)] by (elim exE conjE) (rule that)
  note answered = server_does [OF pinged answer(1)]
  have "to_client example_here example_port sv' (example_port 0) (write_udp (Pong 1))"
    unfolding to_client_def outgoing_def using answer(3,5,6)
    by (intro exI [of _ 0] exI [of _ th]) (simp del: write_udp.simps)
  then have "history ?sys system_events ?s (bs @ server_events sv (MonitorEvent 0 (Datagram (write_udp (Ping 1)) example_here 0)))
      \<lparr>sy_server = sv', sy_client = pinging_client q [\<lparr>pr_timestamp = 1, pr_rtt_ms = Some 1\<rparr>]\<rparr>"
    by (intro client_does [OF answered example_pings(3)]) (auto simp: to_server_def pong_packet_def simp del: write_udp.simps)
  with answer(2-4) sv(2) show ?thesis by (intro exI conjI) simp_all
qed

section \<open>Properties\<close>

lemma system_reaches:
  assumes "history (system_step sd bc here port) system_events (new_system p socket w) bs s"
    and "processor_inv p" "w_pings w = []"
  obtains tr where "bs = along server_events tr" "delivery_inv bc tr (sy_server s)"
    "client_traced bc here port s" "pongs_traced bc here port s"
proof -
  have "history (server_step sd bc) server_events (new_server p) bs (sy_server s)"
    using system_server_history [OF assms(1)] by (simp add: new_system_def)
  from history_trace [OF this] obtain tr where
    "history (server_step sd bc) traced (new_server p) tr (sy_server s)" "bs = along server_events tr" by blast
  with history_delivery_inv [OF this(1) new_server_inv [OF assms(2)] new_delivery_inv]
    system_traced [OF assms(1) new_system_inv [OF assms(2,3)]] that [of tr]
  show thesis by (simp add: system_inv_def)
qed

text \<open>
  Claim C4. The client prints nothing but what it asked for: however the threads of client and
  server interleave and whatever the network loses, repeats, delays or reorders, every quote
  that the client has printed was published by the server to a subscriber with the client's
  address who asked for its ticker, and arrived unchanged, price bits included. The quotes of the
  requested tickers and the pongs have to fit into the client's receive buffer.
\<close>

theorem printed_as_published:
  assumes "history (system_step sd bc here port) system_events (new_system p socket w) bs s"
    and "processor_inv p" "w_pings w = []" "bincode_ok bc" "\<forall>t. fits bc (Pong t)"
    and "\<forall>a th q. sv_threads (sy_server s) a = Some th \<longrightarrow> q_ticker q \<in> st_tickers th \<longrightarrow> fits bc (Quote q)"
    and "q \<in> set (l_printed (c_listener (sy_client s)))"
  shows "\<exists>a th. sv_threads (sy_server s) a = Some th \<and> si_udp_addr (st_info th) = here
    \<and> q_ticker q \<in> st_tickers th \<and> q \<in> set (published (thread_id th) bs)"
proof -
  from system_reaches [OF assms(1-3)] obtain tr where bs: "bs = along server_events tr"
    and inv: "delivery_inv bc tr (sy_server s)" "client_traced bc here port s" "pongs_traced bc here port s" .
  obtain src bytes where arrived: "to_client here port (sy_server s) src bytes"
    "udp_from_bytes bc (take MAX_DATAGRAM_SIZE bytes) = Inr (Quote q)"
    using client_tracedD(1) [OF inv(2) assms(7)] by blast
  from inv(1,3) arrived(1) show ?thesis
  proof (cases rule: sent_cases)
    case (quote a th q')
    then have q': "udp_to_bytes bc (Quote q') = Inr bytes" "si_udp_addr (st_info th) = here"
      "q_ticker q' \<in> st_tickers th" by (simp_all add: carries_def)
    with fits_decodes [OF assms(4) _ q'(1)] assms(6) quote(1) arrived(2) have "q' = q" by simp
    with q' quote(1,4) show ?thesis unfolding bs by blast
  next
    case (pong a t ping)
    with fits_decodes [OF assms(4) _ pong(3)] assms(5) arrived(2) show ?thesis by simp
  qed
qed

theorem printed_as_published_witness:
  "\<exists>bs s q th. history (system_step strum_text reference_bincode example_here example_port) system_events
      (new_system example_processor (Inr ()) example_worker) bs s
    \<and> l_printed (c_listener (sy_client s)) = [q] \<and> sv_threads (sy_server s) 0 = Some th
    \<and> q \<in> set (published (thread_id th) bs)"
proof -
  obtain bs sv q where run: "history (system_step strum_text reference_bincode example_here example_port) system_events
      (new_system example_processor (Inr ()) example_worker) bs \<lparr>sy_server = sv, sy_client = printing_client q\<rparr>"
    and sv: "sv_threads sv 0 = Some (quoted_thread q)" "dom (sv_threads sv) = {0}"
    using example_printed by blast
  have "st_tickers (quoted_thread q) = {''XYZ''}" by (simp add: example_thread_facts(3))
  note fit = example_tickers_fit [OF sv(2,1) this]
  have "\<exists>a th. sv_threads sv a = Some th \<and> si_udp_addr (st_info th) = example_here
      \<and> q_ticker q \<in> st_tickers th \<and> q \<in> set (published (thread_id th) bs)"
    using printed_as_published [OF run example_processor_inv example_worker_facts(2) reference_bincode_ok
        example_pongs_fit, of q] fit by simp
  moreover have "a = 0" if "sv_threads sv a = Some th" for a th using sv(2) that by auto
  ultimately have "\<exists>th. sv_threads sv 0 = Some th \<and> q \<in> set (published (thread_id th) bs)" by blast
  then show ?thesis
    using run by (intro exI [of _ bs] exI [of _ "\<lparr>sy_server = sv, sy_client = printing_client q\<rparr>"] exI [of _ q]) simp
qed

text \<open>
  Claim C5. Pings and answers are genuine: the client pings only addresses from which the
  server has sent it something, and every ping that its log shows as answered was sent to the
  socket of a streaming thread whose monitor read it as this very ping and answered it.
\<close>

theorem answered_pings_were_heard:
  assumes "history (system_step sd bc here port) system_events (new_system p socket w) bs s"
    and "processor_inv p" "w_pings w = []" "bincode_ok bc" "\<forall>t. fits bc (Pong t)"
    and "\<forall>a th q. sv_threads (sy_server s) a = Some th \<longrightarrow> q_ticker q \<in> st_tickers th \<longrightarrow> fits bc (Quote q)"
  shows "(\<forall>(addr, ping) \<in> set (c_pinged (sy_client s)). \<exists>bytes. to_client here port (sy_server s) addr bytes)
    \<and> (\<forall>r \<in> set (w_pings (c_worker (sy_client s))). pr_rtt_ms r \<noteq> None \<longrightarrow>
        (\<exists>a th m ping pong. sv_threads (sy_server s) a = Some th \<and> st_monitor th = Some m
          \<and> (port a, ping) \<in> set (c_pinged (sy_client s))
          \<and> udp_from_bytes bc (take monitor_buf ping) = Inr (Ping (pr_timestamp r))
          \<and> udp_to_bytes bc (Pong (pr_timestamp r)) = Inr pong \<and> (here, pong) \<in> set (m_pongs m)))"
proof (intro conjI ballI impI)
  from system_reaches [OF assms(1-3)] obtain tr where
    inv: "delivery_inv bc tr (sy_server s)" "client_traced bc here port s" "pongs_traced bc here port s" by metis
  show "case d of (addr, ping) \<Rightarrow> \<exists>bytes. to_client here port (sy_server s) addr bytes"
    if "d \<in> set (c_pinged (sy_client s))" for d
    using client_tracedD(4) [OF inv(2) that] by (cases d) simp
  fix r
  assume r: "r \<in> set (w_pings (c_worker (sy_client s)))" "pr_rtt_ms r \<noteq> None"
  then obtain src bytes where arrived: "to_client here port (sy_server s) src bytes"
    "udp_from_bytes bc (take MAX_DATAGRAM_SIZE bytes) = Inr (Pong (pr_timestamp r))"
    using client_tracedD(2) [OF inv(2)] by blast
  from inv(1,3) arrived(1) show "\<exists>a th m ping pong. sv_threads (sy_server s) a = Some th \<and> st_monitor th = Some m
      \<and> (port a, ping) \<in> set (c_pinged (sy_client s))
      \<and> udp_from_bytes bc (take monitor_buf ping) = Inr (Ping (pr_timestamp r))
      \<and> udp_to_bytes bc (Pong (pr_timestamp r)) = Inr pong \<and> (here, pong) \<in> set (m_pongs m)"
  proof (cases rule: sent_cases)
    case (quote a th q)
    then have "udp_to_bytes bc (Quote q) = Inr bytes" "fits bc (Quote q)"
      using assms(6) by (auto simp: carries_def)
    from fits_decodes [OF assms(4) this(2,1)] arrived(2) show ?thesis by simp
  next
    case (pong a t ping)
    from fits_decodes [OF assms(4) _ pong(3)] assms(5) arrived(2) have "t = pr_timestamp r" by simp
    moreover obtain th m where "sv_threads (sy_server s) a = Some th" "st_monitor th = Some m"
      "(here, bytes) \<in> set (m_pongs m)" using pong(2)
      by (cases "sv_threads (sy_server s) a"; cases "st_monitor (the (sv_threads (sy_server s) a))")
        (auto simp: pongs_at_def)
    ultimately show ?thesis using pong(3-5) unfolding to_server_def by blast
  qed
qed

theorem answered_pings_were_heard_witness:
  "\<exists>bs s th m pong. history (system_step strum_text reference_bincode example_here example_port) system_events
      (new_system example_processor (Inr ()) example_worker) bs s
    \<and> w_pings (c_worker (sy_client s)) = [\<lparr>pr_timestamp = 1, pr_rtt_ms = Some 1\<rparr>]
    \<and> sv_threads (sy_server s) 0 = Some th \<and> st_monitor th = Some m
    \<and> udp_to_bytes reference_bincode (Pong 1) = Inr pong \<and> (example_here, pong) \<in> set (m_pongs m)"
proof -
  obtain bs sv q th where run: "history (system_step strum_text reference_bincode example_here example_port) system_events
      (new_system example_processor (Inr ()) example_worker) bs
      \<lparr>sy_server = sv, sy_client = pinging_client q [\<lparr>pr_timestamp = 1, pr_rtt_ms = Some 1\<rparr>]\<rparr>"
    and sv: "dom (sv_threads sv) = {0}" "sv_threads sv 0 = Some th" "st_tickers th = {''XYZ''}"
    using example_answered by (elim exE conjE) (rule that)
  let ?s = "\<lparr>sy_server = sv, sy_client = pinging_client q [\<lparr>pr_timestamp = 1, pr_rtt_ms = Some 1\<rparr>]\<rparr>"
  have fit: "\<forall>a th q. sv_threads (sy_server ?s) a = Some th \<longrightarrow> q_ticker q \<in> st_tickers th
      \<longrightarrow> fits reference_bincode (Quote q)"
    using example_tickers_fit [OF sv] by simp
  note heard = answered_pings_were_heard [OF run example_processor_inv example_worker_facts(2) reference_bincode_ok
        example_pongs_fit fit]
  have "\<lparr>pr_timestamp = 1, pr_rtt_ms = Some 1\<rparr> \<in> set (w_pings (c_worker (sy_client ?s)))" by simp
  note answered = bspec [OF conjunct2 [OF heard] this, unfolded system.simps ping_record.simps]
  have "Some 1 \<noteq> (None :: u64 option)" by simp
  from mp [OF answered this] obtain a th m pong where "sv_threads sv a = Some th" "st_monitor th = Some m"
      "udp_to_bytes reference_bincode (Pong 1) = Inr pong" "(example_here, pong) \<in> set (m_pongs m)"
    by (elim exE conjE) (rule that)
  moreover from this have "a = 0" using sv(1) by auto
  ultimately have "\<exists>th m pong. sv_threads sv 0 = Some th \<and> st_monitor th = Some m
      \<and> udp_to_bytes reference_bincode (Pong 1) = Inr pong \<and> (example_here, pong) \<in> set (m_pongs m)" by blast
  with run show ?thesis by (intro exI [of _ bs] exI [of _ ?s]) simp
qed

end
