(* ===== verification/Walk.thy ===== *)
theory Walk
  imports Broker
begin

text \<open>
  The quotes of a ticker over a whole run of the server: a walk that starts from the price in
  the generator and moves by at most two per cent, as \<open>f64\<close> computes it, from one published
  quote to the next.
\<close>

section \<open>Walks\<close>

fun quotes_of :: "string \<Rightarrow> broker_event list \<Rightarrow> stock_quote list" where
  "quotes_of t (Publish q D # bs) = (if q_ticker q = t then q # quotes_of t bs else quotes_of t bs)"
| "quotes_of t (b # bs) = quotes_of t bs"
| "quotes_of t [] = []"

definition in_band :: "f64 \<Rightarrow> f64 \<Rightarrow> bool" where
  "in_band p p' \<longleftrightarrow> (is_finite p \<longrightarrow> p * (1 - MAX_CHANGE_PERCENT) \<le> p' \<and> p' \<le> p * (1 + MAX_CHANGE_PERCENT))"

definition volume_range :: "string \<Rightarrow> u32 \<Rightarrow> bool" where
  "volume_range t v \<longleftrightarrow> (if t \<in> {''AAPL'', ''MSFT'', ''TSLA''} then 1000 \<le> v \<and> v < 6000 else 100 \<le> v \<and> v < 1100)"

definition walk :: "string \<Rightarrow> f64 \<Rightarrow> stock_quote list \<Rightarrow> f64 \<Rightarrow> bool" where
  "walk t start qs now \<longleftrightarrow> successively in_band (start # map q_price qs) \<and> now = last (start # map q_price qs)
     \<and> (\<forall>q \<in> set qs. MIN_PRICE \<le> q_price q \<and> volume_range t (q_volume q))"

lemma quotes_of_append: "quotes_of t (bs @ cs) = quotes_of t bs @ quotes_of t cs"
  by (induction t bs rule: quotes_of.induct) auto

lemma walk_step:
  assumes "walk t start qs now" "in_band now (q_price q)" "MIN_PRICE \<le> q_price q" "volume_range t (q_volume q)"
  shows "walk t start (qs @ [q]) (q_price q)"
  using assms unfolding walk_def by (auto simp: successively_append_iff append_Cons [symmetric] simp del: append_Cons)

section \<open>One tick\<close>

lemma offset_range:
  fixes c v n :: u32
  assumes "v < n" "unat c + unat n < 2 ^ 32"
  shows "c \<le> c + v \<and> c + v < c + n"
proof -
  have v: "unat v < unat n" using assms(1) by (simp add: word_less_nat_alt)
  with assms(2) have "unat (c + v) = unat c + unat v" "unat (c + n) = unat c + unat n"
    using unat_add_lem [of c v] unat_add_lem [of c n] by simp_all
  with v show ?thesis by (simp add: word_le_nat_alt word_less_nat_alt)
qed

lemma volume_in_range: "rng_ok r \<Longrightarrow> volume_range t (random_volume r t)"
  using offset_range [of "range_u32 r 0 5000" 5000 1000] offset_range [of "range_u32 r 0 1000" 1000 100]
  by (auto simp: volume_range_def random_volume_def rng_ok_def)

lemma quote_in_band:
  assumes "generate_quote r now ps t = Value (Some q, ps')" "rng_ok r" "ps t = Some d" "MIN_PRICE \<le> pc_price d"
  shows "q_ticker q = t \<and> in_band (pc_price d) (q_price q) \<and> MIN_PRICE \<le> q_price q \<and> volume_range t (q_volume q)
    \<and> (\<exists>d'. ps' t = Some d' \<and> pc_price d' = q_price q) \<and> (\<forall>u. u \<noteq> t \<longrightarrow> ps' u = ps u)"
  using assms new_price_bounds [OF assms(2), of "pc_price d"] volume_in_range [OF assms(2), of t]
  by (auto simp: generate_quote_def Let_def in_band_def min_le_new_price split: outcome.splits)

lemma tick_prices:
  assumes "generator_ok g" "hash_order_ok (te_order env)"
    and "start_for_quote_step t (g, ch, {}) env = Continue (g', ch', {})"
  shows "prices g t = None \<and> prices g' = prices g
    \<or> (\<exists>q. generate_quote (te_rng env) (te_now env) (prices g) t = Value (Some q, prices g'))"
proof -
  have run: "\<not> gen_shutdown g" using assms(3) tick_shutdown [of g t ch "{}" env] by auto
  show ?thesis
  proof (cases "prices g t")
    case None
    with run assms(3) show ?thesis by (simp add: tick_absent)
  next
    case (Some data)
    then have now: "0 \<le> te_now env" using tick_panic [OF run Some, of env ch] assms(3) by force
    have inv: "registry_inv g" "channels_distinct g" using assms(1) by (simp_all add: generator_ok_def)
    from tick_step [OF inv assms(2) run Some now, of ch] assms(3) show ?thesis by auto
  qed
qed

section \<open>Every step walks\<close>

definition draws_ok :: "server_event \<Rightarrow> bool" where
  "draws_ok e \<longleftrightarrow> (\<forall>t env. e = Tick t env \<longrightarrow> rng_ok (te_rng env))"

lemma remove_subscriber_prices: "prices (p_generator (remove_subscriber h i p)) = prices (p_generator p)"
  by (cases rule: remove_subscriber_cases [of p i h]) (simp_all add: remove_receiver_gen)

lemma step_prices:
  assumes "server_step sd bc s e s'" "server_inv bc s" "\<And>t env. e \<noteq> Tick t env"
  shows "prices (p_generator (sv_proc s')) = prices (p_generator (sv_proc s))"
  using assms
proof (induction rule: server_step.induct)
  case (accept s ev p')
  then have p: "processor_inv (sv_proc s)" by (simp add: server_inv_def)
  from accept_cases [OF accept(2) p] show ?case
    by (elim disjE exE) (simp_all add: add_subscriber_generator [OF p])
qed (auto simp: stream_end_cleanup bind_failed_cleanup start_streaming_def cleanup_def Let_def set_flag_def
    remove_subscriber_prices dest!: stream_step_frame)

lemma quiet_events:
  assumes "\<And>t env. e \<noteq> Tick t env"
  shows "quotes_of t (server_events s e) = []"
  using assms by (auto simp: server_events_def add_events_def cleanup_events_def stream_events_def
      split: server_event.splits accepted.splits sum.splits tcp_message.splits option.splits)

lemma quotes_of_leaves: "quotes_of t (map Leave is) = []"
  by (induction "is") simp_all

definition walking :: "string \<Rightarrow> f64 \<Rightarrow> broker_event list \<Rightarrow> server \<Rightarrow> bool" where
  "walking t start bs s \<longleftrightarrow> (\<exists>d. prices (p_generator (sv_proc s)) t = Some d
     \<and> walk t start (quotes_of t bs) (pc_price d))"

lemma step_walking:
  assumes "server_step sd bc s e s'" "server_inv bc s" "draws_ok e" "walking t start bs s"
  shows "walking t start (bs @ server_events s e) s'"
proof (cases "\<exists>u env. e = Tick u env")
  case False
  then have "\<And>u env. e \<noteq> Tick u env" by blast
  with step_prices [OF assms(1,2)] quiet_events [of e t s] assms(4) show ?thesis
    by (simp add: walking_def quotes_of_append)
next
  case True
  then obtain u env where e: "e = Tick u env" by blast
  let ?g = "p_generator (sv_proc s)"
  obtain d where d: "prices ?g t = Some d" "walk t start (quotes_of t bs) (pc_price d)"
    using assms(4) by (auto simp: walking_def)
  have ok: "generator_ok ?g" using assms(2) by (simp add: server_inv_def processor_inv_def)
  from assms(1) obtain g ch where tick: "hash_order_ok (te_order env)"
    "start_for_quote_step u (?g, p_channels (sv_proc s), {}) env = Continue (g, ch, {})"
    "p_generator (sv_proc s') = g" unfolding e by cases auto
  from tick_prices [OF ok tick(1,2)] show ?thesis
  proof (elim disjE exE conjE)
    assume "prices ?g u = None" "prices g = prices ?g"
    with d show ?thesis
      by (auto simp: walking_def e server_events_def tick_events_def generate_quote_absent quotes_of_append tick(3))
  next
    fix q assume q: "generate_quote (te_rng env) (te_now env) (prices ?g) u = Value (Some q, prices g)"
    have draws: "rng_ok (te_rng env)" using assms(3) by (simp add: draws_ok_def e)
    obtain d' where d': "prices ?g u = Some d'" using q by (cases "prices ?g u") (simp_all add: generate_quote_absent)
    then have "MIN_PRICE \<le> pc_price d'" using ok by (simp add: generator_ok_def prices_ok_def)
    note quote = quote_in_band [OF q draws d' this]
    have ev: "quotes_of t (server_events s e) = (if u = t then [q] else [])"
      using quote by (simp add: e server_events_def tick_events_def q quotes_of_leaves)
    show ?thesis
    proof (cases "u = t")
      case True
      with walk_step [OF d(2), of q] d(1) d' quote show ?thesis
        by (auto simp: walking_def quotes_of_append ev tick(3))
    next
      case False
      with quote d ev show ?thesis by (simp add: walking_def quotes_of_append tick(3))
    qed
  qed
qed

lemma history_walking:
  "history (\<lambda>s e s'. server_step sd bc s e s' \<and> draws_ok e) server_events s bs s' \<Longrightarrow> server_inv bc s \<Longrightarrow>
     walking t start cs s \<Longrightarrow> server_inv bc s' \<and> walking t start (cs @ bs) s'"
proof (induction rule: history.induct)
  case (history_snoc s bs s' e s'')
  then show ?case
    using step_server_inv [of sd bc s' e s''] step_walking [of sd bc s' e s'' t start "cs @ bs"] by simp
qed simp

section \<open>Properties\<close>

text \<open>
  Claim C20. Prices over a run: whatever requests, streaming threads and monitors do in between,
  the quotes of a ticker that the server publishes are a walk. Each price is, as long as the one
  before is finite, between \<open>0.98\<close> and \<open>1.02\<close> times it as \<open>f64\<close> computes them, starting from the
  price the ticker had; none is below \<open>MIN_PRICE\<close> or not a number; the generator keeps the last
  one; and the volumes lie in the ranges of popular and of regular stocks. The draws have to
  lie in the ranges they are asked for.
\<close>

theorem published_prices_walk:
  assumes "history (\<lambda>s e s'. server_step sd bc s e s' \<and> draws_ok e) server_events (new_server p) bs s"
    and "processor_inv p" "prices (p_generator p) t = Some d"
  shows "successively (\<lambda>p p'. is_finite p \<longrightarrow> p * (1 - MAX_CHANGE_PERCENT) \<le> p' \<and> p' \<le> p * (1 + MAX_CHANGE_PERCENT))
      (pc_price d # map q_price (quotes_of t bs))
    \<and> (\<forall>q \<in> set (quotes_of t bs). MIN_PRICE \<le> q_price q \<and> volume_range t (q_volume q))
    \<and> (\<exists>d'. prices (p_generator (sv_proc s)) t = Some d'
        \<and> pc_price d' = last (pc_price d # map q_price (quotes_of t bs)))"
proof -
  have "walking t (pc_price d) [] (new_server p)"
    using assms(3) by (simp add: walking_def walk_def new_server_def)
  with history_walking [OF assms(1) new_server_inv [OF assms(2)]] have "walking t (pc_price d) bs s"
    by fastforce
  then show ?thesis unfolding walking_def walk_def by (auto simp: in_band_def [abs_def])
qed

theorem published_prices_walk_witness:
  "\<exists>bs s q. history (\<lambda>s e s'. server_step strum_text reference_bincode s e s' \<and> draws_ok e) server_events
      (new_server subscribed_processor) bs s
    \<and> quotes_of ''XYZ'' bs = [q] \<and> MIN_PRICE \<le> q_price q \<and> q_price q \<le> MIN_PRICE * (1 + MAX_CHANGE_PERCENT)
    \<and> volume_range ''XYZ'' (q_volume q)"
proof -
  let ?p = "subscribed_processor" and ?e = "Tick ''XYZ'' example_env"
  note prices = example_running(1)
  have inv: "registry_inv (p_generator ?p)" "channels_distinct (p_generator ?p)"
    using subscribed_processor_inv by (simp_all add: processor_inv_def generator_ok_def)
  have env: "hash_order_ok (te_order example_env)" "0 \<le> te_now example_env" by (simp_all add: example_tick_facts sorted_order_ok)
  obtain g ch q where tick: "start_for_quote_step ''XYZ'' (p_generator ?p, p_channels ?p, {}) example_env = Continue (g, ch, {})"
    and q: "generate_quote (te_rng example_env) (te_now example_env) (prices (p_generator ?p)) ''XYZ'' = Value (Some q, prices g)"
      "q_ticker q = ''XYZ''"
    using tick_step [OF inv env(1) example_running(2,1) env(2), of "p_channels ?p"] by auto
  have draws: "draws_ok ?e" by (simp add: draws_ok_def low_rng_ok)
  obtain s where "server_step strum_text reference_bincode (new_server ?p) ?e s"
    using server_step.tick [OF env(1), of "''XYZ''" "new_server ?p" g ch strum_text reference_bincode] tick
    by (auto simp: new_server_def)
  with draws have "history (\<lambda>s e s'. server_step strum_text reference_bincode s e s' \<and> draws_ok e) server_events
      (new_server ?p) (server_events (new_server ?p) ?e) s"
    using history_one [of "\<lambda>s e s'. server_step strum_text reference_bincode s e s' \<and> draws_ok e"
        "new_server ?p" ?e s server_events] by simp
  moreover have "quotes_of ''XYZ'' (server_events (new_server ?p) ?e) = [q]"
    using q by (simp add: server_events_def tick_events_def new_server_def quotes_of_leaves)
  ultimately show ?thesis
    using published_prices_walk [OF _ subscribed_processor_inv prices, of strum_text reference_bincode
        "server_events (new_server ?p) ?e" s] by (auto simp: price_constants)
qed

end
