(* ===== verification/Spec2Isabelle.thy ===== *)
theory Spec2Isabelle
  imports Averages System Walk
begin

text \<open>
  A stock ticker service in Rust and its model. The server (\<open>src/server\<close>) walks the price
  of every configured ticker at random and streams the quotes over UDP to whoever
  subscribed over TCP; the client (\<open>src/client\<close>) subscribes, prints the quotes and pings
  the server, and each side gives the other up when pings or pongs stay away.

  \<^bold>\<open>Parts, theories, sources.\<close> A Rust \<open>struct\<close> is a record, an \<open>enum\<close> a datatype with its
  variants, \<open>Result<T, E>\<close> the sum \<open>E + T\<close>, a call that may panic an \<open>outcome\<close>. Words keep
  their width; a \<open>String\<close> is its bytes as characters; a \<open>HashMap\<close> is a map.

  \<^item> \<open>Prelude\<close>: word types, results, panics, and \<open>run_loop\<close> with the locale \<open>event_loop\<close>,
    the contract of every \<open>loop\<close> of the program.
  \<^item> \<open>RustStd\<close>: the functions of the standard library the sources use (UTF-8, splitting,
    trimming, lines, numbers and addresses as text, big-endian bytes, saturating
    subtraction). \<open>Float64\<close>: \<open>f64\<close> as 64 bits, with rounding, order, sum, product and
    maximum; \<open>Rounding\<close>: how far the rounded results are from the exact ones. \<open>F64Text\<close>: how
    an \<open>f64\<close> prints and parses. \<open>Channel\<close>: \<open>std::sync::mpsc\<close>.
  \<^item> \<open>Errors\<close>: \<open>server/src/errors.rs\<close>, \<open>client/src/errors.rs\<close>.
  \<^item> \<open>Types\<close>: \<open>server/src/types.rs\<close>, the messages with their text and binary forms.
    \<open>Bincode\<close> is one instance of the interface to the \<open>bincode\<close> crate, for the examples.
  \<^item> \<open>Framing\<close>: \<open>server/src/utils.rs\<close> (\<open>read_tcp_message\<close>) and \<open>Processor::send_tcp_message\<close>.
  \<^item> \<open>Generator\<close>: \<open>server/src/generator.rs\<close>. \<open>quote_generator\<close> holds the prices, the
    receivers and the subscriptions by ticker; \<open>add_receiver\<close>, \<open>remove_receiver\<close>,
    \<open>generate_quote\<close> and \<open>start_for_quote_step\<close> are the functions of those names. The locale
    \<open>subscription_registry\<close> is what the processor relies on.
  \<^item> \<open>Processor\<close>: \<open>server/src/processor.rs\<close>. \<open>processor\<close> is the state behind its \<open>Arc\<close>s:
    flags and channels are cells of a store, named by address. Requests
    (\<open>handle_request\<close>, \<open>add_subscriber\<close>, \<open>remove_subscriber\<close>), the accept loop, the streaming
    thread (\<open>stream_step\<close>, \<open>stream_end\<close>) and the monitoring thread (\<open>monitor_step\<close>).
  \<^item> \<open>Server\<close>: \<open>server/src/main.rs\<close>, and the threads of the server interleaved: a step of
    \<open>server_step\<close> is one iteration of one thread's loop.
  \<^item> \<open>Locks\<close>, \<open>Sections\<close>, \<open>Interleaving\<close>: the same operations at the grain of the locks. A
    \<open>point\<close> is a place between two critical sections, \<open>run_section\<close> runs one,
    \<open>section_lock\<close> and \<open>kept_guards\<close> say which guards are alive there, and a step of
    \<open>locked_step\<close> takes a lock or runs a section of one thread.
  \<^item> \<open>Broker\<close>: what the server promises, as an abstract message broker of subscribers and
    inboxes (\<open>broker_step\<close>); the locale \<open>broker_refinement\<close>, interpreted for \<open>server_step\<close> and
    for \<open>locked_step\<close>. \<open>broker_view\<close> is the abstraction, \<open>server_events\<close> and \<open>locked_events\<close>
    name the broker's steps that a step of the model stands for; \<open>history\<close> collects them, or
    with \<open>traced\<close> the whole run, along which \<open>along\<close> collects anything else. \<open>Delivery\<close>: the
    quotes a streaming thread has taken (\<open>taken\<close>) and the datagrams it has sent against the
    quotes published to its subscriber (\<open>delivered\<close>); \<open>Walk\<close>: the published quotes of a
    ticker as a walk (\<open>quotes_of\<close>).
  \<^item> \<open>Worker\<close>: \<open>client/src/worker.rs\<close>. \<open>start_step\<close>, \<open>listen_step\<close> and \<open>ping_step\<close> are
    the iterations of its three loops; the locale \<open>bounded_log\<close> is the log of pings.
  \<^item> \<open>Client\<close>: \<open>client/src/main.rs\<close>, and the client's threads interleaved (\<open>client_step\<close>).
  \<^item> \<open>System\<close>: the server and a client, with all their threads, on a network that loses,
    repeats, delays and reorders datagrams (\<open>system_step\<close>): a datagram may be received
    when it is among those that the other side has sent, \<open>to_client\<close> or \<open>to_server\<close>.
  \<^item> \<open>Tests\<close>, \<open>Averages\<close>: the unit tests of \<open>types.rs\<close>, \<open>processor.rs\<close> and \<open>generator.rs\<close>,
    run on the model; \<open>Averages\<close> has the two that compare averages of random draws, and says
    of the sums of the draws when these tests pass.
  \<^item> This theory: what holds across the connection.

  \<^bold>\<open>Loops.\<close> A loop of the program does not end by itself; it is driven by what its
  blocking calls return. A run is the fold of one iteration over a list of those outcomes:
  \<open>Continue\<close> says the loop is still running at the end of the list, \<open>Break\<close> how it ended.
  The theorems quantify over all lists, so no fuel is involved; where the code returns,
  that is proved as a \<open>Break\<close> or as the existence of a run (\<open>start_outcome\<close>,
  \<open>monitor_verdict\<close>, \<open>silent_subscriber_removed\<close>, \<open>shutdown_completes\<close>,
  \<open>operations_finish\<close>). Every other recursion is structural or has its measure.

  \<^bold>\<open>Parameters.\<close> Code outside the repository appears as arguments: the binary formats of
  \<open>bincode\<close> (hypothesis \<open>bincode_ok\<close>: what is written reads back), the error texts of
  \<open>strum\<close>, the draws of \<open>rand\<close> (\<open>rng_ok\<close>: they lie in the requested range), the iteration
  order of hash sets (\<open>hash_order_ok\<close>: every element once), the clock, and the outcomes of
  file and socket calls. Each hypothesis has an instance used by the examples. A NaN is
  canonical; a clock is a number of nanoseconds, negative before the epoch.

  \<^bold>\<open>What is shown.\<close> Across the connection: a subscription, a quote and a ping arrive and
  are answered as meant; both sides read the same tickers file; the client gets past its
  start at the first attempt or, when it names an unknown ticker or none, never. Whatever
  the network does to the datagrams, the client prints only quotes that the server published
  for it, and takes only pings for answered that a monitor has read and answered. Formats:
  round trips of text, framing and \<open>f64\<close>, and exactly which inputs are lost or refused.
  Server: in every interleaving subscribers are sent what was published to them, in order
  and nothing else, but for the quotes that \<open>bincode\<close> or the socket refuses; a subscription
  is there while its thread runs and gone once it has returned, whereas a thread that
  panics may leave it behind; a silent subscriber is removed. At the grain of
  the locks there is no deadlock, the registries disagree only where an operation is under
  way, a tick serves exactly the subscribers listed when it copied the ids, and the
  operations in one piece are what the sections compute when nobody interferes. At either
  grain the server is the same broker, whose inboxes are queues that lose and double
  nothing. The published prices of a ticker move by two per cent at most, as rounded, and
  stay above the minimum, over the whole run.
  Client: when it subscribes, gives up and shuts down.

  \<^bold>\<open>Bounds.\<close> Ids are 64-bit words handed out by a counter; steps that would wrap it are
  left out of \<open>server_step\<close> and \<open>locked_step\<close>, and \<open>server_main_outcome\<close> has the bound as a
  hypothesis; \<open>reused_id_takes_over\<close> shows what would happen beyond. A message over the limit
  of 10000000 bytes is refused by the reader.

  \<^bold>\<open>Not modelled.\<close> Logging, which only writes; the parsing of the command line by \<open>clap\<close>;
  thread scheduling and the memory order of the atomic flags (each is an atomic cell); steps
  finer than a critical section (\<open>SendQuotes\<close> holds its lock only shared and is one step);
  datagrams that somebody else sends to the client (\<open>only_first_source_checked\<close> is what
  they could do), which \<open>system_step\<close> leaves out; \<open>server/src/lib.rs\<close>, which only re-exports; build
  files and documentation. No theorem says that every interleaving of sections has the same
  outcome as one of whole operations (a tick may miss a receiver inserted after it copied
  the ids); both are runs of the broker.
\<close>

section \<open>Properties across the connection\<close>

lemma member_length_join:
  "t \<in> set ts \<Longrightarrow> length t \<le> length (join_with sep ts)"
  by (induction ts rule: induct_list012) auto

lemma length_subscribe_message:
  "t \<in> set ts \<Longrightarrow> length t \<le> length (tcp_to_string (subscribe_message w ts))"
  using member_length_join [of t ts "'',''"]
  by (simp add: subscribe_message_def display_subscribe_def)

lemma valid_unknown_reply: "valid_str t \<Longrightarrow> valid_str (unknown_ticker_reply t)"
  by (rule valid_str_append) (rule valid_str_ascii, simp add: is_ascii_def)

text \<open>What arrives of a list of tickers: an empty list is written as one empty ticker is.\<close>

definition heard :: "string list \<Rightarrow> string list" where
  "heard tickers = (if tickers = [] then [''''] else tickers)"

definition heard_command :: "worker \<Rightarrow> string list \<Rightarrow> subscribe_command" where
  "heard_command w tickers = \<lparr>sc_cmd = Stream, sc_protocol = Udp, sc_ip = Ipv4 127 0 0 1,
     sc_port = w_worker_udp_port w, sc_tickers = heard tickers\<rparr>"

definition server_answer :: "processor \<Rightarrow> subscribe_command \<Rightarrow> tcp_message" where
  "server_answer p cmd = (case first_unknown p cmd of
     None \<Rightarrow> Ack | Some t \<Rightarrow> Err (''Generator error: Ticker does not exist: '' @ t))"

definition sendable :: "worker \<Rightarrow> string list \<Rightarrow> bool" where
  "sendable w tickers \<longleftrightarrow>
     (\<forall>t \<in> set tickers. valid_str t \<and> CHR '','' \<notin> set t \<and> CHR ''|'' \<notin> set t)
     \<and> length (tcp_to_string (subscribe_message w tickers)) + 45 \<le> max_message"

lemma heard_message:
  "tcp_to_string (subscribe_message w (heard tickers)) = tcp_to_string (subscribe_message w tickers)"
  "subscribe_message w (heard tickers) = Cmd (heard_command w tickers)"
  by (simp_all add: heard_def heard_command_def subscribe_message_def display_subscribe_def)

lemma request_served:
  assumes "processor_inv p" "room out = None" "written out = []" "room reply = None" "written reply = []"
    and "sendable w tickers"
  shows "\<exists>reply'. handle_request sd \<lparr>avail = written (snd (send_command w out tickers)), in_end = e\<rparr> reply p =
        (Inr (), \<lparr>avail = [], in_end = e\<rparr>, reply', snd (add_subscriber (heard_command w tickers) p))
    \<and> fst (read_tcp_message \<lparr>avail = written reply', in_end = e'\<rparr>) =
        Inr (server_answer p (heard_command w tickers))"
proof -
  let ?cmd = "heard_command w tickers"
  define request where "request = \<lparr>avail = written (snd (send_command w out tickers)), in_end = e\<rparr>"
  have text_ok: "\<forall>t \<in> set (heard tickers). valid_str t \<and> CHR '','' \<notin> set t \<and> CHR ''|'' \<notin> set t"
    using assms(6) valid_str_ascii [of "''''"] by (auto simp: sendable_def heard_def)
  have size: "length (tcp_to_string (Cmd ?cmd)) + 45 \<le> max_message"
    using assms(6) heard_message [of w tickers] by (simp add: sendable_def del: tcp_to_string.simps)
  have wf: "tcp_wf (Cmd ?cmd)" "tcp_utf8 (Cmd ?cmd)"
    using text_ok by (auto simp: subscribe_wf_def heard_command_def heard_def)
  have "read_tcp_message request = (Inr (Cmd ?cmd), request\<lparr>avail := []\<rparr>)"
    using read_sent [OF wf, of request "[]"] assms(2,3) size
    by (simp add: request_def send_command_unlimited heard_message(1) [symmetric] heard_message(2)
        del: tcp_to_string.simps)
  note request = handle_request_message [OF this assms(4), of sd p] response_cases [OF assms(1), of sd ?cmd]
  define answer where "answer = server_answer p ?cmd"
  have "tcp_wf answer \<and> tcp_utf8 answer \<and> length (tcp_to_string answer) \<le> max_message"
  proof (cases "first_unknown p ?cmd")
    case None
    then show ?thesis by (simp add: answer_def server_answer_def max_message_def)
  next
    case (Some t)
    then have t: "t \<in> set (heard tickers)" by (auto simp: find_Some_iff heard_command_def)
    with text_ok size Some length_subscribe_message [of t "heard tickers" w] valid_unknown_reply [of t]
    show ?thesis by (simp add: answer_def server_answer_def heard_message(2) del: find.simps)
  qed
  then have "fst (read_tcp_message \<lparr>avail = frame (tcp_to_string answer), in_end = e'\<rparr>) = Inr answer"
    using read_sent [of answer "\<lparr>avail = frame (tcp_to_string answer), in_end = e'\<rparr>" "[]"] by simp
  then show ?thesis
    using request by (simp add: answer_def server_answer_def assms(5) request_def [symmetric])
      (simp add: request_def)
qed

text \<open>
  The client's attempts against the server: each connects, sends the command and reads what
  the server's request handler writes; \<open>e\<close> and \<open>e'\<close> are what the two ends would report
  beyond the messages.
\<close>

fun conversation :: "(strum_error \<Rightarrow> string) \<Rightarrow> io_error \<Rightarrow> io_error \<Rightarrow> worker \<Rightarrow> string list \<Rightarrow> nat \<Rightarrow> processor
    \<Rightarrow> attempt list \<times> processor" where
  "conversation sd e e' w tickers 0 p = ([], p)"
| "conversation sd e e' w tickers (Suc n) p =
     (case handle_request sd \<lparr>avail = written (snd (send_command w open_stream tickers)), in_end = e\<rparr> open_stream p of
        (_, _, reply, p1) \<Rightarrow>
          (case conversation sd e e' w tickers n p1 of
             (attempts, p2) \<Rightarrow>
               (Connected open_stream (Some \<lparr>avail = written reply, in_end = e'\<rparr>) # attempts, p2)))"

lemma conversation_step:
  assumes "processor_inv p" "sendable w tickers"
  obtains inp where "conversation sd e e' w tickers (Suc n) p =
      (Connected open_stream (Some inp) # fst (conversation sd e e' w tickers n (snd (add_subscriber (heard_command w tickers) p))),
       snd (conversation sd e e' w tickers n (snd (add_subscriber (heard_command w tickers) p))))"
    "fst (read_tcp_message inp) = Inr (server_answer p (heard_command w tickers))"
proof -
  have stream: "room open_stream = None" "written open_stream = []" by (simp_all add: open_stream_def)
  from request_served [OF assms(1) stream stream assms(2), of sd e e'] obtain reply where
    "handle_request sd \<lparr>avail = written (snd (send_command w open_stream tickers)), in_end = e\<rparr> open_stream p =
      (Inr (), \<lparr>avail = [], in_end = e\<rparr>, reply, snd (add_subscriber (heard_command w tickers) p))"
    "fst (read_tcp_message \<lparr>avail = written reply, in_end = e'\<rparr>) = Inr (server_answer p (heard_command w tickers))"
    by blast
  then show thesis
    by (intro that [of "\<lparr>avail = written reply, in_end = e'\<rparr>"]) (simp_all split: prod.split)
qed

lemma refused_conversation:
  assumes "processor_inv p" "sendable w tickers" "first_unknown p (heard_command w tickers) = Some t"
    and "unat (p_next_id p) + n < 2 ^ 64"
  shows "length (fst (conversation sd e e' w tickers n p)) = n
    \<and> (\<forall>ev \<in> set (fst (conversation sd e e' w tickers n p)).
        (\<exists>out inp. ev = Connected out inp) \<and> \<not> attempt_succeeds w tickers ev)
    \<and> p_generator (snd (conversation sd e e' w tickers n p)) = p_generator p
    \<and> p_subscribers (snd (conversation sd e e' w tickers n p)) = p_subscribers p"
  using assms(1,3,4)
proof (induction n arbitrary: p)
  case (Suc n)
  let ?cmd = "heard_command w tickers" and ?p = "snd (add_subscriber (heard_command w tickers) p)"
  have room: "p_next_id p \<noteq> - 1"
    using Suc.prems(3) by (auto simp: unsigned_minus_1_eq_mask mask_eq_exp_minus_1)
  have p: "processor_inv ?p" "p_generator ?p = p_generator p" "p_subscribers ?p = p_subscribers p"
    using add_subscriber_inv [OF Suc.prems(1) room] add_subscriber_refused [OF Suc.prems(1,2)] by simp_all
  have "p_next_id ?p = p_next_id p + 1"
    by (cases rule: add_subscriber_cases [OF Suc.prems(1), of ?cmd]) simp_all
  then have "unat (p_next_id ?p) + n < 2 ^ 64"
    using Suc.prems(3) room by (simp add: unat_word_ariths)
  note IH = Suc.IH [OF p(1) _ this]
  obtain inp where step: "conversation sd e e' w tickers (Suc n) p =
      (Connected open_stream (Some inp) # fst (conversation sd e e' w tickers n ?p),
       snd (conversation sd e e' w tickers n ?p))"
    "fst (read_tcp_message inp) = Inr (server_answer p ?cmd)"
    using conversation_step [OF Suc.prems(1) assms(2)] .
  from step(2) Suc.prems(2) have "\<not> attempt_succeeds w tickers (Connected open_stream (Some inp))"
    by (simp add: attempt_succeeds_def server_answer_def)
  then show ?case
    using IH Suc.prems(2) by (simp add: step(1) p del: conversation.simps)
qed simp

text \<open>
  Claim C1. A subscription, end to end. What the client sends for a list of tickers that
  the text format can carry, the server reads as exactly those tickers (an empty list as one
  empty ticker), to be streamed to port \<open>w_worker_udp_port\<close> of 127.0.0.1 (never another
  address, whichever server the client talks to); and what the server answers, the client
  reads as \<open>ACK\<close> if all the tickers are configured, and otherwise as the error that names
  the first one that is not.
\<close>

theorem subscribe_end_to_end:
  assumes "processor_inv p" "room out = None" "written out = []" "room reply = None" "written reply = []"
    and "\<forall>t \<in> set tickers. valid_str t \<and> CHR '','' \<notin> set t \<and> CHR ''|'' \<notin> set t"
    and "length (tcp_to_string (subscribe_message w tickers)) + 45 \<le> max_message"
    and "cmd = \<lparr>sc_cmd = Stream, sc_protocol = Udp, sc_ip = Ipv4 127 0 0 1,
      sc_port = w_worker_udp_port w, sc_tickers = (if tickers = [] then [''''] else tickers)\<rparr>"
    and "request = \<lparr>avail = written (snd (send_command w out tickers)), in_end = e\<rparr>"
  shows "\<exists>reply'. handle_request sd request reply p =
        (Inr (), \<lparr>avail = [], in_end = e\<rparr>, reply', snd (add_subscriber cmd p))
    \<and> fst (read_tcp_message \<lparr>avail = written reply', in_end = e'\<rparr>) =
        Inr (case first_unknown p cmd of
            None \<Rightarrow> Ack | Some t \<Rightarrow> Err (''Generator error: Ticker does not exist: '' @ t))"
proof -
  have "cmd = heard_command w tickers" by (simp add: assms(8) heard_command_def heard_def)
  then show ?thesis
    using request_served [OF assms(1-5), of w tickers sd e e'] assms(6,7)
    by (simp add: sendable_def server_answer_def assms(9))
qed

theorem subscribe_end_to_end_witness:
  "\<exists>reply'. handle_request strum_text \<lparr>avail = written (snd (send_command example_worker open_stream [''XYZ''])),
       in_end = IoError UnexpectedEof None ''''\<rparr> open_stream example_processor =
     (Inr (), \<lparr>avail = [], in_end = IoError UnexpectedEof None ''''\<rparr>, reply', subscribed_processor)
   \<and> fst (read_tcp_message \<lparr>avail = written reply', in_end = IoError UnexpectedEof None ''''\<rparr>) = Inr Ack"
proof -
  have text_ok: "\<forall>t \<in> set [''XYZ'']. valid_str t \<and> CHR '','' \<notin> set t \<and> CHR ''|'' \<notin> set t"
    by (simp, rule valid_str_ascii) (simp add: is_ascii_def)
  have "tcp_to_string (subscribe_message example_worker [''XYZ'']) = ''CMD|STREAM|UDP|127.0.0.1|8091|XYZ''"
    by (simp add: subscribe_message_def example_worker_def display_subscribe_def show_word_def
        show_nat.simps digit_char_def char_of_def bit_Suc_0_iff)
  then have short: "length (tcp_to_string (subscribe_message example_worker [''XYZ''])) + 45 \<le> max_message"
    by (simp add: max_message_def)
  have cmd: "example_command = \<lparr>sc_cmd = Stream, sc_protocol = Udp, sc_ip = Ipv4 127 0 0 1,
      sc_port = w_worker_udp_port example_worker,
      sc_tickers = (if [''XYZ''] = [] then [''''] else [''XYZ''])\<rparr>"
    by (simp add: example_command_def example_worker_def)
  have stream: "room open_stream = None" "written open_stream = []" by (simp_all add: open_stream_def)
  show ?thesis
    using subscribe_end_to_end [OF example_processor_inv stream stream text_ok short cmd refl, of strum_text]
    by (simp add: example_known subscribed_processor_def)
qed

text \<open>
  Claim C6. The client's start, against the server. If every ticker is configured the first
  attempt is acknowledged and \<open>start\<close> returns. If one is not, or the list is empty (which the
  server reads as the ticker without a name), every attempt is refused: however many are made,
  3 s apart, the client never gets past \<open>start\<close>, although the server keeps telling it that
  the ticker does not exist, and the server's registries stay as they were.
\<close>

theorem start_against_server:
  assumes "processor_inv p" "sendable w tickers" "unat (p_next_id p) + n < 2 ^ 64"
    and "conversation sd e e' w tickers n p = (attempts, p')"
  shows "case first_unknown p (heard_command w tickers) of
      Some t \<Rightarrow> (\<exists>s. start w tickers attempts = Continue s \<and> at_sleeps s = replicate n 3)
        \<and> p_generator p' = p_generator p \<and> p_subscribers p' = p_subscribers p
    | None \<Rightarrow> 0 < n \<longrightarrow> (\<exists>s. start w tickers attempts = Break (Value s) \<and> at_sleeps s = [])"
proof (cases "first_unknown p (heard_command w tickers)")
  case (Some t)
  have att: "attempts = fst (conversation sd e e' w tickers n p)" using assms(4) by simp
  note refused = refused_conversation [OF assms(1,2) Some assms(3), of sd e e', folded att]
  then have "\<forall>e. CloneErr e \<notin> set attempts" by auto
  moreover have "map attempt_pause attempts = replicate n 3"
    using refused by (intro replicate_eqI) (auto simp: attempt_pause_def)
  ultimately have "\<exists>s. start w tickers attempts = Continue s \<and> at_sleeps s = replicate n 3"
    using start_run_fails [of attempts w tickers "\<lparr>at_sleeps = [], at_sent = []\<rparr>"] refused
    by (auto simp: start_def)
  with refused Some assms(4) show ?thesis by simp
next
  case None
  show ?thesis
  proof (cases n)
    case (Suc m)
    obtain inp where step: "conversation sd e e' w tickers (Suc m) p =
        (Connected open_stream (Some inp) # fst (conversation sd e e' w tickers m (snd (add_subscriber (heard_command w tickers) p))),
         snd (conversation sd e e' w tickers m (snd (add_subscriber (heard_command w tickers) p))))"
      "fst (read_tcp_message inp) = Inr (server_answer p (heard_command w tickers))"
      using conversation_step [OF assms(1,2)] .
    have "attempt_succeeds w tickers (Connected open_stream (Some inp))"
      using step(2) None by (simp add: attempt_succeeds_def server_answer_def send_command_unlimited open_stream_def)
    then show ?thesis
      using None assms(4) start_run_succeeds [of "[]" w tickers "Connected open_stream (Some inp)"
          "\<lparr>at_sleeps = [], at_sent = []\<rparr>"]
      by (auto simp: Suc step(1) start_def simp del: conversation.simps)
  qed (simp add: None)
qed


theorem start_against_server_witness:
  "(\<exists>s. start example_worker [] (fst (conversation strum_text (IoError UnexpectedEof None '''') (IoError UnexpectedEof None '''') example_worker [] 3 example_processor)) = Continue s
       \<and> at_sleeps s = [3, 3, 3])
   \<and> (\<exists>s. start example_worker [''XYZ'']
         (fst (conversation strum_text (IoError UnexpectedEof None '''') (IoError UnexpectedEof None '''') example_worker [''XYZ''] 1 example_processor)) = Break (Value s))"
proof -
  have "tcp_to_string (subscribe_message example_worker []) = ''CMD|STREAM|UDP|127.0.0.1|8091|''"
    "tcp_to_string (subscribe_message example_worker [''XYZ'']) = ''CMD|STREAM|UDP|127.0.0.1|8091|XYZ''"
    by (simp_all add: subscribe_message_def example_worker_def display_subscribe_def show_word_def
        show_nat.simps digit_char_def char_of_def bit_Suc_0_iff)
  moreover have "valid_str ''XYZ''" by (rule valid_str_ascii) (simp add: is_ascii_def)
  ultimately have sendable: "sendable example_worker []" "sendable example_worker [''XYZ'']"
    by (simp_all add: sendable_def max_message_def)
  have unknown: "first_unknown example_processor (heard_command example_worker []) = Some ''''"
    by (simp add: heard_command_def heard_def example_processor_def example_generator_facts)
  have "heard_command example_worker [''XYZ''] = example_command"
    by (simp add: heard_command_def heard_def example_command_def example_worker_def)
  then have known: "first_unknown example_processor (heard_command example_worker [''XYZ'']) = None"
    using example_known(1) by simp
  have "unat (p_next_id example_processor) + 3 < 2 ^ 64" "unat (p_next_id example_processor) + 1 < 2 ^ 64"
    by (simp_all add: example_ids)
  then show ?thesis
    using start_against_server [OF example_processor_inv sendable(1) _ prod.collapse [symmetric], of 3 strum_text "IoError UnexpectedEof None ''''" "IoError UnexpectedEof None ''''"]
      start_against_server [OF example_processor_inv sendable(2) _ prod.collapse [symmetric], of 1 strum_text "IoError UnexpectedEof None ''''" "IoError UnexpectedEof None ''''"]
    by (auto simp: unknown known numeral_3_eq_3 simp del: conversation.simps find.simps)
qed

text \<open>
  Claim C3. A ping, end to end. The ping that the client sends keeps it alive on the
  server: the monitor reads it as such, remembers when it came and answers to the address
  it came from; and that answer, whenever it arrives, marks exactly this ping as answered
  in the client's log, with the time that has passed (0 if the clock went back). The stamp
  has to be new to the log: pings in the same millisecond share a stamp.
\<close>

theorem ping_end_to_end:
  assumes "bincode_ok bc" "\<forall>t. \<exists>bs. serialize_udp bc (Ping t) = Inr bs \<and> length bs \<le> 1000"
    and "\<forall>t. \<exists>bs. serialize_udp bc (Pong t) = Inr bs \<and> length bs \<le> 65536"
    and "\<not> w_shutdown (l_worker l)" "l_src_addr l \<noteq> None" "0 \<le> sent_at" "0 \<le> now"
    and "stamp = word_of_int (sent_at div 1000000)" "stamp \<notin> set (map pr_timestamp (w_pings (l_worker l)))"
  shows "\<exists>w ping m' pong l'. ping_step bc server (l_worker l, []) (sent_at, None) = Continue (w, [(server, ping)])
    \<and> monitor_step bc m (Datagram ping client received) = Continue m'
    \<and> m_last_ping m' = Some received \<and> m_pongs m' = m_pongs m @ [(client, pong)]
    \<and> listen_step bc (l\<lparr>l_worker := w\<rparr>) (Packet pong src clone now) = Continue l'
    \<and> w_pings (l_worker l') = butlast (w_pings w) @
        [\<lparr>pr_timestamp = stamp, pr_rtt_ms = Some (saturating_sub (word_of_int (now div 1000000)) stamp)\<rparr>]"
proof -
  obtain ping where ping: "serialize_udp bc (Ping stamp) = Inr ping" "length ping \<le> 1000"
    using assms(2) by blast
  obtain pong where pong: "serialize_udp bc (Pong stamp) = Inr pong" "length pong \<le> 65536"
    using assms(3) by blast
  have bytes: "udp_to_bytes bc (Ping stamp) = Inr ping" "udp_to_bytes bc (Pong stamp) = Inr pong"
    by (simp_all add: udp_to_bytes_def ping pong)
  have decoded: "udp_from_bytes bc (take monitor_buf ping) = Inr (Ping stamp)"
    "udp_from_bytes bc (take MAX_DATAGRAM_SIZE pong) = Inr (Pong stamp)"
    using udp_bytes_back [OF assms(1) bytes(1)] udp_bytes_back [OF assms(1) bytes(2)] ping(2) pong(2)
    by (simp_all add: monitor_buf_def MAX_DATAGRAM_SIZE_def)
  define pre where "pre = butlast (log_ping stamp (w_pings (l_worker l)))"
  have log: "log_ping stamp (w_pings (l_worker l)) = pre @ [\<lparr>pr_timestamp = stamp, pr_rtt_ms = None\<rparr>]"
    by (simp add: pre_def log_ping_def)
  have "stamp \<notin> set (map pr_timestamp pre)"
    using assms(9) by (auto simp: pre_def log_ping_def dest!: set_tl split: if_splits)
  note match = match_pong_first [OF this, of "\<lparr>pr_timestamp = stamp, pr_rtt_ms = None\<rparr>" _ "[]"]
  let ?w = "ping_log stamp (l_worker l)"
  have "ping_step bc server (l_worker l, []) (sent_at, None) = Continue (?w, [(server, ping)])"
    using assms(4,6) bytes(1) by (simp add: ping_step_def ping_send_def unix_millis_def assms(8))
  moreover have "monitor_step bc m (Datagram ping client received) =
      Continue (m\<lparr>m_last_ping := Some received, m_pongs := m_pongs m @ [(client, pong)]\<rparr>)"
    by (simp add: monitor_step_def decoded bytes)
  moreover have "listen_step bc (l\<lparr>l_worker := ?w\<rparr>) (Packet pong src clone now) =
      Continue (l\<lparr>l_worker := ?w\<lparr>w_pings := match_pong (word_of_int (now div 1000000)) stamp (w_pings ?w)\<rparr>\<rparr>)"
    using assms(4,5,7) by (auto simp: listen_step_def decoded handle_message_def unix_millis_def ping_log_def)
  ultimately show ?thesis
    by (intro exI conjI) (assumption | simp add: ping_log_def log match)+
qed

theorem ping_end_to_end_witness:
  "\<exists>w ping m' pong l'. ping_step reference_bincode (Ipv4 127 0 0 1, 5000) (example_worker, []) (7000000, None)
        = Continue (w, [((Ipv4 127 0 0 1, 5000), ping)])
    \<and> monitor_step reference_bincode (new_monitor 0 False) (Datagram ping (Ipv4 127 0 0 1, 8091) 3) = Continue m'
    \<and> m_last_ping m' = Some 3 \<and> m_pongs m' = [((Ipv4 127 0 0 1, 8091), pong)]
    \<and> listen_step reference_bincode ((new_listener w)\<lparr>l_src_addr := Some (Ipv4 127 0 0 1, 5000)\<rparr>)
        (Packet pong (FromV4 (Ipv4 127 0 0 1, 5000)) (Inr ()) 9000000) = Continue l'
    \<and> w_pings (l_worker l') = [\<lparr>pr_timestamp = 7, pr_rtt_ms = Some 2\<rparr>]"
proof -
  let ?l = "(new_listener example_worker)\<lparr>l_src_addr := Some (Ipv4 127 0 0 1, 5000)\<rparr>"
  have fits: "\<forall>t. \<exists>bs. serialize_udp reference_bincode (Ping t) = Inr bs \<and> length bs \<le> 1000"
    "\<forall>t. \<exists>bs. serialize_udp reference_bincode (Pong t) = Inr bs \<and> length bs \<le> 65536"
    by (simp_all add: reference_bincode_def)
  have running: "\<not> w_shutdown (l_worker ?l)" "l_src_addr ?l \<noteq> None" "(0::int) \<le> 7000000" "(0::int) \<le> 9000000"
    "(7 :: u64) = word_of_int (7000000 div 1000000)" "7 \<notin> set (map pr_timestamp (w_pings (l_worker ?l)))"
    by (simp_all add: new_listener_def example_worker_def)
  have two: "saturating_sub (word_of_int (9000000 div 1000000)) (7 :: u64) = 2"
    by (simp add: saturating_sub_def)
  obtain w ping m' pong l' where *: "ping_step reference_bincode (Ipv4 127 0 0 1, 5000) (example_worker, []) (7000000, None)
        = Continue (w, [((Ipv4 127 0 0 1, 5000), ping)])"
    "monitor_step reference_bincode (new_monitor 0 False) (Datagram ping (Ipv4 127 0 0 1, 8091) 3) = Continue m'"
    "m_last_ping m' = Some 3" "m_pongs m' = m_pongs (new_monitor 0 False) @ [((Ipv4 127 0 0 1, 8091), pong)]"
    "listen_step reference_bincode (?l\<lparr>l_worker := w\<rparr>)
        (Packet pong (FromV4 (Ipv4 127 0 0 1, 5000)) (Inr ()) 9000000) = Continue l'"
    "w_pings (l_worker l') = butlast (w_pings w) @ [\<lparr>pr_timestamp = 7, pr_rtt_ms = Some 2\<rparr>]"
    using ping_end_to_end [OF reference_bincode_ok fits running, of "(Ipv4 127 0 0 1, 5000)" "new_monitor 0 False"
        "(Ipv4 127 0 0 1, 8091)" 3 "FromV4 (Ipv4 127 0 0 1, 5000)" "Inr ()"]
    unfolding two by (auto simp: new_listener_def)
  have "w = ping_log 7 example_worker"
    using *(1) by (simp add: ping_step_def ping_send_def example_worker_def unix_millis_def)
  then have "butlast (w_pings w) = []" by (simp add: ping_log_def log_ping_def example_worker_def MAX_PING_LOGS_def)
  moreover have "?l\<lparr>l_worker := w\<rparr> = (new_listener w)\<lparr>l_src_addr := Some (Ipv4 127 0 0 1, 5000)\<rparr>"
    by (simp add: new_listener_def)
  ultimately show ?thesis using * by (simp add: new_monitor_def)
qed

lemma str_lines_clean:
  assumes "\<forall>l \<in> set ls. clean_line l" "clean_line r"
  shows "str_lines (concat (map (\<lambda>l. l @ [newline]) ls) @ r) = ls @ (if r = [] then [] else [r])"
proof -
  have "raw_lines newline (concat (map (\<lambda>l. l @ [newline]) ls) @ r) = (ls, r)"
    using assms by (intro raw_lines_concat) (auto simp: clean_line_def)
  moreover have "strip_cr carriage_return l = l" if "clean_line l" for l
    using that by (cases l rule: rev_cases) (auto simp: strip_cr_def clean_line_def)
  then have "map (strip_cr carriage_return) ls = ls"
    using assms(1) by (intro map_idI) blast
  ultimately show ?thesis by (simp add: str_lines_def)
qed

lemma clean_text_valid:
  assumes "\<forall>l \<in> set ls. clean_line l" "clean_line r"
  shows "valid_str (concat (map (\<lambda>l. l @ [newline]) ls) @ r)"
proof -
  have "valid_str [newline]" by (rule valid_str_ascii) (simp add: is_ascii_def newline_def)
  then have "valid_str (concat (map (\<lambda>l. l @ [newline]) ls))"
    using assms(1) valid_str_append [of "[newline]"]
    by (induction ls) (auto simp: clean_line_def intro!: valid_str_append)
  with assms(2) show ?thesis by (simp add: clean_line_def valid_str_append)
qed

text \<open>
  Claim C38. The client and the server read a ticker file alike: from the same text of
  lines (the last one with or without its newline) the client subscribes to exactly the
  tickers, in the same order, that the server's generator is built for.
\<close>

theorem ticker_files_agree:
  assumes "\<forall>l \<in> set ls. clean_line l" "clean_line r"
    and "content = as_bytes (concat (map (\<lambda>l. l @ [newline]) ls) @ r)"
    and "ca_tickers_file args = Some (Inr content)"
  shows "\<exists>tickers. select_tickers args = Value tickers
    \<and> new_from_file rngs (Inr (content, None)) = Inr (new_generator rngs tickers)"
proof -
  have "read_to_string (Inr content) = Inr (concat (map (\<lambda>l. l @ [newline]) ls) @ r)"
    using clean_text_valid [OF assms(1,2)] by (simp add: read_to_string_def assms(3) from_utf8_as_bytes)
  then have "select_tickers args =
      Value (filter (\<lambda>x. x \<noteq> []) (map trim (ls @ (if r = [] then [] else [r]))))"
    using str_lines_clean [OF assms(1,2)] by (simp add: select_tickers_def assms(4))
  then show ?thesis using file_tickers [OF assms(1,2), of rngs] by (simp add: assms(3))
qed

theorem ticker_files_agree_witness:
  "\<exists>tickers. select_tickers (with_defaults None None None [] (Some (Inr (as_bytes (''AAPL'' @ [newline]))))) = Value tickers
    \<and> new_from_file (\<lambda>_. low_rng) (Inr (as_bytes (''AAPL'' @ [newline]), None)) =
        Inr (new_generator (\<lambda>_. low_rng) tickers)"
proof -
  have clean: "list_all is_ascii l \<and> newline \<notin> set l \<and> carriage_return \<notin> set l \<Longrightarrow> clean_line l" for l
    by (simp add: clean_line_def valid_str_ascii)
  have "clean_line ''AAPL''" "clean_line []"
    by (auto intro!: clean simp: is_ascii_def newline_def carriage_return_def char_of_def)
  then have lines: "\<forall>l \<in> set [''AAPL'']. clean_line l" "clean_line []" by simp_all
  have bytes: "as_bytes (''AAPL'' @ [newline]) = as_bytes (concat (map (\<lambda>l. l @ [newline]) [''AAPL'']) @ [])"
    by simp
  show ?thesis
    by (rule ticker_files_agree [OF lines bytes]) (simp add: with_defaults_def)
qed

text \<open>What the datagrams of a list of quotes print, when bincode can write them.\<close>

definition transmits :: "'b bincode \<Rightarrow> stock_quote \<Rightarrow> bool" where
  "transmits bc q \<longleftrightarrow>
     (case udp_to_bytes bc (Quote q) of Inr bytes \<Rightarrow> length bytes \<le> MAX_DATAGRAM_SIZE | Inl _ \<Rightarrow> False)"

lemma transmitted:
  assumes "bincode_ok bc" "transmits bc q"
  obtains bytes where "datagrams_for bc addr q None = [(addr, bytes)]"
    "udp_from_bytes bc (take MAX_DATAGRAM_SIZE bytes) = Inr (Quote q)"
proof -
  from assms(2) obtain bytes where bytes: "udp_to_bytes bc (Quote q) = Inr bytes" "length bytes \<le> MAX_DATAGRAM_SIZE"
    by (auto simp: transmits_def split: sum.splits)
  note udp_bytes_back [OF assms(1) bytes(1)]
  with bytes that [of bytes] show thesis by (simp add: datagrams_for_def)
qed

lemma transmitted_quotes:
  assumes "bincode_ok bc" "\<forall>q \<in> set qs. transmits bc q"
  shows "concat (map (\<lambda>d. case udp_from_bytes bc (take MAX_DATAGRAM_SIZE (snd d)) of
      Inr (Quote q) \<Rightarrow> [q] | _ \<Rightarrow> []) (concat (map (\<lambda>q. datagrams_for bc addr q None) qs))) = qs"
  using assms(2)
proof (induction qs)
  case (Cons q qs)
  then have "transmits bc q" by simp
  then show ?case
    by (rule transmitted [OF assms(1), where addr = addr]) (use Cons in simp)
qed simp

text \<open>
  Claim C2. A quote, end to end. From every reachable state of the server, one tick of a
  ticker followed by the iterations of a subscriber's streaming thread sends what waited in
  its channel and then the new quote; the client's listener that receives these datagrams
  prints exactly those quotes, in that order, and the new one carries the price that the
  walk yields from the last one.
\<close>

theorem quote_end_to_end:
  assumes "server_run sd bc (new_server p) es s" "processor_inv p" "sv_threads s a = Some th"
    and "st_phase th = Streaming" "\<not> flag_set (sv_proc s) a" "t \<in> st_tickers th"
    and "hash_order_ok (te_order env)" "\<not> gen_shutdown (p_generator (sv_proc s))" "0 \<le> te_now env"
    and "prices (p_generator (sv_proc s)) t = Some data"
    and "waiting = queue_at (p_channels (sv_proc s)) a"
    and "bincode_ok bc" "\<forall>q. q_ticker q \<in> st_tickers th \<longrightarrow> transmits bc q"
    and "\<not> w_shutdown (l_worker l)" "l_src_addr l \<noteq> None" "0 \<le> clock"
  shows "\<exists>s' q sent l'. server_run sd bc s (Tick t env # replicate (Suc (length waiting)) (SendQuote a None)) s'
    \<and> q_ticker q = t \<and> q_price q = generate_new_price (te_rng env) (pc_price data)
    \<and> sv_threads s' a = Some (th\<lparr>st_sent := st_sent th @ sent\<rparr>)
    \<and> run_loop (listen_step bc) l (map (\<lambda>datagram. Packet (snd datagram) src clone clock) sent) = Continue l'
    \<and> l_printed l' = l_printed l @ waiting @ [q]"
proof -
  obtain s' q where run: "server_run sd bc s (Tick t env # replicate (Suc (length waiting)) (SendQuote a None)) s'"
    and q: "q_ticker q = t" "q_price q = generate_new_price (te_rng env) (pc_price data)"
    and sent: "sv_threads s' a = Some (th\<lparr>st_sent := st_sent th
        @ concat (map (\<lambda>q. datagrams_for bc (si_udp_addr (st_info th)) q None) (waiting @ [q]))\<rparr>)"
    using tick_streams [OF assms(1-11)] by blast
  define sent where "sent = concat (map (\<lambda>q. datagrams_for bc (si_udp_addr (st_info th)) q None) (waiting @ [q]))"
  have "thread_ok bc (sv_proc s) a th"
    using run_server_inv [OF assms(1) new_server_inv [OF assms(2)]] assms(3) by (simp add: server_inv_def)
  then have "\<forall>q \<in> set (waiting @ [q]). transmits bc q"
    using assms(6,11,13) q(1) by (auto simp: thread_ok_def thread_quotes_def)
  note printed = transmitted_quotes [OF assms(12) this, of "si_udp_addr (st_info th)", folded sent_def]
  let ?packets = "map (\<lambda>d. (snd d, src, clone, clock)) sent"
  have "\<forall>(bytes, src, clone, clock) \<in> set ?packets. 0 \<le> clock" using assms(16) by auto
  from listen_prints [OF assms(14,15) this, of bc]
  obtain l' where "run_loop (listen_step bc) l (map (\<lambda>datagram. Packet (snd datagram) src clone clock) sent) = Continue l'"
    "l_printed l' = l_printed l @ waiting @ [q]"
    using printed by (auto simp: comp_def)
  with run q sent show ?thesis unfolding sent_def by blast
qed


lemma reference_transmits: "q_ticker q \<in> {''XYZ''} \<longrightarrow> transmits reference_bincode q"
proof
  assume t: "q_ticker q \<in> {''XYZ''}"
  then have "quote_fits q" by (simp add: quote_fits_def)
  with t show "transmits reference_bincode q"
    by (simp add: transmits_def MAX_DATAGRAM_SIZE_def write_quote_def layout_quote_def)
qed

theorem quote_end_to_end_witness:
  "\<exists>s' q sent l'. server_run strum_text reference_bincode streaming_server
      [Tick ''XYZ'' example_env, SendQuote 0 None] s'
    \<and> sv_threads s' 0 = Some (example_thread\<lparr>st_sent := sent\<rparr>) \<and> q_ticker q = ''XYZ''
    \<and> run_loop (listen_step reference_bincode) ((new_listener example_worker)\<lparr>l_src_addr := Some (Ipv4 127 0 0 1, 5000)\<rparr>)
        (map (\<lambda>datagram. Packet (snd datagram) (FromV4 (Ipv4 127 0 0 1, 5000)) (Inr ()) 0) sent) = Continue l'
    \<and> l_printed l' = [q]"
proof -
  note th = example_thread_facts
  let ?l = "(new_listener example_worker)\<lparr>l_src_addr := Some (Ipv4 127 0 0 1, 5000)\<rparr>"
  obtain es where run: "server_run strum_text reference_bincode (new_server example_processor) es streaming_server"
    using example_streaming by blast
  have ticker: "''XYZ'' \<in> st_tickers example_thread"
    and fits: "\<forall>q. q_ticker q \<in> st_tickers example_thread \<longrightarrow> transmits reference_bincode q"
    using reference_transmits unfolding th(3) by blast+
  have running: "\<not> w_shutdown (l_worker ?l)" "l_src_addr ?l \<noteq> None" "(0::int) \<le> 0"
    by (simp_all add: new_listener_def example_worker_def)
  obtain s' q sent l' where "server_run strum_text reference_bincode streaming_server
      (Tick ''XYZ'' example_env # replicate (Suc (length ([] :: stock_quote list))) (SendQuote 0 None)) s'"
    and q: "q_ticker q = ''XYZ''" "sv_threads s' 0 = Some (example_thread\<lparr>st_sent := st_sent example_thread @ sent\<rparr>)"
    and l: "run_loop (listen_step reference_bincode) ?l
        (map (\<lambda>datagram. Packet (snd datagram) (FromV4 (Ipv4 127 0 0 1, 5000)) (Inr ()) 0) sent) = Continue l'"
    "l_printed l' = l_printed ?l @ [] @ [q]"
    using quote_end_to_end [OF run example_processor_inv th(1,2,6) ticker example_tick_facts th(7)
        reference_bincode_ok fits running, of "FromV4 (Ipv4 127 0 0 1, 5000)" "Inr ()"] by blast
  moreover have "l_printed l' = [q]" using l(2) by (simp add: new_listener_def)
  moreover have "sv_threads s' 0 = Some (example_thread\<lparr>st_sent := sent\<rparr>)" using q(2) by (simp only: th(4) append_Nil)
  ultimately show ?thesis by (intro exI conjI) (simp_all only: replicate_Suc replicate_0 list.size)
qed


end
